(* ===== verification/Prelude.thy ===== *)
theory Prelude
  imports Complex_Main "HOL-Library.Word" "HOL-Library.Code_Target_Nat"
begin

text \<open>
  Shared vocabulary of the development: the machine integers of the crate (a 64-bit
  target, so \<open>usize\<close> is 64 bits wide), the time types, Rust's saturating operations, the
  collections of rewrite rules that the components fill, and the generic lemmas on words,
  lists and options that more than one component uses.

  A \<open>std::time::Duration\<close> is a number of nanoseconds, an \<open>Instant\<close> the number of
  nanoseconds since the start of the monotonic clock. A plain \<open>+\<close> on \<open>u64\<close> wraps, as it
  does in the release profile and in every \<open>fetch_add\<close>. A \<open>Result\<close> is a sum with the
  error on the left; a panic is the value \<^term>\<open>None\<close> of an option.
\<close>

type_synonym u8 = "8 word"
type_synonym u16 = "16 word"
type_synonym u32 = "32 word"
type_synonym u64 = "64 word"
type_synonym usize = "64 word"
type_synonym duration = nat
type_synonym instant = nat

named_theorems u64_simps \<open>reading saturating and wrapping operations through unat\<close>
named_theorems f64_intros \<open>bounds on rounded binary64 results\<close>
named_theorems frame \<open>fields an operation leaves alone\<close>

section \<open>Saturating machine arithmetic\<close>

definition saturating_sub :: "'a::len word \<Rightarrow> 'a word \<Rightarrow> 'a word" where
  "saturating_sub a b = (if b \<le> a then a - b else 0)"

definition saturating_add :: "'a::len word \<Rightarrow> 'a word \<Rightarrow> 'a word" where
  "saturating_add a b = (if a \<le> a + b then a + b else - 1)"

lemma unat_saturating_sub [u64_simps]: "unat (saturating_sub a b) = unat a - unat b"
  by (simp add: saturating_sub_def unat_sub word_le_nat_alt)

lemma unat_max_word: "unat (- 1 :: 'a::len word) = 2 ^ LENGTH('a) - 1"
  by (simp add: unsigned_minus_1_eq_mask mask_eq_exp_minus_1)

lemma unat_add_no_wrap: "unat a + unat b < 2 ^ LENGTH('a) \<Longrightarrow> unat (a + b) = unat a + unat (b :: 'a::len word)"
  by (rule unat_add_lem [THEN iffD1])

lemma unat_saturating_add [u64_simps]:
  "unat (saturating_add a b) = min (unat a + unat b) (2 ^ LENGTH('a) - 1)" for a b :: "'a::len word"
proof (cases "unat a + unat b < 2 ^ LENGTH('a)")
  case True
  then have sum: "unat (a + b) = unat a + unat b" by (rule unat_add_no_wrap)
  then have "a \<le> a + b" by (simp add: word_le_nat_alt)
  then show ?thesis using True sum by (simp add: saturating_add_def)
next
  case False
  have lt: "unat a < 2 ^ LENGTH('a)" "unat b < 2 ^ LENGTH('a)" by (rule unsigned_less)+
  have "unat (a + b) = (unat a + unat b) mod 2 ^ LENGTH('a)" by (rule unat_word_ariths)
  also have "\<dots> = unat a + unat b - 2 ^ LENGTH('a)"
  proof -
    have "unat a + unat b - 2 ^ LENGTH('a) < 2 ^ LENGTH('a)" using lt by linarith
    then show ?thesis using False by (simp add: le_mod_geq)
  qed
  finally have "unat (a + b) = unat a + unat b - 2 ^ LENGTH('a)" .
  then have "unat (a + b) < unat a" using False lt by linarith
  then have "\<not> a \<le> a + b" by (simp add: word_le_nat_alt)
  then show ?thesis using False by (simp add: saturating_add_def unat_max_word)
qed

lemma saturating_add_ge: "a \<le> saturating_add a b" for a b :: "'a::len word"
proof -
  have "unat a < 2 ^ LENGTH('a)" by (rule unsigned_less)
  then have "unat a \<le> 2 ^ LENGTH('a) - 1" by linarith
  then show ?thesis by (simp add: word_le_nat_alt u64_simps)
qed

lemma unat_max [u64_simps]: "unat (max a b) = max (unat a) (unat b)"
  by (simp add: max_def word_le_nat_alt)

lemma unat_min [u64_simps]: "unat (min a b) = min (unat a) (unat b)"
  by (simp add: min_def word_le_nat_alt)

lemma unat_of_nat_u64 [u64_simps]: "n < 2 ^ 64 \<Longrightarrow> unat (of_nat n :: u64) = n"
  by (simp add: unat_of_nat)

lemma word_eq_0_iff_unat: "(w :: 'a::len word) = 0 \<longleftrightarrow> unat w = 0"
  by (simp add: unat_eq_zero)

declare of_nat_unat [simp del]

section \<open>Lists and options\<close>

text \<open>Rust's \<open>Iterator::min\<close> on a list of keys.\<close>

definition min_list_opt :: "'a::linorder list \<Rightarrow> 'a option" where
  "min_list_opt xs = (case xs of [] \<Rightarrow> None | _ \<Rightarrow> Some (Min (set xs)))"

lemma min_list_opt_Some_iff:
  "min_list_opt xs = Some m \<longleftrightarrow> m \<in> set xs \<and> (\<forall>x \<in> set xs. m \<le> x)"
proof (cases xs)
  case (Cons y ys)
  then have "min_list_opt xs = Some m \<longleftrightarrow> Min (set xs) = m" by (simp add: min_list_opt_def)
  also have "\<dots> \<longleftrightarrow> m \<in> set xs \<and> (\<forall>x \<in> set xs. m \<le> x)" using Cons by (intro Min_eq_iff) auto
  finally show ?thesis .
qed (simp add: min_list_opt_def)

lemma min_list_opt_None_iff [simp]: "min_list_opt xs = None \<longleftrightarrow> xs = []"
  by (simp add: min_list_opt_def split: list.splits)

text \<open>Collecting an iterator of results stops at the first error.\<close>

fun collect_results :: "('e + 'a) list \<Rightarrow> 'e + 'a list" where
  "collect_results [] = Inr []"
| "collect_results (Inl e # xs) = Inl e"
| "collect_results (Inr x # xs) = map_sum id (Cons x) (collect_results xs)"

lemma collect_results_Inr_iff: "collect_results xs = Inr ys \<longleftrightarrow> xs = map Inr ys"
proof (induction xs arbitrary: ys rule: collect_results.induct)
  case (3 x xs)
  show ?case
  proof (cases ys)
    case Nil
    then show ?thesis by (cases "collect_results xs") simp_all
  next
    case (Cons y zs)
    then show ?thesis using "3.IH" [of zs] by (cases "collect_results xs") auto
  qed
qed (auto simp: Cons_eq_map_conv)

lemma collect_results_Inl:
  "collect_results xs = Inl e \<Longrightarrow> \<exists>ys zs. xs = map Inr ys @ Inl e # zs"
proof (induction xs rule: collect_results.induct)
  case (2 e' xs)
  then show ?case by (intro exI [of _ "[]"] exI [of _ xs]) simp
next
  case (3 x xs)
  then obtain ys zs where "xs = map Inr ys @ Inl e # zs" by (cases "collect_results xs") auto
  then show ?case by (intro exI [of _ "x # ys"] exI [of _ zs]) simp
qed simp

lemma map_sum_Inr_iff: "map_sum g f x = Inr y \<longleftrightarrow> (\<exists>z. x = Inr z \<and> y = f z)"
  by (cases x) auto

text \<open>A sequential loop whose body may panic.\<close>

fun foldM :: "('a \<Rightarrow> 's \<Rightarrow> 's option) \<Rightarrow> 'a list \<Rightarrow> 's \<Rightarrow> 's option" where
  "foldM f [] s = Some s"
| "foldM f (x # xs) s = Option.bind (f x s) (foldM f xs)"

lemma foldM_append: "foldM f (xs @ ys) s = Option.bind (foldM f xs s) (foldM f ys)"
  by (induction xs arbitrary: s) (auto simp: bind_assoc intro!: arg_cong2 [where f = Option.bind])

lemma foldM_invariant:
  assumes "foldM f xs s = Some t" and "P s"
    and "\<And>x s t. x \<in> set xs \<Longrightarrow> P s \<Longrightarrow> f x s = Some t \<Longrightarrow> P t"
  shows "P t"
  using assms
proof (induction xs arbitrary: s)
  case (Cons x xs)
  then obtain u where "f x s = Some u" "foldM f xs u = Some t" by (auto simp: Option.bind_eq_Some_conv)
  then show ?case using Cons.IH [of u] Cons.prems by auto
qed simp

lemma foldM_total:
  assumes "P s" and "\<And>x s. x \<in> set xs \<Longrightarrow> P s \<Longrightarrow> \<exists>t. f x s = Some t \<and> P t"
  shows "\<exists>t. foldM f xs s = Some t \<and> P t"
  using assms
proof (induction xs arbitrary: s)
  case (Cons x xs)
  then obtain u where "f x s = Some u" "P u" by (metis list.set_intros(1))
  then show ?case using Cons.IH [of u] Cons.prems(2) by auto
qed simp

end
