(* ===== verification/F64.thy ===== *)
theory F64
  imports Prelude "HOL-Library.Log_Nat"
begin

text \<open>
  Rust's \<open>f64\<close>. A finite binary64 value is a rational number, and an operation returns
  the exact result rounded to the nearest binary64 value, ties to the even significand
  (IEEE 754). \<open>f64_round\<close> is that rounding, with 53 bits of significand and gradual
  underflow at \<open>2 ^ -1074\<close>; the arithmetic of the crate is written with it, one rounding
  per operation, in the order of the source. Infinities and NaN are not values of the
  model: overflow starts at \<open>2 ^ 1024\<close>, and the rates, losses and durations the crate
  computes from finite inputs stay far below it; divisions are by values that are not zero.

  The locale \<open>rounding\<close> is what the other components rely on: rounding is monotone,
  idempotent, exact on the integers up to \<open>2 ^ 53\<close> and has a relative error of at most
  \<open>2 ^ -53\<close> from \<open>2 ^ -64\<close> upwards.
\<close>

type_synonym f64 = rat

section \<open>Rounding to the nearest binary64 value\<close>

text \<open>The exponent of the leading bit of a positive rational.\<close>

definition ilog2 :: "rat \<Rightarrow> int" where
  "ilog2 x = (let (p, q) = quotient_of x; e = bitlen p - bitlen q
              in if 2 powi e \<le> x then e else e - 1)"
definition rne :: "rat \<Rightarrow> int" where
  "rne x = (let f = \<lfloor>x\<rfloor>; d = x - of_int f
            in if d < 1 / 2 then f else if 1 / 2 < d then f + 1 else if even f then f else f + 1)"
definition f64_round :: "rat \<Rightarrow> rat" where
  "f64_round x = (if x = 0 then 0
     else let e = max (ilog2 \<bar>x\<bar> - 52) (- 1074) in of_int (rne (x / 2 powi e)) * 2 powi e)"

text \<open>The exponent of the last bit that a value near \<open>x\<close> has.\<close>

definition f64_exp :: "rat \<Rightarrow> int" where
  "f64_exp x = max (ilog2 \<bar>x\<bar> - 52) (- 1074)"

lemma ilog2_bounds:
  assumes "0 < x"
  shows "2 powi ilog2 x \<le> x" and "x < 2 powi (ilog2 x + 1)"
proof -
  obtain p q where pq: "quotient_of x = (p, q)" by fastforce
  have q: "0 < q" using pq by (rule quotient_of_denom_pos)
  have x: "x = of_int p / of_int q" using pq by (rule quotient_of_div)
  have p: "0 < p" using assms q unfolding x by (simp add: zero_less_divide_iff)
  have lo: "2 powi (bitlen n - 1) \<le> (of_int n :: rat)" and hi: "(of_int n :: rat) < 2 powi bitlen n"
    if "0 < n" for n
  proof -
    have b: "0 < bitlen n" using that by (metis bitlen_eq_zero_iff bitlen_nonneg less_le not_le)
    have "2 ^ nat (bitlen n - 1) \<le> n" "n < 2 ^ nat (bitlen n)" using bitlen_bounds[OF that] by auto
    then have "(of_int (2 ^ nat (bitlen n - 1)) :: rat) \<le> of_int n" "(of_int n :: rat) < of_int (2 ^ nat (bitlen n))"
      by (simp_all only: of_int_le_iff of_int_less_iff)
    then show "2 powi (bitlen n - 1) \<le> (of_int n :: rat)" "(of_int n :: rat) < 2 powi bitlen n"
      using b by (simp_all add: power_int_def)
  qed
  let ?e = "bitlen p - bitlen q"
  have up: "x < 2 powi (?e + 1)"
  proof -
    have "x < 2 powi bitlen p / 2 powi (bitlen q - 1)"
      unfolding x using lo[OF q] hi[OF p] q p by (intro frac_less) auto
    also have "\<dots> = 2 powi (?e + 1)" by (simp flip: power_int_diff add: algebra_simps)
    finally show ?thesis .
  qed
  have down: "2 powi (?e - 1) \<le> x"
  proof -
    have "2 powi (?e - 1) = 2 powi (bitlen p - 1) / (2 powi bitlen q :: rat)"
      by (simp flip: power_int_diff add: algebra_simps)
    also have "\<dots> \<le> x" unfolding x using lo[OF p] hi[OF q] q p by (intro frac_le) auto
    finally show ?thesis .
  qed
  show "2 powi ilog2 x \<le> x" "x < 2 powi (ilog2 x + 1)"
    using up down by (auto simp: ilog2_def pq Let_def)
qed

lemma rne_mono: "x \<le> y \<Longrightarrow> rne x \<le> rne y"
proof -
  assume le: "x \<le> y"
  then have fl: "\<lfloor>x\<rfloor> \<le> \<lfloor>y\<rfloor>" by (rule floor_mono)
  consider "\<lfloor>x\<rfloor> = \<lfloor>y\<rfloor>" | "\<lfloor>x\<rfloor> + 1 \<le> \<lfloor>y\<rfloor>" using fl by linarith
  then show ?thesis
  proof cases
    case 1 then show ?thesis using le by (auto simp: rne_def Let_def)
  next
    case 2 then show ?thesis by (auto simp: rne_def Let_def)
  qed
qed

lemma rne_of_int [simp]: "rne (of_int n) = n"
  by (simp add: rne_def)

lemma rne_error: "\<bar>of_int (rne x) - x\<bar> \<le> 1 / 2"
proof -
  have "of_int \<lfloor>x\<rfloor> \<le> x" "x < of_int \<lfloor>x\<rfloor> + 1" by linarith+
  then show ?thesis by (auto simp: rne_def Let_def)
qed

lemma rne_minus: "rne (- x) = - rne x"
proof (cases "x = of_int \<lfloor>x\<rfloor>")
  case True
  then have "- x = of_int (- \<lfloor>x\<rfloor>)" by simp
  then show ?thesis using True by (metis rne_of_int)
next
  case False
  have "\<lfloor>- x\<rfloor> = - \<lfloor>x\<rfloor> - 1" using False by (simp add: floor_minus ceiling_altdef)
  then show ?thesis by (auto simp: rne_def Let_def)
qed

lemma le_rne_iff_int: "of_int n \<le> x \<Longrightarrow> n \<le> rne x"
  using rne_mono[of "of_int n" x] by simp
lemma rne_le_int: "x \<le> of_int n \<Longrightarrow> rne x \<le> n"
  using rne_mono[of x "of_int n"] by simp

lemma f64_round_alt: "x \<noteq> 0 \<Longrightarrow> f64_round x = of_int (rne (x / 2 powi f64_exp x)) * 2 powi f64_exp x"
  by (simp add: f64_round_def f64_exp_def Let_def)

lemma ilog2_less_iff: "0 < x \<Longrightarrow> ilog2 x < n \<longleftrightarrow> x < 2 powi n"
proof
  assume x: "0 < x"
  show "x < 2 powi n" if "ilog2 x < n"
  proof -
    have "(2::rat) powi (ilog2 x + 1) \<le> 2 powi n" using that by (intro power_int_increasing) auto
    with ilog2_bounds(2)[OF x] show ?thesis by linarith
  qed
  show "ilog2 x < n" if "x < 2 powi n"
  proof (rule ccontr)
    assume "\<not> ilog2 x < n"
    then have "(2::rat) powi n \<le> 2 powi ilog2 x" by (intro power_int_increasing) auto
    with ilog2_bounds(1)[OF x] that show False by linarith
  qed
qed

lemma ilog2_mono: "0 < x \<Longrightarrow> x \<le> y \<Longrightarrow> ilog2 x \<le> ilog2 y"
  using ilog2_less_iff[of y "ilog2 x"] ilog2_bounds(1)[of x] by fastforce

lemma powi_as_int: "0 \<le> n \<Longrightarrow> (2::rat) powi n = of_int (2 ^ nat n)"
  by (simp add: power_int_def)

lemma f64_exp_minus [simp]: "f64_exp (- x) = f64_exp x" by (simp add: f64_exp_def)

lemma f64_round_0 [simp]: "f64_round 0 = 0" by (simp add: f64_round_def)

lemma f64_round_minus: "f64_round (- x) = - f64_round x"
  by (cases "x = 0") (simp_all add: f64_round_alt rne_minus)

lemma f64_round_nonneg: "0 \<le> x \<Longrightarrow> 0 \<le> f64_round x"
  by (cases "x = 0") (auto simp: f64_round_alt intro!: mult_nonneg_nonneg le_rne_iff_int)

lemma f64_round_mono_pos:
  assumes x: "0 < x" and le: "x \<le> y"
  shows "f64_round x \<le> f64_round y"
proof (cases "f64_exp x = f64_exp y")
  case True
  then show ?thesis using assms
    by (auto simp: f64_round_alt intro!: mult_right_mono rne_mono divide_right_mono)
next
  case False
  have y: "0 < y" using assms by linarith
  have lmono: "ilog2 x \<le> ilog2 y" using ilog2_mono[OF x le] .
  have lt: "f64_exp x < f64_exp y" and ey: "f64_exp y = ilog2 y - 52" and l: "ilog2 x < ilog2 y"
    using False lmono x y by (auto simp: f64_exp_def)
  let ?b = "2 powi ilog2 y :: rat"
  have hi: "f64_round x \<le> ?b"
  proof -
    let ?n = "2 ^ nat (ilog2 y - f64_exp x) :: int"
    have n: "of_int ?n = ?b / 2 powi f64_exp x"
      using lt ey powi_as_int[of "ilog2 y - f64_exp x"] by (simp add: power_int_diff)
    have "x / 2 powi f64_exp x \<le> of_int ?n"
      using l x by (simp only: n ilog2_less_iff) (intro divide_right_mono; simp)
    then have "rne (x / 2 powi f64_exp x) \<le> ?n" by (rule rne_le_int)
    then have "of_int (rne (x / 2 powi f64_exp x)) \<le> (of_int ?n :: rat)" by (simp only: of_int_le_iff)
    then show ?thesis using x by (simp only: n f64_round_alt) (simp add: field_simps)
  qed
  have lo: "?b \<le> f64_round y"
  proof -
    let ?n = "2 ^ 52 :: int"
    have n: "of_int ?n = ?b / 2 powi f64_exp y"
      by (simp add: ey flip: power_int_diff)
    have "of_int ?n \<le> y / 2 powi f64_exp y"
      using ilog2_bounds(1)[OF y] by (simp only: n) (intro divide_right_mono; simp)
    then have "?n \<le> rne (y / 2 powi f64_exp y)" by (rule le_rne_iff_int)
    then have "(of_int ?n :: rat) \<le> of_int (rne (y / 2 powi f64_exp y))" by (simp only: of_int_le_iff)
    then show ?thesis using y by (simp only: n f64_round_alt) (simp add: field_simps)
  qed
  show ?thesis using hi lo by linarith
qed

lemma f64_round_mono: "x \<le> y \<Longrightarrow> f64_round x \<le> f64_round y"
proof (cases "0 < x")
  case True then show "x \<le> y \<Longrightarrow> ?thesis" by (rule f64_round_mono_pos)
next
  case False
  assume le: "x \<le> y"
  show ?thesis
  proof (cases "y < 0")
    case True
    then have "f64_round (- y) \<le> f64_round (- x)" using le by (intro f64_round_mono_pos) auto
    then show ?thesis by (simp add: f64_round_minus)
  next
    assume "\<not> y < 0"
    then have "0 \<le> f64_round y" "0 \<le> f64_round (- x)" using False by (auto intro!: f64_round_nonneg)
    then show ?thesis by (simp add: f64_round_minus)
  qed
qed

text \<open>Values \<open>m * 2 ^ e\<close> with \<open>\<bar>m\<bar> \<le> 2 ^ 53\<close> and \<open>e\<close> in range are binary64 values: rounding keeps them.\<close>

lemma f64_round_grid_aux:
  assumes m: "\<bar>m\<bar> < 2 ^ 53" and e: "- 1074 \<le> e"
  shows "f64_round (of_int m * 2 powi e) = of_int m * 2 powi e"
proof (cases "m = 0")
  case False
  let ?x = "of_int m * 2 powi e :: rat"
  have x: "?x \<noteq> 0" "0 < \<bar>?x\<bar>" using False by auto
  have "\<bar>?x\<bar> = of_int \<bar>m\<bar> * 2 powi e" by (simp add: abs_mult)
  also have "\<dots> < 2 ^ 53 * 2 powi e"
    using of_int_less_iff[of "\<bar>m\<bar>" "2 ^ 53", where ?'a = rat] m by (intro mult_strict_right_mono) auto
  also have "\<dots> = 2 powi (e + 53)" by (simp add: power_int_add)
  finally have "ilog2 \<bar>?x\<bar> < e + 53" using x by (simp add: ilog2_less_iff)
  then have le: "f64_exp ?x \<le> e" using e by (auto simp: f64_exp_def)
  have "?x / 2 powi f64_exp ?x = of_int (m * 2 ^ nat (e - f64_exp ?x))"
    using le powi_as_int[of "e - f64_exp ?x"] by (simp add: power_int_diff flip: times_divide_eq_right)
  then have "rne (?x / 2 powi f64_exp ?x) = m * 2 ^ nat (e - f64_exp ?x)" by (metis rne_of_int)
  then show ?thesis using le powi_as_int[of "e - f64_exp ?x"] x
    by (simp add: f64_round_alt power_int_diff divide_eq_eq)
qed simp

lemma f64_round_grid:
  assumes m: "\<bar>m\<bar> \<le> 2 ^ 53" and e: "- 1074 \<le> e"
  shows "f64_round (of_int m * 2 powi e) = of_int m * 2 powi e"
proof (cases "\<bar>m\<bar> < 2 ^ 53")
  case True then show ?thesis using e by (rule f64_round_grid_aux)
next
  case False
  then have m2: "m = 2 * (sgn m * 2 ^ 52)" using m by (auto simp: abs_if sgn_if split: if_splits)
  have "f64_round (of_int (sgn m * 2 ^ 52) * 2 powi (e + 1)) = of_int (sgn m * 2 ^ 52) * 2 powi (e + 1)"
    using e by (intro f64_round_grid_aux) (auto simp: abs_mult sgn_if)
  moreover have "of_int m * 2 powi e = (of_int (sgn m * 2 ^ 52) * 2 powi (e + 1) :: rat)"
    by (subst (1) m2) (simp add: power_int_add)
  ultimately show ?thesis by metis
qed

lemma f64_round_shape:
  obtains m e where "f64_round x = of_int m * 2 powi e" "\<bar>m\<bar> \<le> 2 ^ 53" "- 1074 \<le> e"
proof (cases "x = 0")
  case True then show ?thesis by (intro that[of 0 0]) auto
next
  case False
  let ?e = "f64_exp x"
  have "\<bar>x\<bar> < 2 powi (?e + 53)" using False by (subst ilog2_less_iff[symmetric]) (auto simp: f64_exp_def)
  then have b: "\<bar>x / 2 powi ?e\<bar> \<le> of_int (2 ^ 53)" by (simp add: field_simps power_int_add)
  then have "x / 2 powi ?e \<le> of_int (2 ^ 53)" "of_int (- (2 ^ 53)) \<le> x / 2 powi ?e"
    by (simp_all only: abs_le_iff of_int_minus) linarith
  then have "rne (x / 2 powi ?e) \<le> 2 ^ 53" "- (2 ^ 53) \<le> rne (x / 2 powi ?e)"
    by (auto intro!: rne_le_int le_rne_iff_int simp del: of_int_power of_int_minus)
  then have "\<bar>rne (x / 2 powi ?e)\<bar> \<le> 2 ^ 53" by linarith
  then show ?thesis using False by (intro that[of "rne (x / 2 powi ?e)" ?e]) (auto simp: f64_round_alt f64_exp_def)
qed

lemma f64_round_idem: "f64_round (f64_round x) = f64_round x"
  using f64_round_shape[of x] f64_round_grid by metis

lemma f64_round_rel_error:
  assumes "2 powi (- 1022) \<le> \<bar>x\<bar>"
  shows "\<bar>f64_round x - x\<bar> \<le> \<bar>x\<bar> / 2 ^ 53"
proof -
  have x: "x \<noteq> 0" "0 < \<bar>x\<bar>" using assms by auto
  have "\<not> ilog2 \<bar>x\<bar> < - 1022" using assms x by (simp add: ilog2_less_iff)
  then have e: "f64_exp x = ilog2 \<bar>x\<bar> - 52" by (simp add: f64_exp_def)
  have "\<bar>f64_round x - x\<bar> = \<bar>of_int (rne (x / 2 powi f64_exp x)) - x / 2 powi f64_exp x\<bar> * 2 powi f64_exp x"
    using x by (simp add: f64_round_alt field_simps flip: abs_mult_pos)
  also have "\<dots> \<le> 1 / 2 * 2 powi f64_exp x" by (intro mult_right_mono rne_error) auto
  also have "\<dots> = 2 powi ilog2 \<bar>x\<bar> / 2 ^ 53" by (simp add: e power_int_diff)
  also have "\<dots> \<le> \<bar>x\<bar> / 2 ^ 53" using ilog2_bounds(1)[OF x(2)] by (intro divide_right_mono) auto
  finally show ?thesis .
qed

section \<open>Evaluation by integer arithmetic\<close>

definition ilog2_frac :: "int \<Rightarrow> int \<Rightarrow> int" where
  "ilog2_frac p q =
     (let e = bitlen p - bitlen q
      in if (if 0 \<le> e then push_bit (nat e) q \<le> p else q \<le> push_bit (nat (- e)) p) then e else e - 1)"

definition rne_frac :: "int \<Rightarrow> int \<Rightarrow> int" where
  "rne_frac n m =
     (let f = n div m; d = 2 * (n mod m)
      in if d < m then f else if m < d then f + 1 else if even f then f else f + 1)"

lemma powi_le_frac: "0 < q \<Longrightarrow> (2 powi e \<le> (of_int p / of_int q :: rat))
   \<longleftrightarrow> (if 0 \<le> e then push_bit (nat e) q \<le> p else q \<le> push_bit (nat (- e)) p)"
proof (cases "0 \<le> e")
  case True
  assume q: "0 < q"
  have "(2 powi e \<le> (of_int p / of_int q :: rat)) \<longleftrightarrow> (of_int (2 ^ nat e * q) :: rat) \<le> of_int p"
    using q True by (simp add: power_int_def le_divide_eq)
  then show ?thesis using True unfolding of_int_le_iff by (simp add: push_bit_eq_mult mult.commute)
next
  case False
  assume q: "0 < q"
  have "(2 powi e \<le> (of_int p / of_int q :: rat)) \<longleftrightarrow> (of_int q :: rat) \<le> of_int (p * 2 ^ nat (- e))"
    using q False by (simp add: power_int_def divide_simps mult.commute)
  then show ?thesis using False unfolding of_int_le_iff by (simp add: push_bit_eq_mult)
qed

lemma ilog2_frac: "0 < x \<Longrightarrow> quotient_of x = (p, q) \<Longrightarrow> ilog2 x = ilog2_frac p q"
  using quotient_of_div [of x p q] quotient_of_denom_pos [of x p q] powi_le_frac [of q "bitlen p - bitlen q" p]
  by (simp add: ilog2_def ilog2_frac_def Let_def)

lemma rne_frac: "0 < m \<Longrightarrow> rne (of_int n / of_int m) = rne_frac n m"
proof -
  assume m: "0 < m"
  have f: "\<lfloor>of_int n / of_int m :: rat\<rfloor> = n div m" by (rule floor_divide_of_int_eq)
  have "(of_int n / of_int m :: rat) - of_int (n div m) = of_int (n mod m) / of_int m"
    using m by (simp add: field_simps flip: of_int_mult of_int_add of_int_diff)
  then show ?thesis using m
    unfolding rne_def rne_frac_def Let_def f
    by (simp add: divide_less_eq less_divide_eq flip: of_int_mult of_int_less_iff)
qed
lemma f64_round_code [code]:
  "f64_round x =
     (if x = 0 then 0
      else let (p, q) = quotient_of x; e = max (ilog2_frac \<bar>p\<bar> q - 52) (- 1074)
           in if e \<le> 0 then Fract (rne_frac (push_bit (nat (- e)) p) q) (push_bit (nat (- e)) 1)
              else of_int (push_bit (nat e) (rne_frac p (push_bit (nat e) q))))"
proof (cases "x = 0")
  case False
  obtain p q where pq: "quotient_of x = (p, q)" by force
  have x: "x = of_int p / of_int q" and q: "0 < q" using pq quotient_of_div quotient_of_denom_pos by blast+
  have "quotient_of \<bar>x\<bar> = (\<bar>p\<bar>, q)" by (simp add: rat_abs_code pq)
  then have e: "f64_exp x = max (ilog2_frac \<bar>p\<bar> q - 52) (- 1074)"
    using False by (simp add: f64_exp_def ilog2_frac [of "\<bar>x\<bar>"])
  define e where "e = f64_exp x"
  show ?thesis
  proof (cases "e \<le> 0")
    case True
    let ?k = "nat (- e)"
    have pw: "(2::rat) powi e = 1 / of_int (push_bit ?k 1)"
      using True by (simp add: power_int_def push_bit_eq_mult divide_simps)
    have "x / 2 powi e = of_int (push_bit ?k p) / of_int q" by (simp add: x pw push_bit_eq_mult)
    then have "f64_round x = of_int (rne_frac (push_bit ?k p) q) * 2 powi e"
      using False rne_frac [OF q] by (simp add: f64_round_alt e_def [symmetric])
    also have "\<dots> = Fract (rne_frac (push_bit ?k p) q) (push_bit ?k 1)"
      by (simp add: pw Fract_of_int_quotient)
    finally show ?thesis using True False unfolding pq prod.case Let_def e [symmetric] e_def [symmetric] by (simp only: if_True if_False)
  next
    case pos: False
    let ?k = "nat e"
    have pw: "(2::rat) powi e = of_int (2 ^ ?k)" using pos by (simp add: power_int_def)
    have qk: "0 < push_bit ?k q" using q by (simp add: push_bit_eq_mult)
    have "x / 2 powi e = of_int p / of_int (push_bit ?k q)" by (simp add: x pw push_bit_eq_mult)
    then have "f64_round x = of_int (rne_frac p (push_bit ?k q)) * 2 powi e"
      using False rne_frac [OF qk] by (simp add: f64_round_alt e_def [symmetric])
    also have "\<dots> = of_int (push_bit ?k (rne_frac p (push_bit ?k q)))"
      by (simp add: pw push_bit_eq_mult)
    finally show ?thesis using pos False unfolding pq prod.case Let_def e [symmetric] e_def [symmetric] by (simp only: if_True if_False)
  qed
qed simp

section \<open>Operations of f64\<close>

definition f64_add :: "f64 \<Rightarrow> f64 \<Rightarrow> f64" where "f64_add a b = f64_round (a + b)"
definition f64_sub :: "f64 \<Rightarrow> f64 \<Rightarrow> f64" where "f64_sub a b = f64_round (a - b)"
definition f64_mul :: "f64 \<Rightarrow> f64 \<Rightarrow> f64" where "f64_mul a b = f64_round (a * b)"
definition f64_div :: "f64 \<Rightarrow> f64 \<Rightarrow> f64" where "f64_div a b = f64_round (a / b)"

text \<open>
  A decimal literal is its value rounded, \<open>as f64\<close> rounds an integer, \<open>as u64\<close> truncates
  and saturates, \<open>f64::round\<close> takes halves away from zero, and
  \<open>Duration::as_secs_f64\<close> is the seconds plus the nanoseconds over \<open>1e9\<close>.
\<close>

definition f64_lit :: "rat \<Rightarrow> f64" where "f64_lit x = f64_round x"

definition f64_of_u64 :: "u64 \<Rightarrow> f64" where "f64_of_u64 w = f64_round (of_nat (unat w))"

definition u64_of_f64 :: "f64 \<Rightarrow> u64" where
  "u64_of_f64 x = (if x < 0 then 0 else if 2 ^ 64 \<le> x then - 1 else of_int \<lfloor>x\<rfloor>)"

definition round_f64 :: "f64 \<Rightarrow> f64" where
  "round_f64 x = f64_round (if 0 \<le> x then of_int \<lfloor>x + 1 / 2\<rfloor> else - of_int \<lfloor>- x + 1 / 2\<rfloor>)"

definition floor_f64 :: "f64 \<Rightarrow> f64" where "floor_f64 x = f64_round (of_int \<lfloor>x\<rfloor>)"

definition as_secs_f64 :: "duration \<Rightarrow> f64" where
  "as_secs_f64 d =
     f64_add (f64_round (of_nat (d div 1000000000)))
             (f64_div (f64_round (of_nat (d mod 1000000000))) 1000000000)"

text \<open>The values of the type: what rounding leaves alone.\<close>

definition is_f64 :: "rat \<Rightarrow> bool" where "is_f64 x \<longleftrightarrow> f64_round x = x"

section \<open>The contract of rounding\<close>

locale rounding =
  fixes rnd :: "rat \<Rightarrow> rat"
  assumes rnd_mono: "x \<le> y \<Longrightarrow> rnd x \<le> rnd y"
    and rnd_idem: "rnd (rnd x) = rnd x"
    and rnd_int: "\<bar>m\<bar> \<le> 2 ^ 53 \<Longrightarrow> rnd (of_int m) = of_int m"
    and rnd_error: "1 / 2 ^ 64 \<le> \<bar>x\<bar> \<Longrightarrow> \<bar>rnd x - x\<bar> \<le> \<bar>x\<bar> / 2 ^ 53"
begin

lemma rnd_0: "rnd 0 = 0" using rnd_int [of 0] by simp

lemma rnd_1: "rnd 1 = 1" using rnd_int [of 1] by simp

lemma rnd_of_nat: "n \<le> 2 ^ 53 \<Longrightarrow> rnd (of_nat n) = of_nat n"
  using rnd_int [of "int n"] by simp

lemma rnd_numeral: "(numeral n :: int) \<le> 2 ^ 53 \<Longrightarrow> rnd (numeral n) = numeral n"
  using rnd_int [of "numeral n"] by simp

lemma rnd_le_rep: "rnd y = y \<Longrightarrow> x \<le> y \<Longrightarrow> rnd x \<le> y"
  using rnd_mono [of x y] by simp

lemma rep_le_rnd: "rnd x = x \<Longrightarrow> x \<le> y \<Longrightarrow> x \<le> rnd y"
  using rnd_mono [of x y] by simp

lemma rnd_nonneg: "0 \<le> x \<Longrightarrow> 0 \<le> rnd x"
  using rnd_mono [of 0 x] by (simp add: rnd_0)

lemma rnd_ge_1: "1 \<le> x \<Longrightarrow> 1 \<le> rnd x"
  using rnd_mono [of 1 x] by (simp add: rnd_1)

lemma rnd_le_1: "x \<le> 1 \<Longrightarrow> rnd x \<le> 1"
  using rnd_mono [of x 1] by (simp add: rnd_1)

lemma rnd_near: "1 / 2 ^ 64 \<le> x \<Longrightarrow> \<bar>rnd x - x\<bar> \<le> x / 2 ^ 53"
proof -
  assume x: "1 / 2 ^ 64 \<le> x"
  have "0 \<le> x" by (rule order_trans [OF _ x]) simp
  with rnd_error [of x] x show ?thesis by (simp only: abs_of_nonneg)
qed

lemma rnd_near_half: "1 / 2 \<le> x \<Longrightarrow> \<bar>rnd x - x\<bar> \<le> x / 2 ^ 53"
  by (rule rnd_near, rule order_trans [of _ "1 / 2"]) simp_all

lemma rnd_lower: "1 / 2 \<le> x \<Longrightarrow> x - x / 2 ^ 53 \<le> rnd x"
  using rnd_near_half [of x] by linarith

lemma rnd_upper: "1 / 2 \<le> x \<Longrightarrow> rnd x \<le> x + x / 2 ^ 53"
  using rnd_near_half [of x] by linarith

end

lemma pow_64_normal: "(2::rat) powi (- 1022) \<le> 1 / 2 ^ 64"
  using power_int_increasing [of "- 1022" "- 64" "2::rat"] by (simp add: power_int_minus field_simps)

interpretation b64: rounding f64_round
proof unfold_locales
  fix x y :: rat and m :: int
  show "x \<le> y \<Longrightarrow> f64_round x \<le> f64_round y" by (rule f64_round_mono)
  show "f64_round (f64_round x) = f64_round x" by (rule f64_round_idem)
  show "\<bar>m\<bar> \<le> 2 ^ 53 \<Longrightarrow> f64_round (of_int m) = of_int m"
    using f64_round_grid [of m 0] by simp
  show "1 / 2 ^ 64 \<le> \<bar>x\<bar> \<Longrightarrow> \<bar>f64_round x - x\<bar> \<le> \<bar>x\<bar> / 2 ^ 53"
    using pow_64_normal by (intro f64_round_rel_error) (rule order_trans)
qed

section \<open>Facts about the operations\<close>

lemma is_f64_round [simp, intro]: "is_f64 (f64_round x)"
  by (simp add: is_f64_def b64.rnd_idem)

lemma is_f64_ops [simp, intro]:
  "is_f64 (f64_add a b)" "is_f64 (f64_sub a b)" "is_f64 (f64_mul a b)" "is_f64 (f64_div a b)"
  "is_f64 (f64_lit a)" "is_f64 (f64_of_u64 w)" "is_f64 (as_secs_f64 d)"
  by (simp_all add: f64_add_def f64_sub_def f64_mul_def f64_div_def f64_lit_def f64_of_u64_def
      as_secs_f64_def)

lemma is_f64_int: "\<bar>m\<bar> \<le> 2 ^ 53 \<Longrightarrow> is_f64 (of_int m)"
  by (simp add: is_f64_def b64.rnd_int)

lemma is_f64_nat: "n \<le> 2 ^ 53 \<Longrightarrow> is_f64 (of_nat n)"
  by (simp add: is_f64_def b64.rnd_of_nat)

lemma is_f64_0 [simp, intro]: "is_f64 0" and is_f64_1 [simp, intro]: "is_f64 1"
  by (simp_all add: is_f64_def b64.rnd_0 b64.rnd_1)

lemma is_f64_numeral [simp, intro]: "(numeral n :: int) \<le> 2 ^ 53 \<Longrightarrow> is_f64 (numeral n)"
  by (simp add: is_f64_def b64.rnd_numeral)

lemma is_f64_max [intro]: "is_f64 a \<Longrightarrow> is_f64 b \<Longrightarrow> is_f64 (max a b)"
  and is_f64_min [intro]: "is_f64 a \<Longrightarrow> is_f64 b \<Longrightarrow> is_f64 (min a b)"
  by (simp_all add: max_def min_def)

lemma f64_round_le [f64_intros]: "is_f64 y \<Longrightarrow> x \<le> y \<Longrightarrow> f64_round x \<le> y"
  by (simp add: is_f64_def b64.rnd_le_rep)

lemma f64_le_round [f64_intros]: "is_f64 x \<Longrightarrow> x \<le> y \<Longrightarrow> x \<le> f64_round y"
  by (simp add: is_f64_def b64.rep_le_rnd)

text \<open>A binary64 value with few significant bits, e.g. \<open>5 / 4\<close>.\<close>

lemma is_f64_dyadic: "\<bar>m\<bar> \<le> 2 ^ 53 \<Longrightarrow> k \<le> 1074 \<Longrightarrow> is_f64 (of_int m / 2 ^ k)"
  using f64_round_grid [of m "- int k"] by (simp add: is_f64_def power_int_minus field_simps)

lemma f64_of_u64_nonneg [simp]: "0 \<le> f64_of_u64 w"
  by (simp add: f64_of_u64_def b64.rnd_nonneg)

lemma f64_of_u64_mono: "a \<le> b \<Longrightarrow> f64_of_u64 a \<le> f64_of_u64 b"
  by (simp add: f64_of_u64_def word_le_nat_alt b64.rnd_mono)

lemma f64_of_u64_ge_1: "w \<noteq> 0 \<Longrightarrow> 1 \<le> f64_of_u64 w"
  by (simp add: f64_of_u64_def word_eq_0_iff_unat b64.rnd_ge_1)

lemma f64_of_u64_exact: "unat w \<le> 2 ^ 53 \<Longrightarrow> f64_of_u64 w = of_nat (unat w)"
  by (simp add: f64_of_u64_def b64.rnd_of_nat)

lemma f64_of_u64_0 [simp]: "f64_of_u64 0 = 0"
  by (simp add: f64_of_u64_def b64.rnd_0)

lemma f64_div_nonneg: "0 \<le> a \<Longrightarrow> 0 \<le> b \<Longrightarrow> 0 \<le> f64_div a b"
  by (simp add: f64_div_def b64.rnd_nonneg)

lemma f64_mul_nonneg: "0 \<le> a \<Longrightarrow> 0 \<le> b \<Longrightarrow> 0 \<le> f64_mul a b"
  by (simp add: f64_mul_def b64.rnd_nonneg)

lemma f64_add_nonneg: "0 \<le> a \<Longrightarrow> 0 \<le> b \<Longrightarrow> 0 \<le> f64_add a b"
  by (simp add: f64_add_def b64.rnd_nonneg)

text \<open>A ratio of a part to its whole is a share between zero and one.\<close>

lemma f64_ratio_le_1: "0 \<le> a \<Longrightarrow> a \<le> b \<Longrightarrow> f64_div a b \<le> 1"
  unfolding f64_div_def by (rule b64.rnd_le_1) (auto simp: divide_le_eq_1)

lemma as_secs_f64_nonneg [simp]: "0 \<le> as_secs_f64 d"
  by (simp add: as_secs_f64_def f64_add_nonneg f64_div_nonneg b64.rnd_nonneg)

text \<open>\<open>x - x.floor()\<close> is exact for a value that is not negative: the fraction has no more bits.\<close>

lemma is_f64_frac:
  assumes "is_f64 x" and "0 \<le> x"
  shows "is_f64 (x - of_int \<lfloor>x\<rfloor>)"
proof -
  obtain m e where x: "x = of_int m * 2 powi e" and m: "\<bar>m\<bar> \<le> 2 ^ 53" and e: "- 1074 \<le> e"
    using assms(1) f64_round_shape [of x] by (metis is_f64_def)
  have "\<not> (2::rat) powi e \<le> 0" by (simp add: not_le)
  then have m0: "0 \<le> m" using assms(2) by (auto simp: x zero_le_mult_iff)
  show ?thesis
  proof (cases "0 \<le> e")
    case True
    then have "x = of_int (m * 2 ^ nat e)" by (simp add: x powi_as_int)
    then show ?thesis by (metis cancel_comm_monoid_add_class.diff_cancel floor_of_int is_f64_0)
  next
    case False
    define k where "k = nat (- e)"
    have pow: "(2::rat) powi e = 1 / 2 ^ k" using False by (simp add: k_def power_int_def power_divide)
    have "x = of_int m / of_int (2 ^ k)" by (simp add: x pow)
    then have fl: "\<lfloor>x\<rfloor> = m div 2 ^ k" by (simp only: floor_divide_of_int_eq)
    have "x - of_int \<lfloor>x\<rfloor> = of_int m / 2 ^ k - of_int (m div 2 ^ k)"
      unfolding fl by (simp add: x pow)
    also have "\<dots> = of_int (m mod 2 ^ k) / 2 ^ k"
      by (simp add: minus_div_mult_eq_mod [symmetric] field_simps)
    finally have "x - of_int \<lfloor>x\<rfloor> = of_int (m mod 2 ^ k) / 2 ^ k" .
    moreover have "\<bar>m mod 2 ^ k\<bar> \<le> 2 ^ 53"
      using m m0 by (simp add: zmod_le_nonneg_dividend order_trans [of _ m])
    ultimately show ?thesis using is_f64_dyadic [of "m mod 2 ^ k" k] e False by (simp add: k_def)
  qed
qed

end
