(* ===== verification/Judge.thy ===== *)
theory Judge
  imports F64
begin

text \<open>
  The first part of \<open>src/controller.rs\<close>: the constants of the adaptive controller and
  \<open>LossJudge\<close>, which decides whether a window's loss is the rate's fault. The judge is a
  function from a window and its state to a verdict and the next state; an episode is the run
  of windows between two \<open>end_episode\<close> calls.
\<close>

section \<open>Constants\<close>

definition RETREAT :: f64 where "RETREAT = f64_lit (85 / 100)"
definition GROWTH :: f64 where "GROWTH = f64_lit (125 / 100)"
definition LOSS_THRESHOLD :: f64 where "LOSS_THRESHOLD = f64_lit (2 / 100)"
definition MIN_SAMPLES :: u64 where "MIN_SAMPLES = 100"
definition MAX_WINDOW_TIMEOUTS :: f64 where "MAX_WINDOW_TIMEOUTS = 5"
definition MIN_AGGREGATE_SAMPLES :: u64 where "MIN_AGGREGATE_SAMPLES = 100"
definition TICK :: duration where "TICK = 500000000"
definition EDGE_TTL :: duration where "EDGE_TTL = 30000000000"
definition MIN_RATE_QPS :: f64 where "MIN_RATE_QPS = 1"
definition RETREAT_MUST_IMPROVE :: f64 where "RETREAT_MUST_IMPROVE = f64_lit (99 / 100)"
definition RETREAT_MUST_DELIVER :: f64 where "RETREAT_MUST_DELIVER = f64_lit (95 / 100)"
definition MAX_BASELINE_LOSS :: f64 where "MAX_BASELINE_LOSS = f64_lit (1 / 2)"
definition STALL_TICKS :: u8 where "STALL_TICKS = 2"

section \<open>The judge\<close>

datatype Verdict = Congested bool | Clear | Baseline

record LossJudge =
  lj_best :: "f64 option"
  lj_best_delivered :: "f64 option"
  lj_stalled :: u8
  lj_baseline :: "f64 option"

definition LossJudge_default :: LossJudge where
  "LossJudge_default = \<lparr>lj_best = None, lj_best_delivered = None, lj_stalled = 0, lj_baseline = None\<rparr>"

definition end_episode :: "LossJudge \<Rightarrow> LossJudge" where
  "end_episode j = j\<lparr>lj_best := None, lj_best_delivered := None, lj_stalled := 0\<rparr>"

definition follow_baseline :: "f64 \<Rightarrow> LossJudge \<Rightarrow> LossJudge" where
  "follow_baseline loss j =
     (case lj_baseline j of Some b \<Rightarrow> j\<lparr>lj_baseline := Some (min b loss)\<rparr> | None \<Rightarrow> j)"

text \<open>The loss above which a window counts: \<open>baseline.unwrap_or(0.0) + LOSS_THRESHOLD\<close>.\<close>

definition congestion_bar :: "LossJudge \<Rightarrow> f64" where
  "congestion_bar j = f64_add (case lj_baseline j of Some b \<Rightarrow> b | None \<Rightarrow> 0) LOSS_THRESHOLD"

definition judge :: "LossJudge \<Rightarrow> f64 \<Rightarrow> f64 \<Rightarrow> Verdict \<times> LossJudge" where
  "judge j0 loss delivered =
     (let j = follow_baseline loss j0
      in if loss \<le> congestion_bar j
         then (Clear, end_episode j)
         else
           let improving = (case lj_best j of Some best \<Rightarrow> loss < f64_mul best RETREAT_MUST_IMPROVE | None \<Rightarrow> True);
               paying = (case lj_best_delivered j of
                           Some best \<Rightarrow> f64_mul best RETREAT_MUST_DELIVER \<le> delivered | None \<Rightarrow> True);
               converging = (lj_best j \<noteq> None \<and> improving \<and> paying);
               j1 = (if improving \<and> paying then j\<lparr>lj_stalled := 0\<rparr>
                     else j\<lparr>lj_stalled := saturating_add (lj_stalled j) 1\<rparr>)
           in if \<not> (improving \<and> paying) \<and> (\<not> paying \<or> STALL_TICKS \<le> lj_stalled j1)
              then (Baseline, end_episode (j1\<lparr>lj_baseline := Some loss\<rparr>))
              else (Congested converging,
                    j1\<lparr>lj_best := Some (case lj_best j1 of Some best \<Rightarrow> min best loss | None \<Rightarrow> loss),
                       lj_best_delivered := Some (case lj_best_delivered j1 of
                         Some best \<Rightarrow> max best delivered | None \<Rightarrow> delivered)\<rparr>))"

text \<open>The verdicts on a sequence of windows, each a pair of loss and answered rate.\<close>

fun judge_run :: "LossJudge \<Rightarrow> (f64 \<times> f64) list \<Rightarrow> Verdict list \<times> LossJudge" where
  "judge_run j [] = ([], j)"
| "judge_run j (w # ws) =
     (case judge j (fst w) (snd w) of (v, j') \<Rightarrow>
        (case judge_run j' ws of (vs, j'') \<Rightarrow> (v # vs, j'')))"

section \<open>Bounds on the constants\<close>

lemma judge_constants [f64_intros]:
  "199 / 10000 \<le> LOSS_THRESHOLD" "LOSS_THRESHOLD \<le> 201 / 10000"
  "98 / 100 \<le> RETREAT_MUST_IMPROVE" "RETREAT_MUST_IMPROVE \<le> 9901 / 10000"
  "0 \<le> RETREAT_MUST_DELIVER" "RETREAT_MUST_DELIVER \<le> 96 / 100"
  "849 / 1000 \<le> RETREAT" "RETREAT \<le> 851 / 1000" "GROWTH = 5 / 4" "MAX_BASELINE_LOSS = 1 / 2"
  by code_simp+

lemma is_f64_judge_constants [simp, intro]:
  "is_f64 LOSS_THRESHOLD" "is_f64 RETREAT_MUST_IMPROVE" "is_f64 RETREAT_MUST_DELIVER"
  "is_f64 RETREAT" "is_f64 GROWTH"
  by (simp_all add: LOSS_THRESHOLD_def RETREAT_MUST_IMPROVE_def RETREAT_MUST_DELIVER_def RETREAT_def GROWTH_def)

lemma f64_mul_le_left: "is_f64 x \<Longrightarrow> 0 \<le> x \<Longrightarrow> c \<le> 1 \<Longrightarrow> f64_mul x c \<le> x"
  unfolding f64_mul_def by (rule f64_round_le) (auto intro: mult_left_le)

lemma must_improve_shrinks:
  assumes "199 / 10000 \<le> x"
  shows "f64_mul x RETREAT_MUST_IMPROVE \<le> x * (991 / 1000)"
proof -
  let ?p = "x * RETREAT_MUST_IMPROVE"
  have x0: "0 \<le> x" using assms by linarith
  have "199 / 10000 * (98 / 100) \<le> ?p" using assms judge_constants(3) by (intro mult_mono) auto
  then have "1 / 2 ^ 64 \<le> ?p" by (rule order_trans [rotated]) simp
  then have "\<bar>f64_round ?p - ?p\<bar> \<le> ?p / 2 ^ 53" by (rule b64.rnd_near)
  then have "f64_round ?p \<le> ?p + ?p / 2 ^ 53" by linarith
  then have "f64_round ?p \<le> ?p * (1 + 1 / 2 ^ 53)" by (simp add: algebra_simps)
  also have "\<dots> \<le> (x * (9901 / 10000)) * (1 + 1 / 2 ^ 53)"
    using x0 judge_constants(4) by (intro mult_right_mono mult_left_mono) auto
  also have "\<dots> = x * (9901 / 10000 * (1 + 1 / 2 ^ 53))" by simp
  also have "\<dots> \<le> x * (991 / 1000)" using x0 by (intro mult_left_mono) auto
  finally show ?thesis by (simp add: f64_mul_def)
qed

section \<open>The invariant\<close>

definition judge_ok :: "LossJudge \<Rightarrow> bool" where
  "judge_ok j \<longleftrightarrow> (lj_best j = None \<longleftrightarrow> lj_best_delivered j = None)
     \<and> lj_stalled j < STALL_TICKS \<and> (lj_best j = None \<longrightarrow> lj_stalled j = 0)
     \<and> (\<forall>b. lj_baseline j = Some b \<longrightarrow> 0 \<le> b)
     \<and> (\<forall>b. lj_best j = Some b \<longrightarrow> LOSS_THRESHOLD < b)"

lemma judge_ok_default: "judge_ok LossJudge_default"
  by (simp add: judge_ok_def LossJudge_default_def STALL_TICKS_def)

lemma judge_ok_end_episode: "judge_ok j \<Longrightarrow> judge_ok (end_episode j)"
  by (simp add: judge_ok_def end_episode_def STALL_TICKS_def)

lemma follow_baseline_simps [simp]:
  "lj_best (follow_baseline l j) = lj_best j" "lj_best_delivered (follow_baseline l j) = lj_best_delivered j"
  "lj_stalled (follow_baseline l j) = lj_stalled j"
  "lj_baseline (follow_baseline l j) = map_option (\<lambda>b. min b l) (lj_baseline j)"
  by (simp_all add: follow_baseline_def split: option.splits)

lemma judge_ok_follow: "judge_ok j \<Longrightarrow> 0 \<le> l \<Longrightarrow> judge_ok (follow_baseline l j)"
  by (auto simp: judge_ok_def)

text \<open>Loss that is not clear exceeds the bare threshold.\<close>

lemma congestion_bar_ge: "judge_ok j \<Longrightarrow> LOSS_THRESHOLD \<le> congestion_bar j"
  unfolding congestion_bar_def f64_add_def by (intro f64_le_round) (auto simp: judge_ok_def split: option.splits)

lemma not_clear_above: "\<not> loss \<le> congestion_bar j \<Longrightarrow> judge_ok j \<Longrightarrow> LOSS_THRESHOLD < loss"
  using congestion_bar_ge [of j] by linarith

lemma judge_no_loss: "judge_ok j \<Longrightarrow> fst (judge j 0 d) = Clear"
  using congestion_bar_ge [OF judge_ok_follow [of j 0]] judge_constants(1) by (simp add: judge_def Let_def)

lemma stalled_cases: "(s :: u8) < STALL_TICKS \<Longrightarrow> s = 0 \<or> s = 1"
proof -
  assume "s < STALL_TICKS"
  then have "unat s < 2" by (simp add: STALL_TICKS_def word_less_nat_alt)
  then have "unat s = unat (0 :: u8) \<or> unat s = unat (1 :: u8)" by auto
  then show ?thesis unfolding word_unat_eq_iff .
qed

text \<open>The four ways a window can be judged.\<close>

lemma judge_cases:
  assumes ok: "judge_ok j" and l: "0 \<le> loss" and jd: "judge j loss d = (v, j')"
  obtains
    (clear) "v = Clear" "j' = end_episode (follow_baseline loss j)"
      "loss \<le> congestion_bar (follow_baseline loss j)"
  | (first) "v = Congested False" "lj_best j = None" "LOSS_THRESHOLD < loss"
      "lj_best j' = Some loss" "lj_best_delivered j' = Some d" "lj_stalled j' = 0"
      "lj_baseline j' = lj_baseline (follow_baseline loss j)"
  | (converging) b g where "v = Congested True" "lj_best j = Some b" "lj_best_delivered j = Some g"
      "LOSS_THRESHOLD < loss" "loss < f64_mul b RETREAT_MUST_IMPROVE" "f64_mul g RETREAT_MUST_DELIVER \<le> d"
      "lj_best j' = Some (min b loss)" "lj_best_delivered j' = Some (max g d)" "lj_stalled j' = 0"
      "lj_baseline j' = lj_baseline (follow_baseline loss j)"
  | (flat) b g where "v = Congested False" "lj_best j = Some b" "lj_best_delivered j = Some g"
      "LOSS_THRESHOLD < loss" "f64_mul g RETREAT_MUST_DELIVER \<le> d"
      "lj_best j' = Some (min b loss)" "lj_best_delivered j' = Some (max g d)" "lj_stalled j = 0" "lj_stalled j' = 1"
      "lj_baseline j' = lj_baseline (follow_baseline loss j)"
  | (stalled) b g where "v = Baseline" "lj_best j = Some b" "lj_best_delivered j = Some g"
      "LOSS_THRESHOLD < loss" "lj_best j' = None" "lj_best_delivered j' = None" "lj_stalled j' = 0"
      "lj_baseline j' = Some loss"
      "\<not> f64_mul g RETREAT_MUST_DELIVER \<le> d \<or> lj_stalled j = 1"
proof (cases "loss \<le> congestion_bar (follow_baseline loss j)")
  case True
  then have "v = Clear" "j' = end_episode (follow_baseline loss j)"
    using jd by (auto simp: judge_def Let_def)
  then show thesis using True clear by blast
next
  case False
  then have above: "LOSS_THRESHOLD < loss" using judge_ok_follow [OF ok l] by (rule not_clear_above)
  show thesis
  proof (cases "lj_best j")
    case None
    then have "lj_best_delivered j = None" using ok by (simp add: judge_ok_def)
    then show thesis using jd False above None first by (auto simp: judge_def Let_def)
  next
    case (Some b)
    then obtain g where g: "lj_best_delivered j = Some g" using ok by (auto simp: judge_ok_def)
    have st: "lj_stalled j = 0 \<or> lj_stalled j = 1" using ok stalled_cases by (simp add: judge_ok_def)
    have sat: "saturating_add (0 :: u8) 1 = 1" "saturating_add (1 :: u8) 1 = 2" "\<not> (2 :: u8) \<le> 1" by code_simp+
    consider "loss < f64_mul b RETREAT_MUST_IMPROVE" "f64_mul g RETREAT_MUST_DELIVER \<le> d"
      | "\<not> loss < f64_mul b RETREAT_MUST_IMPROVE" "f64_mul g RETREAT_MUST_DELIVER \<le> d" "lj_stalled j = 0"
      | "\<not> f64_mul g RETREAT_MUST_DELIVER \<le> d \<or> \<not> loss < f64_mul b RETREAT_MUST_IMPROVE \<and> lj_stalled j = 1"
      using st by blast
    then show thesis
    proof cases
      case 1
      then show thesis using jd False above Some g by (intro converging [of b g]) (auto simp: judge_def Let_def)
    next
      case 2
      then show thesis using jd False above Some g
        by (intro flat [of b g]) (auto simp: judge_def Let_def sat STALL_TICKS_def)
    next
      case 3
      then show thesis using jd False above Some g st
        by (intro stalled [of b g]) (auto simp: judge_def Let_def sat STALL_TICKS_def end_episode_def)
    qed
  qed
qed

lemma judge_ok_judge:
  assumes "judge_ok j" "0 \<le> loss" "judge j loss d = (v, j')"
  shows "judge_ok j'"
proof -
  have f: "judge_ok (follow_baseline loss j)" using assms(1,2) by (rule judge_ok_follow)
  from assms show ?thesis
  proof (cases rule: judge_cases)
    case clear
    then show ?thesis using f by (simp add: judge_ok_end_episode)
  qed (use assms(1,2) f in \<open>auto simp: judge_ok_def STALL_TICKS_def\<close>)
qed

section \<open>Episodes end\<close>

text \<open>
  What a run of congested windows has achieved: after \<open>n\<close> of them the best loss has been
  improved at least \<open>m\<close> times, where at most every other window may fail to improve it.
\<close>

definition episode_progress :: "nat \<Rightarrow> LossJudge \<Rightarrow> bool" where
  "episode_progress n j \<longleftrightarrow>
     (case lj_best j of None \<Rightarrow> n = 0
      | Some b \<Rightarrow> \<exists>m. b \<le> (991 / 1000) ^ m \<and> n \<le> 2 * m + 1 + unat (lj_stalled j))"

lemma episode_progress_step:
  assumes ok: "judge_ok j" "0 \<le> loss" "loss \<le> 1" and jd: "judge j loss d = (Congested c, j')"
    and pr: "episode_progress n j"
  shows "episode_progress (Suc n) j'"
  using ok(1,2) jd
proof (cases rule: judge_cases)
  case first
  then have "n = 0" using pr by (simp add: episode_progress_def)
  then show ?thesis using first ok(3) by (auto simp: episode_progress_def intro!: exI [of _ 0])
next
  case (converging b g)
  obtain m where m: "b \<le> (991 / 1000) ^ m" "n \<le> 2 * m + 1 + unat (lj_stalled j)"
    using pr converging(2) by (auto simp: episode_progress_def)
  have "LOSS_THRESHOLD < b" using ok(1) converging(2) by (simp add: judge_ok_def)
  then have "199 / 10000 \<le> b" using judge_constants(1) by linarith
  then have "loss \<le> b * (991 / 1000)" using converging(5) must_improve_shrinks [of b] by linarith
  also have "\<dots> \<le> (991 / 1000) ^ Suc m" using m(1) by simp
  finally have "min b loss \<le> (991 / 1000) ^ Suc m" by linarith
  moreover have "unat (lj_stalled j) \<le> 1"
    using ok(1) stalled_cases [of "lj_stalled j"] by (auto simp: judge_ok_def)
  ultimately show ?thesis using m(2) converging by (auto simp: episode_progress_def intro!: exI [of _ "Suc m"])
next
  case (flat b g)
  obtain m where "b \<le> (991 / 1000) ^ m" "n \<le> 2 * m + 1 + unat (lj_stalled j)"
    using pr flat(2) by (auto simp: episode_progress_def)
  then show ?thesis using flat by (auto simp: episode_progress_def intro!: exI [of _ m])
qed simp_all

lemma power_991_450: "(991 / 1000 :: rat) ^ 450 \<le> 199 / 10000"
proof -
  have "(991 / 1000 :: rat) ^ 15 \<le> 8732 / 10000" by (simp add: power_divide)
  then have "((991 / 1000 :: rat) ^ 15) ^ 6 \<le> (8732 / 10000) ^ 6" by (rule power_mono) simp
  also have "(8732 / 10000 :: rat) ^ 6 \<le> 4434 / 10000" by (simp add: power_divide)
  finally have "(((991 / 1000 :: rat) ^ 15) ^ 6) ^ 5 \<le> (4434 / 10000) ^ 5" by (rule power_mono) simp
  also have "(4434 / 10000 :: rat) ^ 5 \<le> 199 / 10000" by (simp add: power_divide)
  finally have "(991 / 1000 :: rat) ^ (15 * 6 * 5) \<le> 199 / 10000" unfolding power_mult .
  moreover have "15 * 6 * 5 = (450 :: nat)" by simp
  ultimately show ?thesis by (simp only:)
qed

lemma episode_progress_bound:
  assumes "judge_ok j" and "episode_progress n j"
  shows "n \<le> 900"
proof (cases "lj_best j")
  case None
  then show ?thesis using assms(2) by (simp add: episode_progress_def)
next
  case (Some b)
  then obtain m where m: "b \<le> (991 / 1000) ^ m" "n \<le> 2 * m + 1 + unat (lj_stalled j)"
    using assms(2) by (auto simp: episode_progress_def)
  have "199 / 10000 < b" using assms(1) Some judge_constants(1) by (auto simp: judge_ok_def)
  then have low: "199 / 10000 < (991 / 1000 :: rat) ^ m" using m(1) by linarith
  have "m < 450"
  proof (rule ccontr)
    assume "\<not> m < 450"
    then have "(991 / 1000 :: rat) ^ m \<le> (991 / 1000) ^ 450" by (intro power_decreasing) auto
    then show False using low power_991_450 by linarith
  qed
  moreover have "unat (lj_stalled j) \<le> 1"
    using assms(1) stalled_cases [of "lj_stalled j"] by (auto simp: judge_ok_def)
  ultimately show ?thesis using m(2) by linarith
qed

fun is_congested :: "Verdict \<Rightarrow> bool" where
  "is_congested (Congested c) = True"
| "is_congested _ = False"

lemma judge_run_congested:
  assumes "judge_ok j" and "episode_progress n j" and "\<forall>w \<in> set ws. 0 \<le> fst w \<and> fst w \<le> 1"
    and "list_all is_congested (fst (judge_run j ws))"
  shows "n + length ws \<le> 900"
  using assms
proof (induction ws arbitrary: j n)
  case Nil
  then show ?case by (simp add: episode_progress_bound)
next
  case (Cons w ws)
  obtain v j' where jd: "judge j (fst w) (snd w) = (v, j')" by force
  obtain vs j'' where run: "judge_run j' ws = (vs, j'')" by force
  have vs: "is_congested v" "list_all is_congested vs" using Cons.prems(4) by (simp_all add: jd run)
  then obtain c where v: "v = Congested c" by (cases v) auto
  have "judge_ok j'" using Cons.prems(1,3) jd by (auto intro: judge_ok_judge)
  moreover have "episode_progress (Suc n) j'"
    using Cons.prems(1-3) jd v by (auto intro: episode_progress_step)
  ultimately show ?case using Cons.IH [of j' "Suc n"] Cons.prems(3) vs(2) run by simp
qed

section \<open>A loss that no rate moves\<close>

definition settled_at :: "f64 \<Rightarrow> LossJudge \<Rightarrow> bool" where
  "settled_at l j \<longleftrightarrow> lj_best j = None \<and> lj_best_delivered j = None \<and> lj_stalled j = 0 \<and> lj_baseline j = Some l"

lemma judge_settled:
  assumes "settled_at l j" and "is_f64 l"
  shows "judge j l d = (Clear, j)"
proof -
  have "l \<le> f64_add l LOSS_THRESHOLD"
    unfolding f64_add_def using assms(2) judge_constants(1) by (intro f64_le_round) auto
  then show ?thesis using assms(1)
    by (auto simp: judge_def Let_def congestion_bar_def follow_baseline_def end_episode_def settled_at_def)
qed

lemma judge_run_settled:
  "settled_at l j \<Longrightarrow> is_f64 l \<Longrightarrow> judge_run j (replicate n (l, d)) = (replicate n Clear, j)"
  by (induction n) (simp_all add: judge_settled)

lemma judge_run_append:
  "judge_run j (xs @ ys) =
     (case judge_run j xs of (vs, j1) \<Rightarrow> case judge_run j1 ys of (us, j2) \<Rightarrow> (vs @ us, j2))"
  by (induction xs arbitrary: j) (auto split: prod.splits)

lemma judge_fixed_loss:
  assumes l: "is_f64 l" "LOSS_THRESHOLD < l" "l \<le> 1" and d: "is_f64 d" "0 \<le> d"
  shows "\<exists>j. judge_run LossJudge_default [(l, d), (l, d), (l, d)]
             = ([Congested False, Congested False, Baseline], j) \<and> settled_at l j"
proof -
  have thr: "\<not> l \<le> f64_add 0 LOSS_THRESHOLD"
    using l(2) is_f64_judge_constants(1) by (simp add: f64_add_def is_f64_def)
  have l0: "0 \<le> l" using l(2) judge_constants(1) by linarith
  have imp: "\<not> l < f64_mul l RETREAT_MUST_IMPROVE"
    using f64_mul_le_left [OF l(1) l0, of RETREAT_MUST_IMPROVE] judge_constants(4) by auto
  have pay: "f64_mul d RETREAT_MUST_DELIVER \<le> d"
    using judge_constants(6) by (intro f64_mul_le_left d) auto
  have sat: "saturating_add (0 :: u8) 1 = 1" "saturating_add (1 :: u8) 1 = 2" "\<not> (2 :: u8) \<le> 1" by code_simp+
  show ?thesis
    by (simp add: judge_def Let_def congestion_bar_def follow_baseline_def end_episode_def LossJudge_default_def
        thr imp pay sat STALL_TICKS_def settled_at_def)
qed

section \<open>Properties\<close>

text \<open>
  C24. Retreating always comes to an end: whatever the windows show, a fresh judge cannot call
  more than 900 of them in a row congested. After that many at the latest the loss is clear or
  has become the baseline, so no path is walked down for ever. (The bound is what a one per cent
  improvement every other window leaves between a loss of one and the threshold.)
\<close>

theorem judge_episode_ends:
  assumes "judge_ok j" and "lj_best j = None" and "\<forall>w \<in> set ws. 0 \<le> fst w \<and> fst w \<le> 1"
    and "list_all is_congested (fst (judge_run j ws))"
  shows "length ws \<le> 900"
proof -
  have "episode_progress 0 j" using assms(2) by (simp add: episode_progress_def)
  from judge_run_congested [OF assms(1) this assms(3,4)] show ?thesis by simp
qed

theorem judge_episode_ends_witness:
  "list_all is_congested (fst (judge_run LossJudge_default [(1 / 2, 100), (1 / 4, 100)]))
     \<and> length [(1 / 2 :: rat, 100 :: rat), (1 / 4, 100)] \<le> 900"
proof -
  have "list_all is_congested (fst (judge_run LossJudge_default [(1 / 2, 100), (1 / 4, 100)]))" by code_simp
  then show ?thesis
    using judge_episode_ends [of LossJudge_default "[(1 / 2, 100), (1 / 4, 100)]"]
    by (simp add: judge_ok_default LossJudge_default_def)
qed

text \<open>
  Loss that does not depend on the rate is not fought for long: a path that loses the same
  share of every window is retreated from twice, then its loss is taken as the baseline, and
  every later window at that loss is clear.
\<close>

theorem judge_accepts_fixed_loss:
  assumes "is_f64 l" and "LOSS_THRESHOLD < l" and "l \<le> 1" and "is_f64 d" and "0 \<le> d"
  shows "fst (judge_run LossJudge_default (replicate (3 + n) (l, d)))
      = [Congested False, Congested False, Baseline] @ replicate n Clear"
proof -
  obtain j where j: "judge_run LossJudge_default [(l, d), (l, d), (l, d)]
      = ([Congested False, Congested False, Baseline], j)" "settled_at l j"
    using judge_fixed_loss [OF assms] by blast
  have "replicate (3 + n) (l, d) = [(l, d), (l, d), (l, d)] @ replicate n (l, d)"
    by (simp add: replicate_add numeral_3_eq_3)
  then show ?thesis by (simp only: judge_run_append j(1) judge_run_settled [OF j(2) assms(1)] prod.case fst_conv)
qed

theorem judge_accepts_fixed_loss_witness:
  "fst (judge_run LossJudge_default (replicate (3 + 2) (1 / 4, 100)))
     = [Congested False, Congested False, Baseline, Clear, Clear]"
proof -
  have "is_f64 (1 / 4)" using is_f64_dyadic [of 1 2] by simp
  then show ?thesis using judge_accepts_fixed_loss [of "1 / 4" 100 2] judge_constants(2)
    by (simp add: numeral_2_eq_2)
qed

text \<open>
  The bar never hides new congestion: after every judged window the baseline, if there is
  one, is at most that window's loss, and every window whose loss exceeds the bar by more than the
  threshold is acted on, either by a retreat or by setting the baseline to exactly that loss.
\<close>

theorem judge_baseline_sound:
  assumes "judge_ok j" and "0 \<le> loss" and "judge j loss d = (v, j')"
  shows "(\<forall>b. lj_baseline j' = Some b \<longrightarrow> b \<le> loss)
    \<and> (v = Clear \<longleftrightarrow> loss \<le> congestion_bar (follow_baseline loss j))
    \<and> (v = Baseline \<longrightarrow> lj_baseline j' = Some loss \<and> lj_best j \<noteq> None)
    \<and> judge_ok j'"
proof -
  have ok: "judge_ok j'" using assms by (rule judge_ok_judge)
  have "v = Clear" if "loss \<le> congestion_bar (follow_baseline loss j)"
    using that assms(3) by (auto simp: judge_def Let_def)
  with assms show ?thesis
    by (cases rule: judge_cases) (use ok in \<open>auto simp: end_episode_def\<close>)
qed

theorem judge_baseline_sound_witness:
  "snd (judge (LossJudge_default\<lparr>lj_baseline := Some (1 / 2)\<rparr>) (1 / 4) 10)
     = LossJudge_default\<lparr>lj_baseline := Some (1 / 4)\<rparr> \<and> (1 / 4 :: rat) \<le> 1 / 4"
proof -
  let ?j = "LossJudge_default\<lparr>lj_baseline := Some (1 / 2)\<rparr>"
  have j: "judge ?j (1 / 4) 10 = (Clear, LossJudge_default\<lparr>lj_baseline := Some (1 / 4)\<rparr>)" by code_simp
  have "judge_ok ?j" by (simp add: judge_ok_def LossJudge_default_def STALL_TICKS_def)
  from judge_baseline_sound [OF this _ j] show ?thesis using j by simp
qed

end
