(* ===== verification/Semaphore.thy ===== *)
theory Semaphore
  imports Prelude
begin

text \<open>
  The counting semaphore of tokio, on which the per-resolver in-flight bound and the
  attempt pacer rest. It is not code of this repository, so it is a parameter: a record of
  its operations, which the definitions that use it take as an argument, and the locale
  \<open>semaphore\<close> with the documented behaviour. \<open>sem_try_acquire\<close> takes one permit or fails;
  a waiting acquire is the same step taken when a permit is there; dropping a permit gives
  it back, which is \<open>sem_add_permits\<close> of one; a forgotten permit is not given back.
\<close>

record 's sem_ops =
  sem_new :: "nat \<Rightarrow> 's"
  sem_try_acquire :: "'s \<Rightarrow> 's option"
  sem_add_permits :: "nat \<Rightarrow> 's \<Rightarrow> 's"
  sem_available :: "'s \<Rightarrow> nat"

definition counting_sem :: "nat sem_ops" where
  "counting_sem = \<lparr>sem_new = (\<lambda>n. n), sem_try_acquire = (\<lambda>s. if s = 0 then None else Some (s - 1)),
     sem_add_permits = (\<lambda>n s. s + n), sem_available = (\<lambda>s. s)\<rparr>"

locale semaphore =
  fixes S :: "'s sem_ops"
  assumes available_new: "sem_available S (sem_new S n) = n"
    and try_acquire_None: "sem_try_acquire S s = None \<longleftrightarrow> sem_available S s = 0"
    and try_acquire_Some: "sem_try_acquire S s = Some s' \<Longrightarrow> sem_available S s = Suc (sem_available S s')"
    and available_add: "sem_available S (sem_add_permits S n s) = sem_available S s + n"
begin

lemma available_try_acquire: "sem_try_acquire S s = Some s' \<Longrightarrow> sem_available S s' = sem_available S s - 1"
  using try_acquire_Some by fastforce

lemma try_acquire_possible: "0 < sem_available S s \<Longrightarrow> \<exists>s'. sem_try_acquire S s = Some s'"
  using try_acquire_None [of s] by (cases "sem_try_acquire S s") auto

lemmas sem_simps = available_new try_acquire_None available_add

end

lemma counting_sem_simps [simp]:
  "sem_new counting_sem n = n" "sem_add_permits counting_sem k n = n + k"
  "sem_available counting_sem n = n"
  "sem_try_acquire counting_sem n = (if n = 0 then None else Some (n - 1))"
  by (simp_all add: counting_sem_def)

interpretation counting: semaphore counting_sem
  by unfold_locales (auto split: if_splits)

end
