(* ===== verification/Limiter.thy ===== *)
theory Limiter
  imports F64 Semaphore
begin

text \<open>
  \<open>src/limiter.rs\<close>: the interval pacer \<open>RateLimiter\<close> and the token pacer
  \<open>AttemptPacer\<close>.

  A \<open>RateLimiter\<close> is one atomic cursor. Its operations are functions on the record; the
  compare-and-swap loop of \<open>acquire\<close>, which many tasks run at once, is the step relation
  \<open>acq_step\<close> of a system of tasks around one limiter, with one rule per atomic access, so
  that every interleaving is a run of it. The system keeps a log of the slots handed out.
\<close>

section \<open>RateLimiter\<close>

record RateLimiter =
  rl_interval_ns :: u64
  rl_start :: instant
  rl_next_ns :: u64

definition UNLIMITED_QPS :: f64 where "UNLIMITED_QPS = 1000000000"

definition interval_for :: "f64 \<Rightarrow> u64 option" where
  "interval_for q =
     (if 0 < q then Some (u64_of_f64 (max (round_f64 (f64_div 1000000000 q)) 1)) else None)"

definition RateLimiter_new :: "f64 \<Rightarrow> instant \<Rightarrow> RateLimiter option" where
  "RateLimiter_new q now =
     map_option (\<lambda>i. \<lparr>rl_interval_ns = i, rl_start = now, rl_next_ns = 0\<rparr>) (interval_for q)"

definition set_rate :: "RateLimiter \<Rightarrow> f64 \<Rightarrow> RateLimiter option" where
  "set_rate l q = map_option (\<lambda>i. l\<lparr>rl_interval_ns := i\<rparr>) (interval_for q)"

definition rate :: "RateLimiter \<Rightarrow> f64" where
  "rate l = f64_div 1000000000 (f64_of_u64 (rl_interval_ns l))"

definition interval :: "RateLimiter \<Rightarrow> duration" where
  "interval l = unat (rl_interval_ns l)"

definition elapsed_ns :: "RateLimiter \<Rightarrow> instant \<Rightarrow> u64" where
  "elapsed_ns l now = of_nat (now - rl_start l)"

definition SUB_MS_SKIP_THRESHOLD_NS :: u64 where "SUB_MS_SKIP_THRESHOLD_NS = 1000000"

text \<open>The sleep that follows a claimed slot, if any.\<close>

definition acquire_sleep :: "u64 \<Rightarrow> u64 \<Rightarrow> duration option" where
  "acquire_sleep slot_ns now_ns =
     (if slot_ns \<le> now_ns then None
      else let deficit_ns = slot_ns - now_ns
           in if SUB_MS_SKIP_THRESHOLD_NS \<le> deficit_ns then Some (unat deficit_ns) else None)"

text \<open>One \<open>acquire\<close> that nobody disturbs: the claimed slot, the sleep and the limiter after it.\<close>

definition acquire :: "RateLimiter \<Rightarrow> instant \<Rightarrow> u64 \<times> duration option \<times> RateLimiter" where
  "acquire l now =
     (let base = max (rl_next_ns l) (elapsed_ns l now)
      in (base, acquire_sleep base (elapsed_ns l now),
          l\<lparr>rl_next_ns := saturating_add base (rl_interval_ns l)\<rparr>))"

subsection \<open>Tasks racing on one limiter\<close>

datatype acquire_pc =
    AcqIdle
  | AcqLoop u64
  | AcqLoaded u64 u64
  | AcqCas u64 u64 u64
  | AcqSlot u64
  | AcqSleep instant

record acq_sys =
  aq_limiter :: RateLimiter
  aq_clock :: instant
  aq_pc :: "nat \<Rightarrow> acquire_pc"
  aq_grants :: "(u64 \<times> u64) list"

definition acq_init :: "RateLimiter \<Rightarrow> instant \<Rightarrow> acq_sys" where
  "acq_init l now = \<lparr>aq_limiter = l, aq_clock = now, aq_pc = (\<lambda>_. AcqIdle), aq_grants = []\<rparr>"

definition goto_pc :: "nat \<Rightarrow> acquire_pc \<Rightarrow> acq_sys \<Rightarrow> acq_sys" where
  "goto_pc i p s = s\<lparr>aq_pc := (aq_pc s)(i := p)\<rparr>"

definition acq_now_ns :: "acq_sys \<Rightarrow> u64" where
  "acq_now_ns s = elapsed_ns (aq_limiter s) (aq_clock s)"

inductive acq_step :: "acq_sys \<Rightarrow> acq_sys \<Rightarrow> bool" where
  load_interval: "aq_pc s i = AcqIdle \<Longrightarrow>
     acq_step s (goto_pc i (AcqLoop (rl_interval_ns (aq_limiter s))) s)"
| load_cursor: "aq_pc s i = AcqLoop iv \<Longrightarrow>
     acq_step s (goto_pc i (AcqLoaded iv (rl_next_ns (aq_limiter s))) s)"
| read_clock: "aq_pc s i = AcqLoaded iv current \<Longrightarrow>
     acq_step s (goto_pc i (AcqCas iv current (max current (acq_now_ns s))) s)"
| cas_ok: "aq_pc s i = AcqCas iv current base \<Longrightarrow> rl_next_ns (aq_limiter s) = current \<Longrightarrow>
     acq_step s (goto_pc i (AcqSlot base)
       (s\<lparr>aq_limiter := (aq_limiter s)\<lparr>rl_next_ns := saturating_add base iv\<rparr>,
          aq_grants := (base, iv) # aq_grants s\<rparr>))"
| cas_fail: "aq_pc s i = AcqCas iv current base \<Longrightarrow> acq_step s (goto_pc i (AcqLoop iv) s)"
| no_sleep: "aq_pc s i = AcqSlot slot \<Longrightarrow> acquire_sleep slot (acq_now_ns s) = None \<Longrightarrow>
     acq_step s (goto_pc i AcqIdle s)"
| sleep: "aq_pc s i = AcqSlot slot \<Longrightarrow> acquire_sleep slot (acq_now_ns s) = Some d \<Longrightarrow>
     acq_step s (goto_pc i (AcqSleep (aq_clock s + d)) s)"
| wake: "aq_pc s i = AcqSleep t \<Longrightarrow> t \<le> aq_clock s \<Longrightarrow> acq_step s (goto_pc i AcqIdle s)"
| time_passes: "acq_step s (s\<lparr>aq_clock := aq_clock s + d\<rparr>)"
| rate_changes: "set_rate (aq_limiter s) q = Some l \<Longrightarrow> acq_step s (s\<lparr>aq_limiter := l\<rparr>)"

inductive acq_reachable :: "RateLimiter \<Rightarrow> instant \<Rightarrow> acq_sys \<Rightarrow> bool" for l now where
  acq_start: "acq_reachable l now (acq_init l now)"
| acq_run: "acq_reachable l now s \<Longrightarrow> acq_step s t \<Longrightarrow> acq_reachable l now t"

section \<open>AttemptPacer\<close>

record 's AttemptPacer =
  ap_rate :: "f64 option"
  ap_tokens :: 's
  ap_carry :: f64
  ap_waiting :: u64

definition PACER_TICK :: duration where "PACER_TICK = 2000000"
definition PACER_IDLE_TICK :: duration where "PACER_IDLE_TICK = 100000000"
definition PACER_BURST_SECONDS :: f64 where "PACER_BURST_SECONDS = f64_lit (1 / 100)"

definition AttemptPacer_new :: "'s sem_ops \<Rightarrow> 's AttemptPacer" where
  "AttemptPacer_new S =
     \<lparr>ap_rate = None, ap_tokens = sem_new S 0, ap_carry = 0, ap_waiting = 0\<rparr>"

definition pacer_set_rate :: "'s AttemptPacer \<Rightarrow> f64 option \<Rightarrow> 's AttemptPacer" where
  "pacer_set_rate p r = p\<lparr>ap_rate := r, ap_carry := 0\<rparr>"

text \<open>
  \<open>acquire\<close> in its two halves: a caller passes at once while unlimited, otherwise it counts
  as waiting until it takes a token, which it forgets, or is cancelled.
\<close>

definition pacer_enter :: "'s AttemptPacer \<Rightarrow> bool \<times> 's AttemptPacer" where
  "pacer_enter p =
     (if ap_rate p = None then (True, p) else (False, p\<lparr>ap_waiting := ap_waiting p + 1\<rparr>))"

definition pacer_take :: "'s sem_ops \<Rightarrow> 's AttemptPacer \<Rightarrow> 's AttemptPacer option" where
  "pacer_take S p =
     map_option (\<lambda>t. p\<lparr>ap_tokens := t, ap_waiting := ap_waiting p - 1\<rparr>) (sem_try_acquire S (ap_tokens p))"

definition pacer_cancel :: "'s AttemptPacer \<Rightarrow> 's AttemptPacer" where
  "pacer_cancel p = p\<lparr>ap_waiting := ap_waiting p - 1\<rparr>"

definition pacer_burst :: "f64 \<Rightarrow> nat" where
  "pacer_burst r = unat (u64_of_f64 (max (f64_mul r PACER_BURST_SECONDS) 1))"

definition refill :: "'s sem_ops \<Rightarrow> f64 \<Rightarrow> 's AttemptPacer \<Rightarrow> 's AttemptPacer" where
  "refill S seconds p =
     (case ap_rate p of
        None \<Rightarrow>
          p\<lparr>ap_tokens := sem_add_permits S (unat (ap_waiting p) - sem_available S (ap_tokens p)) (ap_tokens p)\<rparr>
      | Some r \<Rightarrow>
          let carry = f64_add (ap_carry p) (f64_mul r seconds);
              whole = floor_f64 carry;
              room = pacer_burst r - sem_available S (ap_tokens p)
          in p\<lparr>ap_carry := f64_sub carry whole,
               ap_tokens := sem_add_permits S (min (unat (u64_of_f64 whole)) room) (ap_tokens p)\<rparr>)"

text \<open>The pause the ticker takes after a refill.\<close>

definition pacer_pause :: "'s AttemptPacer \<Rightarrow> duration" where
  "pacer_pause p = (if ap_rate p = None \<and> ap_waiting p = 0 then PACER_IDLE_TICK else PACER_TICK)"

text \<open>
  The ticker's loop, which starts with \<open>pacer_loop S now PACER_TICK\<close>. Each turn is the delay by which
  the sleep overruns its pause and what others did to the pacer meanwhile. The result is the time of
  the last refill, the pause that follows it and the pacer.
\<close>

fun pacer_loop ::
  "'s sem_ops \<Rightarrow> instant \<Rightarrow> duration \<Rightarrow> (duration \<times> ('s AttemptPacer \<Rightarrow> 's AttemptPacer)) list \<Rightarrow> 's AttemptPacer
    \<Rightarrow> instant \<times> duration \<times> 's AttemptPacer" where
  "pacer_loop S previous pause [] p = (previous, pause, p)"
| "pacer_loop S previous pause ((delay, others) # turns) p =
     (let now = previous + pause + delay;
          p' = refill S (as_secs_f64 (now - previous)) (others p)
      in pacer_loop S now (pacer_pause p') turns p')"

section \<open>Rates and intervals\<close>

definition rl_wf :: "RateLimiter \<Rightarrow> bool" where
  "rl_wf l \<longleftrightarrow> rl_interval_ns l \<noteq> 0"

lemma u64_of_f64_unat: "0 \<le> x \<Longrightarrow> x < 2 ^ 64 \<Longrightarrow> unat (u64_of_f64 x) = nat \<lfloor>x\<rfloor>"
proof -
  assume x: "0 \<le> x" "x < 2 ^ 64"
  then obtain k where k: "\<lfloor>x\<rfloor> = int k" using zero_le_floor nonneg_int_cases by metis
  have "\<lfloor>x\<rfloor> < 2 ^ 64" using x by (simp add: floor_less_iff)
  then have "k < 2 ^ 64" unfolding k by simp
  then have "unat (of_nat k :: u64) = k" by (rule unat_of_nat_u64)
  moreover have "u64_of_f64 x = of_nat k" using x by (simp add: u64_of_f64_def k)
  ultimately show ?thesis by (simp add: k)
qed

lemma u64_of_f64_ne_0: "1 \<le> x \<Longrightarrow> u64_of_f64 x \<noteq> 0"
proof (cases "x < 2 ^ 64")
  case True
  assume "1 \<le> x"
  then have "unat (u64_of_f64 x) \<noteq> 0" using True by (subst u64_of_f64_unat) (auto simp: le_floor_iff)
  then show ?thesis by auto
qed (simp add: u64_of_f64_def)

lemma interval_for_Some: "interval_for q = Some i \<Longrightarrow> 0 < q \<and> i \<noteq> 0"
  by (auto simp: interval_for_def u64_of_f64_ne_0 split: if_splits)

lemma interval_for_pos: "0 < q \<Longrightarrow> \<exists>i. interval_for q = Some i"
  by (simp add: interval_for_def)

lemma set_rate_pos: "0 < q \<Longrightarrow> \<exists>l'. set_rate l q = Some l' \<and> rl_wf l'"
  using interval_for_pos [of q] interval_for_Some [of q] by (auto simp: set_rate_def rl_wf_def)

lemma set_rate_wf: "set_rate l q = Some l' \<Longrightarrow> rl_wf l'"
  using interval_for_Some [of q] by (auto simp: set_rate_def rl_wf_def)

lemma set_rate_frame [frame]:
  "set_rate l q = Some l' \<Longrightarrow> rl_next_ns l' = rl_next_ns l \<and> rl_start l' = rl_start l"
  by (auto simp: set_rate_def)

lemma set_rate_None: "set_rate l q = None \<longleftrightarrow> \<not> 0 < q"
  by (simp add: set_rate_def interval_for_def)

text \<open>\<open>rate\<close> stays within what a \<open>u64\<close> of nanoseconds can express.\<close>

lemma is_f64_two_pow: "is_f64 (2 ^ 64)"
  using f64_round_grid [of 1 64] by (simp add: is_f64_def)

lemma f64_of_u64_le: "f64_of_u64 w \<le> 2 ^ 64"
proof -
  have "unat w \<le> 2 ^ 64" using unsigned_less [of w, where ?'a = nat] by simp
  then have "(of_nat (unat w) :: rat) \<le> of_nat (2 ^ 64)" by (simp only: of_nat_le_iff)
  then show ?thesis unfolding f64_of_u64_def
    by (intro f64_round_le is_f64_two_pow) simp
qed

lemma rate_le_unlimited: "rl_wf l \<Longrightarrow> rate l \<le> UNLIMITED_QPS"
  using f64_of_u64_ge_1 [of "rl_interval_ns l"]
  by (auto simp: rate_def rl_wf_def UNLIMITED_QPS_def f64_div_def divide_le_eq intro!: f64_round_le)

lemma rate_pos: "rl_wf l \<Longrightarrow> 0 < rate l"
proof -
  assume "rl_wf l"
  then have n: "1 \<le> f64_of_u64 (rl_interval_ns l)" "f64_of_u64 (rl_interval_ns l) \<le> 2 ^ 64"
    using f64_of_u64_le by (auto simp: rl_wf_def intro: f64_of_u64_ge_1)
  have f: "is_f64 (1 / 2 ^ 40)" using is_f64_dyadic [of 1 40] by simp
  have "1 / 2 ^ 40 \<le> 1000000000 / f64_of_u64 (rl_interval_ns l)"
    using n by (simp add: le_divide_eq)
  then have "1 / 2 ^ 40 \<le> rate l"
    unfolding rate_def f64_div_def by (rule f64_le_round [OF f])
  then show ?thesis by (rule less_le_trans [rotated]) simp
qed

text \<open>The interval that a rate of at least one and at most \<open>1e9\<close> is paced at.\<close>

lemma interval_for_nearest:
  assumes q: "1 \<le> q" "q \<le> 1000000000"
  obtains n :: nat where "interval_for q = Some (of_nat n)" "1 \<le> n" "n \<le> 1000000001"
    "\<bar>of_nat n - 1000000000 / q\<bar> \<le> 501 / 1000"
proof -
  let ?T = "1000000000 / q" let ?t = "f64_div 1000000000 q"
  have T: "1 \<le> ?T" "?T \<le> 1000000000" using q by (simp_all add: divide_le_eq)
  have t: "1 \<le> ?t" "?t \<le> 1000000000"
    unfolding f64_div_def using T by (auto intro!: f64_le_round f64_round_le)
  have "1 / 2 \<le> ?T" using T(1) by linarith
  then have "\<bar>?t - ?T\<bar> \<le> ?T / 2 ^ 53" unfolding f64_div_def by (rule b64.rnd_near_half)
  also have "?T / 2 ^ 53 \<le> 1000000000 / 2 ^ 53" using T by (intro divide_right_mono) auto
  also have "\<dots> \<le> 1 / 1000" by simp
  finally have tT: "\<bar>?t - ?T\<bar> \<le> 1 / 1000" .
  define n where "n = nat \<lfloor>?t + 1 / 2\<rfloor>"
  have "1 \<le> \<lfloor>?t + 1 / 2\<rfloor>" "\<lfloor>?t + 1 / 2\<rfloor> \<le> 1000000001"
    using t by (auto simp: le_floor_iff floor_le_iff)
  then have n: "1 \<le> n" "n \<le> 1000000001" and fl: "\<lfloor>?t + 1 / 2\<rfloor> = int n"
    unfolding n_def by linarith+
  have nt: "\<bar>of_nat n - ?t\<bar> \<le> 1 / 2"
    using of_int_floor_le [of "?t + 1 / 2"] floor_correct [of "?t + 1 / 2", THEN conjunct2]
    unfolding fl of_int_of_nat_eq of_int_add of_int_1 by linarith
  have r: "round_f64 ?t = of_nat n"
    using t n b64.rnd_of_nat [of n] by (simp add: round_f64_def fl)
  have "u64_of_f64 (max (round_f64 ?t) 1) = of_nat n"
    using n by (simp add: r max_absorb1 u64_of_f64_def)
  then have "interval_for q = Some (of_nat n)" using q by (simp add: interval_for_def)
  moreover have "\<bar>of_nat n - ?T\<bar> \<le> 501 / 1000" using nt tT by linarith
  ultimately show thesis using n by (intro that [of n])
qed

text \<open>Pacing at a usable rate is accurate to a tenth of a percent.\<close>

lemma rate_accurate:
  assumes "set_rate l q = Some l'" and q: "1 \<le> q" "q \<le> 1000000"
  shows "\<bar>rate l' - q\<bar> \<le> q / 1000"
proof -
  obtain n where n: "interval_for q = Some (of_nat n)" "1 \<le> n" "n \<le> 1000000001"
    "\<bar>of_nat n - 1000000000 / q\<bar> \<le> 501 / 1000"
    using interval_for_nearest [of q] q by auto
  have iv: "rl_interval_ns l' = of_nat n" using assms(1) n(1) by (auto simp: set_rate_def)
  have un: "unat (of_nat n :: u64) = n" using n(3) by (simp add: unat_of_nat)
  have "f64_of_u64 (rl_interval_ns l') = of_nat n"
    using n(3) by (subst f64_of_u64_exact) (simp_all add: iv un)
  then have r: "rate l' = f64_round (1000000000 / of_nat n)" by (simp add: rate_def f64_div_def)
  let ?n = "of_nat n :: rat" let ?R = "1000000000 / ?n"
  have T: "1000 \<le> 1000000000 / q" using q by (simp add: le_divide_eq)
  have n999: "999 \<le> ?n" using T n(4) by linarith
  have n1: "?n \<le> 1000000001" using n(3) by simp
  have "?R - q = q * (1000000000 / q - ?n) / ?n" using q n999 by (simp add: field_simps)
  then have "\<bar>?R - q\<bar> = q * \<bar>1000000000 / q - ?n\<bar> / ?n" using q n999 by (simp add: abs_mult)
  also have "\<dots> \<le> q * (501 / 1000) / 999"
    using n(4) n999 q by (intro frac_le mult_mono) (auto simp: abs_minus_commute)
  finally have Rq: "\<bar>?R - q\<bar> \<le> q * 501 / 999000" by simp
  have R1: "999 / 1000 \<le> ?R" using n1 n999 by (simp add: le_divide_eq)
  have "1 / 2 \<le> ?R" using R1 by linarith
  then have "\<bar>rate l' - ?R\<bar> \<le> ?R / 2 ^ 53" unfolding r by (rule b64.rnd_near_half)
  also have "\<dots> \<le> ?R / 1000000" using R1 by (intro divide_left_mono) auto
  finally have "\<bar>rate l' - ?R\<bar> \<le> ?R / 1000000" .
  moreover define R where "R = ?R"
  ultimately have "\<bar>rate l' - R\<bar> \<le> R / 1000000" "\<bar>R - q\<bar> \<le> q * 501 / 999000" using Rq by simp_all
  then show ?thesis using q(1) by linarith
qed

lemma round_f64_mono: "x \<le> y \<Longrightarrow> 0 \<le> x \<Longrightarrow> round_f64 x \<le> round_f64 y"
  by (auto simp: round_f64_def intro!: b64.rnd_mono floor_mono)

lemma u64_of_f64_mono: "0 \<le> x \<Longrightarrow> x \<le> y \<Longrightarrow> u64_of_f64 x \<le> u64_of_f64 y"
proof (cases "y < 2 ^ 64")
  case True
  assume "0 \<le> x" "x \<le> y"
  then show ?thesis using True by (simp add: word_le_nat_alt u64_of_f64_unat nat_mono floor_mono)
next
  case False
  assume "0 \<le> x" "x \<le> y"
  then show ?thesis using False by (simp add: u64_of_f64_def)
qed

text \<open>A higher rate never has a longer interval.\<close>

lemma interval_for_antimono:
  assumes "0 < q" "q \<le> q'" "interval_for q = Some i" "interval_for q' = Some i'"
  shows "i' \<le> i"
proof -
  have "f64_div 1000000000 q' \<le> f64_div 1000000000 q"
    unfolding f64_div_def using assms(1,2) by (intro b64.rnd_mono divide_left_mono) auto
  then have "round_f64 (f64_div 1000000000 q') \<le> round_f64 (f64_div 1000000000 q)"
    using assms(1,2) by (intro round_f64_mono f64_div_nonneg) auto
  then show ?thesis using assms by (auto simp: interval_for_def intro!: u64_of_f64_mono split: if_splits)
qed

lemma interval_for_fast: "1000000000 \<le> q \<Longrightarrow> interval_for q = Some 1"
proof -
  assume q: "1000000000 \<le> q"
  then have "0 \<le> f64_div 1000000000 q" "f64_div 1000000000 q \<le> 1"
    by (simp_all add: f64_div_nonneg f64_ratio_le_1)
  then have "round_f64 (f64_div 1000000000 q) \<le> round_f64 1" by (intro round_f64_mono)
  also have "round_f64 1 = 1" by code_simp
  finally show ?thesis using q by (simp add: interval_for_def max_absorb2 u64_of_f64_def)
qed

text \<open>At one query per second or more the interval is at most a second (and a nanosecond).\<close>

lemma interval_for_ge_1:
  assumes "1 \<le> q"
  obtains n :: nat where "interval_for q = Some (of_nat n)" "1 \<le> n" "n \<le> 1000000001"
proof (cases "q \<le> 1000000000")
  case True
  then show thesis using interval_for_nearest [OF assms True] that by metis
next
  case False
  then show thesis using interval_for_fast [of q] that [of 1] by simp
qed

text \<open>Setting a limiter to the rate it reports leaves its interval as it is.\<close>

lemma interval_for_rate:
  assumes "rl_interval_ns l = of_nat n" "1 \<le> n" "n \<le> 1000000001"
  shows "interval_for (rate l) = Some (of_nat n)"
proof -
  have un: "unat (of_nat n :: u64) = n" using assms(3) by (simp add: unat_of_nat)
  let ?n = "of_nat n :: rat" and ?r = "rate l"
  define R where "R = 1000000000 / ?n"
  have n: "1 \<le> ?n" "?n \<le> 1000000001" using assms(2,3) by simp_all
  have r: "?r = f64_round R"
    using assms(3) by (simp add: rate_def assms(1) f64_div_def f64_of_u64_exact un R_def)
  have R: "1 / 2 \<le> R" "R \<le> 1000000000" using n by (simp_all add: R_def le_divide_eq divide_le_eq)
  have near: "\<bar>?r - R\<bar> \<le> R / 2 ^ 53" unfolding r using R(1) by (rule b64.rnd_near_half)
  have "R / 2 ^ 53 \<le> R / 2" using R(1) by (intro divide_left_mono) auto
  with near have "\<bar>?r - R\<bar> \<le> R / 2" by (rule order_trans)
  then have half: "R / 2 \<le> ?r" by linarith
  have r0: "0 < ?r" using half R(1) by linarith
  let ?x = "1000000000 / ?r"
  have "?x - ?n = ?n * (R - ?r) / ?r" using r0 n by (simp add: R_def field_simps)
  then have "\<bar>?x - ?n\<bar> = ?n * \<bar>R - ?r\<bar> / ?r" using r0 n by (simp add: abs_mult)
  also have "\<dots> \<le> ?n * (R / 2 ^ 53) / (R / 2)"
    using half near R(1) n by (intro frac_le mult_mono) (auto simp: abs_minus_commute)
  also have "\<dots> = ?n * 2 / 2 ^ 53" using R(1) n by (simp add: field_simps)
  also have "\<dots> \<le> 1 / 1000" using n by simp
  finally have xn: "\<bar>?x - ?n\<bar> \<le> 1 / 1000" .
  let ?t = "f64_div 1000000000 ?r"
  have x: "1 / 2 \<le> ?x" "?x \<le> 1000000002" using xn n by linarith+
  have "\<bar>?t - ?x\<bar> \<le> ?x / 2 ^ 53" unfolding f64_div_def using x(1) by (rule b64.rnd_near_half)
  also have "\<dots> \<le> 1 / 1000" using x(2) by simp
  finally have tn: "\<bar>?t - ?n\<bar> \<le> 2 / 1000" using xn by linarith
  have t0: "0 \<le> ?t" using tn n by linarith
  have "\<lfloor>?t + 1 / 2\<rfloor> = int n" using tn unfolding floor_eq_iff of_int_of_nat_eq by linarith
  then have "round_f64 ?t = ?n" using t0 assms(3) b64.rnd_of_nat [of n] by (simp add: round_f64_def)
  then show ?thesis using r0 n(1) assms(3) by (simp add: interval_for_def max_absorb1 u64_of_f64_def)
qed

section \<open>Slots are spaced in every interleaving\<close>

text \<open>
  \<open>grant_after\<close> relates a granted slot to an older one: it starts no earlier than the older
  slot plus the interval the older task read. The invariant keeps the log, newest first,
  ordered by it, and ties the cursor to the newest entry.
\<close>

definition grant_after :: "u64 \<times> u64 \<Rightarrow> u64 \<times> u64 \<Rightarrow> bool" where
  "grant_after g h \<longleftrightarrow> saturating_add (fst h) (snd h) \<le> fst g"

definition cursor_ok :: "acq_sys \<Rightarrow> bool" where
  "cursor_ok s \<longleftrightarrow> (case aq_grants s of [] \<Rightarrow> True
     | g # _ \<Rightarrow> rl_next_ns (aq_limiter s) = saturating_add (fst g) (snd g))"

definition acq_inv :: "acq_sys \<Rightarrow> bool" where
  "acq_inv s \<longleftrightarrow> sorted_wrt grant_after (aq_grants s) \<and> cursor_ok s
     \<and> (\<forall>i iv current base. aq_pc s i = AcqCas iv current base \<longrightarrow> current \<le> base)"

inductive_cases acq_stepE: "acq_step s t"

lemma goto_pc_simps [simp]:
  "aq_limiter (goto_pc i p s) = aq_limiter s" "aq_grants (goto_pc i p s) = aq_grants s"
  "aq_clock (goto_pc i p s) = aq_clock s" "aq_pc (goto_pc i p s) = (aq_pc s)(i := p)"
  by (simp_all add: goto_pc_def)

lemma acq_inv_init: "acq_inv (acq_init l now)"
  by (simp add: acq_inv_def acq_init_def cursor_ok_def)

lemma acq_inv_goto:
  assumes "acq_inv s" and "\<And>iv current base. p = AcqCas iv current base \<Longrightarrow> current \<le> base"
  shows "acq_inv (goto_pc i p s)"
  using assms by (auto simp: acq_inv_def cursor_ok_def split: if_splits list.splits)

lemma grant_extends_log:
  assumes "acq_inv s" and "rl_next_ns (aq_limiter s) \<le> base"
  shows "sorted_wrt grant_after ((base, iv) # aq_grants s)"
proof (cases "aq_grants s")
  case (Cons g gs)
  have g: "grant_after (base, iv) g" using assms Cons by (simp add: acq_inv_def cursor_ok_def grant_after_def)
  have "grant_after (base, iv) h" if "h \<in> set gs" for h
  proof -
    have "saturating_add (fst h) (snd h) \<le> fst g" using assms(1) Cons that by (auto simp: acq_inv_def grant_after_def)
    also have "\<dots> \<le> saturating_add (fst g) (snd g)" by (rule saturating_add_ge)
    also have "\<dots> \<le> base" using g by (simp add: grant_after_def)
    finally show ?thesis by (simp add: grant_after_def)
  qed
  then show ?thesis using assms(1) Cons g by (auto simp: acq_inv_def)
qed simp

lemma acq_step_inv: "acq_step s t \<Longrightarrow> acq_inv s \<Longrightarrow> acq_inv t"
proof (induction rule: acq_step.induct)
  case (cas_ok s i iv current base)
  then have "rl_next_ns (aq_limiter s) \<le> base" by (auto simp: acq_inv_def)
  from grant_extends_log [OF cas_ok.prems this, of iv] cas_ok.prems show ?case
    by (auto simp: acq_inv_def cursor_ok_def split: if_splits)
next
  case (rate_changes s q l)
  then show ?case by (auto simp: acq_inv_def cursor_ok_def dest: set_rate_frame split: list.splits)
next
  case (time_passes s d)
  then show ?case by (auto simp: acq_inv_def cursor_ok_def split: list.splits)
qed (auto intro: acq_inv_goto)

lemma acq_reachable_inv: "acq_reachable l now s \<Longrightarrow> acq_inv s"
  by (induction rule: acq_reachable.induct) (auto intro: acq_inv_init acq_step_inv)

text \<open>A descending list of times at least \<open>m\<close> apart has few elements in a window.\<close>

lemma spaced_first_ge:
  "sorted_wrt (\<lambda>a b. b + m \<le> a) (x # xs) \<Longrightarrow> \<forall>y \<in> set (x # xs). t \<le> y \<Longrightarrow> t + length xs * m \<le> (x::nat)"
proof (induction xs arbitrary: x)
  case (Cons y ys)
  then have "t + length ys * m \<le> y" "y + m \<le> x" by auto
  then show ?case by simp
qed simp

lemma spaced_window_count:
  assumes "sorted_wrt (\<lambda>a b. b + m \<le> a) xs" and "0 < m"
  shows "length (filter (\<lambda>x. t \<le> x \<and> x < t + w) xs) \<le> w div m + (1::nat)"
proof -
  let ?ys = "filter (\<lambda>x. t \<le> x \<and> x < t + w) xs"
  have s: "sorted_wrt (\<lambda>a b. b + m \<le> a) ?ys" by (rule sorted_wrt_filter [OF assms(1)])
  show ?thesis
  proof (cases ?ys)
    case (Cons y ys)
    have "\<forall>z \<in> set (y # ys). t \<le> z \<and> z < t + w" unfolding Cons [symmetric] by simp
    then have "t + length ys * m \<le> y" "y < t + w" using s spaced_first_ge [of m y ys t] unfolding Cons by auto
    then have "length ys * m \<le> w" by linarith
    then have "length ys \<le> w div m" using \<open>0 < m\<close> by (simp add: less_eq_div_iff_mult_less_eq)
    then show ?thesis unfolding Cons by simp
  qed simp
qed

definition slots_between :: "nat \<Rightarrow> nat \<Rightarrow> (u64 \<times> u64) list \<Rightarrow> nat" where
  "slots_between t w gs = length (filter (\<lambda>g. t \<le> unat (fst g) \<and> unat (fst g) < t + w) gs)"

lemma slots_between_bound:
  assumes s: "sorted_wrt grant_after gs" and m: "\<forall>g \<in> set gs. m \<le> unat (snd g)" "0 < m"
    and w: "t + w < 2 ^ 64"
  shows "slots_between t w gs \<le> w div m + 1"
proof -
  let ?P = "\<lambda>g. t \<le> unat (fst g) \<and> unat (fst g) < t + w"
  let ?hs = "filter ?P gs"
  have "sorted_wrt grant_after ?hs" by (rule sorted_wrt_filter [OF s])
  then have "sorted_wrt (\<lambda>g h. unat (fst h) + m \<le> unat (fst g)) ?hs"
  proof (rule sorted_wrt_mono_rel [rotated])
    fix g h assume g: "g \<in> set ?hs" "h \<in> set ?hs" "grant_after g h"
    have "min (unat (fst h) + unat (snd h)) (2 ^ 64 - 1) \<le> unat (fst g)"
      using g(3) by (simp add: grant_after_def word_le_nat_alt unat_saturating_add)
    moreover have "unat (fst g) < 2 ^ 64 - 1" using g(1) w by auto
    ultimately have "unat (fst h) + unat (snd h) \<le> unat (fst g)" by linarith
    then show "unat (fst h) + m \<le> unat (fst g)" using m(1) g(2) by fastforce
  qed
  then have "sorted_wrt (\<lambda>a b. b + m \<le> a) (map (unat \<circ> fst) ?hs)" by (simp add: sorted_wrt_map)
  from spaced_window_count [OF this \<open>0 < m\<close>, of t w] show ?thesis
    by (simp add: slots_between_def filter_map comp_def)
qed

text \<open>
  An undisturbed \<open>acquire\<close> of one task is a run of the step relation that grants exactly
  the slot of the function \<open>acquire\<close>.
\<close>

lemma acquire_solo_run:
  assumes "aq_pc s i = AcqIdle" and "acquire (aq_limiter s) (aq_clock s) = (slot, d, l')"
  shows "\<exists>t. acq_step\<^sup>*\<^sup>* s t \<and> aq_limiter t = l' \<and> aq_clock t = aq_clock s
    \<and> aq_grants t = (slot, rl_interval_ns (aq_limiter s)) # aq_grants s
    \<and> aq_pc t i = (case d of None \<Rightarrow> AcqIdle | Some n \<Rightarrow> AcqSleep (aq_clock s + n))"
proof -
  let ?l = "aq_limiter s" and ?iv = "rl_interval_ns (aq_limiter s)" and ?cur = "rl_next_ns (aq_limiter s)"
  let ?base = "max ?cur (acq_now_ns s)"
  have acq: "slot = ?base" "d = acquire_sleep ?base (acq_now_ns s)"
    "l' = ?l\<lparr>rl_next_ns := saturating_add ?base ?iv\<rparr>"
    using assms(2) by (auto simp: acquire_def acq_now_ns_def Let_def)
  define s1 where "s1 = goto_pc i (AcqLoop ?iv) s"
  define s2 where "s2 = goto_pc i (AcqLoaded ?iv ?cur) s1"
  define s3 where "s3 = goto_pc i (AcqCas ?iv ?cur ?base) s2"
  define s4 where "s4 = goto_pc i (AcqSlot ?base) (s3\<lparr>aq_limiter := l', aq_grants := (?base, ?iv) # aq_grants s3\<rparr>)"
  have now: "acq_now_ns s2 = acq_now_ns s" "acq_now_ns s4 = acq_now_ns s"
    by (simp_all add: acq_now_ns_def s1_def s2_def s3_def s4_def acq elapsed_ns_def)
  have "acq_step s s1" unfolding s1_def by (rule load_interval) (rule assms(1))
  moreover have "acq_step s1 s2"
    unfolding s2_def using load_cursor [of s1 i ?iv] by (simp add: s1_def)
  moreover have "acq_step s2 s3"
    unfolding s3_def using read_clock [of s2 i ?iv ?cur] now(1) by (simp add: s2_def)
  moreover have "acq_step s3 s4"
    unfolding s4_def using cas_ok [of s3 i ?iv ?cur ?base] by (simp add: s3_def s2_def s1_def acq)
  ultimately have run: "acq_step\<^sup>*\<^sup>* s s4" by (meson rtranclp.rtrancl_refl rtranclp.rtrancl_into_rtrancl)
  have s4: "aq_limiter s4 = l'" "aq_clock s4 = aq_clock s" "aq_grants s4 = (slot, ?iv) # aq_grants s"
    "aq_pc s4 i = AcqSlot ?base"
    by (simp_all add: s1_def s2_def s3_def s4_def acq)
  show ?thesis
  proof (cases d)
    case None
    then have "acq_step s4 (goto_pc i AcqIdle s4)" using s4(4) acq(2) now(2) by (intro no_sleep) auto
    then show ?thesis using run s4 None by (intro exI [of _ "goto_pc i AcqIdle s4"]) auto
  next
    case (Some n)
    then have "acq_step s4 (goto_pc i (AcqSleep (aq_clock s4 + n)) s4)"
      using s4(4) acq(2) now(2) by (intro sleep) auto
    then show ?thesis using run s4 Some
      by (intro exI [of _ "goto_pc i (AcqSleep (aq_clock s4 + n)) s4"]) auto
  qed
qed

text \<open>A task leaves \<open>acquire\<close> less than a millisecond before its slot.\<close>

lemma acquire_sleep_None: "acquire_sleep slot now_ns = None \<Longrightarrow> unat slot < unat now_ns + 1000000"
  by (auto simp: acquire_sleep_def SUB_MS_SKIP_THRESHOLD_NS_def Let_def word_le_nat_alt unat_sub not_le
      split: if_splits)

lemma acquire_sleep_Some:
  "acquire_sleep slot now_ns = Some d \<Longrightarrow> unat slot = unat now_ns + d \<and> 1000000 \<le> d"
  by (auto simp: acquire_sleep_def SUB_MS_SKIP_THRESHOLD_NS_def Let_def word_le_nat_alt unat_sub not_le
      split: if_splits)

section \<open>The token bucket\<close>

definition pacer_ok :: "'s AttemptPacer \<Rightarrow> bool" where
  "pacer_ok p \<longleftrightarrow> is_f64 (ap_carry p) \<and> 0 \<le> ap_carry p \<and> ap_carry p < 1
     \<and> (\<forall>r. ap_rate p = Some r \<longrightarrow> 0 \<le> r)"

lemma floor_f64_exact: "is_f64 x \<Longrightarrow> 0 \<le> x \<Longrightarrow> floor_f64 x = of_int \<lfloor>x\<rfloor>"
proof -
  assume x: "is_f64 x" "0 \<le> x"
  obtain m e where s: "x = of_int m * 2 powi e" and m: "\<bar>m\<bar> \<le> 2 ^ 53" and e: "- 1074 \<le> e"
    using x(1) f64_round_shape [of x] by (metis is_f64_def)
  have "is_f64 (of_int \<lfloor>x\<rfloor>)"
  proof (cases "0 \<le> e")
    case True
    then have "x = of_int (m * 2 ^ nat e)" by (simp add: s powi_as_int)
    then show ?thesis using x(1) by (metis floor_of_int)
  next
    case False
    have "x \<le> of_int (2 ^ 53)"
    proof -
      have "x \<le> of_int \<bar>m\<bar> * 2 powi e" by (simp add: s mult_right_mono)
      also have "\<dots> \<le> of_int (2 ^ 53) * 1"
        using m False power_int_increasing [of e 0 "2::rat"]
        by (intro mult_mono) (simp_all only: of_int_le_iff power_int_0_right, auto)
      finally show ?thesis by simp
    qed
    then have "\<lfloor>x\<rfloor> \<le> 2 ^ 53" by (simp add: floor_le_iff)
    then show ?thesis using x(2) by (intro is_f64_int) simp
  qed
  then show ?thesis by (simp add: floor_f64_def is_f64_def)
qed

text \<open>A refill splits what has accrued into whole tokens and a carry below one, losing nothing.\<close>

lemma refill_split:
  assumes "is_f64 c" and "0 \<le> c"
  shows "f64_sub c (floor_f64 c) + floor_f64 c = c" and "0 \<le> f64_sub c (floor_f64 c)"
    and "f64_sub c (floor_f64 c) < 1"
proof -
  have "f64_sub c (floor_f64 c) = c - of_int \<lfloor>c\<rfloor>"
    using is_f64_frac [OF assms] floor_f64_exact [OF assms] by (simp add: f64_sub_def is_f64_def)
  then show "f64_sub c (floor_f64 c) + floor_f64 c = c" "0 \<le> f64_sub c (floor_f64 c)"
    "f64_sub c (floor_f64 c) < 1"
    using floor_f64_exact [OF assms] of_int_floor_le [of c] floor_correct [of c, THEN conjunct2]
    unfolding of_int_add of_int_1 by linarith+
qed

lemma refill_ok: "pacer_ok p \<Longrightarrow> 0 \<le> seconds \<Longrightarrow> pacer_ok (refill S seconds p)"
  by (auto simp: pacer_ok_def refill_def Let_def f64_add_nonneg f64_mul_nonneg
      intro!: refill_split split: option.splits)

lemma set_rate_ok: "(\<forall>r. q = Some r \<longrightarrow> 0 \<le> r) \<Longrightarrow> pacer_ok (pacer_set_rate p q)"
  by (auto simp: pacer_ok_def pacer_set_rate_def)

lemma AttemptPacer_new_ok: "pacer_ok (AttemptPacer_new S)"
  by (simp add: pacer_ok_def AttemptPacer_new_def)

text \<open>
  The ticker keeps the pacer in order as long as the others do, refills at least one tick apart, and
  after its last refill sleeps a full tick, or the idle one when there is nothing to pace.
\<close>

lemma pacer_pause_least: "PACER_TICK \<le> pacer_pause p"
  by (simp add: pacer_pause_def PACER_TICK_def PACER_IDLE_TICK_def u64_simps)

lemma pacer_loop_sound:
  assumes "\<forall>(delay, others) \<in> set turns. \<forall>p. pacer_ok p \<longrightarrow> pacer_ok (others p)"
    and "pacer_ok p" and "PACER_TICK \<le> pause" and "pacer_loop S previous pause turns p = (latest, pause', p')"
  shows "pacer_ok p' \<and> previous + length turns * PACER_TICK \<le> latest \<and> (turns \<noteq> [] \<longrightarrow> pause' = pacer_pause p')"
  using assms
proof (induction S previous pause turns p rule: pacer_loop.induct)
  case (2 S previous pause delay others turns p)
  let ?now = "previous + pause + delay"
  let ?p = "refill S (as_secs_f64 (?now - previous)) (others p)"
  have "pacer_ok ?p" using 2(2,3) by (auto intro: refill_ok)
  with 2 have "pacer_ok p' \<and> ?now + length turns * PACER_TICK \<le> latest \<and> (turns \<noteq> [] \<longrightarrow> pause' = pacer_pause p')"
    by (simp add: pacer_pause_least Let_def)
  moreover have "turns = [] \<Longrightarrow> pause' = pacer_pause p'" using 2(5) by (auto simp: Let_def)
  ultimately show ?case using 2(4) by auto
qed simp

context semaphore
begin

lemma refill_tokens_bounded:
  "ap_rate p = Some r \<Longrightarrow>
     sem_available S (ap_tokens (refill S seconds p)) \<le> max (sem_available S (ap_tokens p)) (pacer_burst r)"
  by (auto simp: refill_def Let_def available_add)

lemma refill_releases_waiters:
  "ap_rate p = None \<Longrightarrow>
     sem_available S (ap_tokens (refill S seconds p)) = max (sem_available S (ap_tokens p)) (unat (ap_waiting p))"
  by (auto simp: refill_def available_add)

lemma refill_tokens_accrued:
  assumes "ap_rate p = Some r" and "pacer_ok p" and "0 \<le> seconds"
  shows "of_nat (sem_available S (ap_tokens (refill S seconds p)) - sem_available S (ap_tokens p))
    \<le> f64_add (ap_carry p) (f64_mul r seconds)"
proof -
  let ?c = "f64_add (ap_carry p) (f64_mul r seconds)"
  have c: "is_f64 ?c" "0 \<le> ?c" using assms by (auto simp: pacer_ok_def f64_add_nonneg f64_mul_nonneg)
  have fl: "floor_f64 ?c = of_int \<lfloor>?c\<rfloor>" by (rule floor_f64_exact [OF c])
  have "of_nat (unat (u64_of_f64 (floor_f64 ?c))) \<le> ?c"
  proof (cases "floor_f64 ?c < 2 ^ 64")
    case True
    then have "unat (u64_of_f64 (floor_f64 ?c)) = nat \<lfloor>?c\<rfloor>" using c by (subst u64_of_f64_unat) (auto simp: fl)
    then show ?thesis using c by (simp add: of_nat_nat)
  next
    case False
    have "unat (u64_of_f64 (floor_f64 ?c)) \<le> 2 ^ 64" using unsigned_less [of "u64_of_f64 (floor_f64 ?c)", where ?'a = nat] by simp
    then have "(of_nat (unat (u64_of_f64 (floor_f64 ?c))) :: rat) \<le> of_nat (2 ^ 64)" by (simp only: of_nat_le_iff)
    also have "\<dots> \<le> floor_f64 ?c" using False by simp
    finally show ?thesis unfolding fl using of_int_floor_le [of ?c] by linarith
  qed
  moreover have "sem_available S (ap_tokens (refill S seconds p)) - sem_available S (ap_tokens p)
      \<le> unat (u64_of_f64 (floor_f64 ?c))"
    using assms(1) by (simp add: refill_def Let_def available_add)
  ultimately show ?thesis by (meson of_nat_le_iff order_trans)
qed

end

section \<open>Properties\<close>

lemma acq_reachable_rtranclp: "acq_step\<^sup>*\<^sup>* s t \<Longrightarrow> acq_reachable l now s \<Longrightarrow> acq_reachable l now t"
  by (induction rule: rtranclp_induct) (auto intro: acq_run)

definition paced_1ms :: RateLimiter where
  "paced_1ms = \<lparr>rl_interval_ns = 1000000, rl_start = 0, rl_next_ns = 0\<rparr>"

lemma paced_1ms_grant:
  "\<exists>s. acq_reachable paced_1ms 0 s \<and> aq_grants s = [(0, 1000000)]"
proof -
  have "\<exists>t. acq_step\<^sup>*\<^sup>* (acq_init paced_1ms 0) t \<and> aq_grants t = [(0, 1000000)]"
    using acquire_solo_run [of "acq_init paced_1ms 0" 0]
    by (auto simp: acq_init_def acquire_def Let_def elapsed_ns_def paced_1ms_def)
  then show ?thesis using acq_reachable_rtranclp acq_start by blast
qed



text \<open>
  Two slots handed out by one limiter never overlap: in the log of every reachable state,
  most recent first, a slot lies no earlier than the end of the interval of every slot handed
  out before it.
\<close>

theorem limiter_slots_disjoint:
  assumes "acq_reachable l now s"
  shows "sorted_wrt grant_after (aq_grants s)"
  using acq_reachable_inv [OF assms] by (simp add: acq_inv_def)

theorem limiter_slots_disjoint_witness:
  "\<exists>s. acq_reachable paced_1ms 0 s \<and> aq_grants s \<noteq> [] \<and> sorted_wrt grant_after (aq_grants s)"
  using paced_1ms_grant limiter_slots_disjoint [of paced_1ms 0] by fastforce





text \<open>
  One refill of the attempt pacer keeps its carry a proper fraction, never lifts the tokens
  above the burst allowance (tokens already there apart), and never adds more tokens than the
  rate earned over the elapsed time plus the carry.
\<close>

theorem refill_bounded:
  assumes "semaphore S" and "pacer_ok p" and "ap_rate p = Some r" and "0 \<le> seconds"
  shows "pacer_ok (refill S seconds p)
    \<and> sem_available S (ap_tokens (refill S seconds p)) \<le> max (sem_available S (ap_tokens p)) (pacer_burst r)
    \<and> of_nat (sem_available S (ap_tokens (refill S seconds p)) - sem_available S (ap_tokens p))
           \<le> f64_add (ap_carry p) (f64_mul r seconds)"
  using refill_ok [OF assms(2,4)] semaphore.refill_tokens_bounded [OF assms(1,3)]
    semaphore.refill_tokens_accrued [OF assms(1,3,2,4)] by auto

theorem refill_bounded_witness:
  "let p = pacer_set_rate (AttemptPacer_new counting_sem) (Some 1000)
   in pacer_ok (refill counting_sem (1 / 2) p) \<and> sem_available counting_sem (ap_tokens (refill counting_sem (1 / 2) p)) = 10
     \<and> (of_nat (sem_available counting_sem (ap_tokens (refill counting_sem (1 / 2) p)) - 0) :: rat)
        \<le> f64_add 0 (f64_mul 1000 (1 / 2))"
proof -
  let ?p = "pacer_set_rate (AttemptPacer_new counting_sem) (Some 1000)"
  have ok: "pacer_ok ?p" by (rule set_rate_ok) simp
  have p: "ap_rate ?p = Some 1000" "ap_tokens ?p = 0" "ap_carry ?p = 0"
    by (simp_all add: pacer_set_rate_def AttemptPacer_new_def)
  have e: "sem_available counting_sem (ap_tokens (refill counting_sem (1 / 2) ?p)) = 10" by code_simp
  from refill_bounded [OF counting.semaphore_axioms ok p(1), of "1 / 2"] show ?thesis
    using p e by (simp add: Let_def)
qed

text \<open>
  When the attempt limit is lifted, the next refill leaves a token for every caller that was
  already waiting, so none of them is stranded.
\<close>

theorem refill_releases_all:
  assumes "semaphore S" and "ap_rate p = None"
  shows "unat (ap_waiting p) \<le> sem_available S (ap_tokens (refill S seconds p))"
  using semaphore.refill_releases_waiters [OF assms] by simp

theorem refill_releases_all_witness:
  "3 \<le> sem_available counting_sem (ap_tokens (refill counting_sem 1 ((AttemptPacer_new counting_sem)\<lparr>ap_waiting := 3\<rparr>)))"
  using refill_releases_all [OF counting.semaphore_axioms, of "(AttemptPacer_new counting_sem)\<lparr>ap_waiting := 3\<rparr>" 1]
  by (simp add: AttemptPacer_new_def)

end
