(* ===== verification/Brake.thy ===== *)
theory Brake
  imports Judge Limiter
begin

text \<open>
  \<open>AttemptBrake\<close> of \<open>src/controller.rs\<close>: it paces attempts across the pool when per-attempt
  loss shows a shared bottleneck. The pacer it drives is shared with the workers, so it is not a
  field but passed along: an operation maps a pair of brake and pacer to the next pair. The early
  returns of \<open>tick\<close> are the definitions \<open>brake_idle\<close>, \<open>brake_wake\<close>, \<open>brake_gather\<close>,
  \<open>window_full\<close>, \<open>brake_window\<close>, \<open>brake_probe\<close>, \<open>brake_judge\<close>, composed in program order.
\<close>

section \<open>State\<close>

record Observation =
  ob_attempted :: u64
  ob_lost :: u64
  ob_responded :: u64

definition Observation_default :: Observation where
  "Observation_default = \<lparr>ob_attempted = 0, ob_lost = 0, ob_responded = 0\<rparr>"

definition ATTEMPT_MIN_RESOLVERS :: nat where "ATTEMPT_MIN_RESOLVERS = 8"
definition ATTEMPT_WINDOW_TIMEOUTS :: f64 where "ATTEMPT_WINDOW_TIMEOUTS = 4"
definition ATTEMPT_MIN_WINDOW :: u64 where "ATTEMPT_MIN_WINDOW = 500"
definition ATTEMPT_IDLE_QPS :: f64 where "ATTEMPT_IDLE_QPS = 20"
definition ATTEMPT_LOSS_THRESHOLD :: f64 where "ATTEMPT_LOSS_THRESHOLD = f64_lit (3 / 100)"
definition ATTEMPT_REFERENCE_BELOW :: f64 where "ATTEMPT_REFERENCE_BELOW = f64_lit (6 / 10)"
definition ATTEMPT_PROBE_FRACTION :: f64 where "ATTEMPT_PROBE_FRACTION = f64_lit (1 / 2)"
definition ATTEMPT_PROBE_WINDOWS :: u32 where "ATTEMPT_PROBE_WINDOWS = 2"
definition ATTEMPT_REFERENCE_WINDOW :: duration where "ATTEMPT_REFERENCE_WINDOW = 60000000000"
definition ATTEMPT_MAX_REFERENCE_WINDOW :: duration where "ATTEMPT_MAX_REFERENCE_WINDOW = 480000000000"
definition ATTEMPT_GOODPUT_FLOOR :: f64 where "ATTEMPT_GOODPUT_FLOOR = f64_lit (8 / 10)"
definition ATTEMPT_SHAPED_FRACTION :: f64 where "ATTEMPT_SHAPED_FRACTION = f64_lit (95 / 100)"
definition ATTEMPT_MIN_RATE :: f64 where "ATTEMPT_MIN_RATE = 10"
definition ATTEMPT_GROWTH :: f64 where "ATTEMPT_GROWTH = f64_lit (105 / 100)"

record Sample =
  sm_at :: instant
  sm_rate :: f64
  sm_loss :: f64
  sm_delivered :: f64

record Probe =
  pr_restore :: "f64 option"
  pr_windows :: u32

record AttemptBrake =
  ab_limit :: "f64 option"
  ab_window :: Observation
  ab_dispatched :: u64
  ab_seconds :: f64
  ab_unshaped_ticks :: u32
  ab_settling :: bool
  ab_idle_ticks :: u32
  ab_history :: "Sample list"
  ab_reference_window :: duration
  ab_probe :: "Probe option"
  ab_probed :: bool

type_synonym 's braked = "AttemptBrake \<times> 's AttemptPacer"

definition AttemptBrake_new :: AttemptBrake where
  "AttemptBrake_new =
     \<lparr>ab_limit = None, ab_window = Observation_default, ab_dispatched = 0, ab_seconds = 0,
      ab_unshaped_ticks = 0, ab_settling = True, ab_idle_ticks = 0, ab_history = [],
      ab_reference_window = ATTEMPT_REFERENCE_WINDOW, ab_probe = None, ab_probed = False\<rparr>"

section \<open>Operations\<close>

definition set_limit :: "f64 option \<Rightarrow> 's braked \<Rightarrow> 's braked" where
  "set_limit l0 bp =
     (case bp of (b, p) \<Rightarrow>
        let l = map_option (\<lambda>x. max x ATTEMPT_MIN_RATE) l0
        in (b\<lparr>ab_limit := l, ab_settling := True\<rparr>, pacer_set_rate p l))"

definition reset_window :: "AttemptBrake \<Rightarrow> AttemptBrake" where
  "reset_window b =
     b\<lparr>ab_window := Observation_default, ab_dispatched := 0, ab_seconds := 0, ab_unshaped_ticks := 0\<rparr>"

definition brake_record :: "instant \<Rightarrow> f64 \<Rightarrow> f64 \<Rightarrow> f64 \<Rightarrow> AttemptBrake \<Rightarrow> AttemptBrake" where
  "brake_record now r loss delivered b =
     (let h = ab_history b @ [\<lparr>sm_at = now, sm_rate = r, sm_loss = loss, sm_delivered = delivered\<rparr>]
      in b\<lparr>ab_history := dropWhile (\<lambda>s. ab_reference_window b < now - sm_at s) h\<rparr>)"

definition congested :: "AttemptBrake \<Rightarrow> f64 \<Rightarrow> f64 \<Rightarrow> bool option" where
  "congested b r loss =
     (let lower = map sm_loss (filter (\<lambda>s. sm_rate s \<le> f64_mul r ATTEMPT_REFERENCE_BELOW) (ab_history b))
      in if lower = [] then None
         else let reference = sort lower ! (length lower div 2)
              in Some (ATTEMPT_LOSS_THRESHOLD < loss \<and> f64_add reference ATTEMPT_LOSS_THRESHOLD < loss))"

definition brake_idle :: "'s braked \<Rightarrow> 's braked" where
  "brake_idle bp =
     (let bp1 = (case ab_probe (fst bp) of
                   Some pr \<Rightarrow> set_limit (pr_restore pr) ((fst bp)\<lparr>ab_probe := None\<rparr>, snd bp)
                 | None \<Rightarrow> bp)
      in (reset_window ((fst bp1)\<lparr>ab_idle_ticks := saturating_add (ab_idle_ticks (fst bp1)) 1\<rparr>), snd bp1))"

definition f64_of_u32 :: "u32 \<Rightarrow> f64" where "f64_of_u32 w = of_nat (unat w)"

definition brake_wake :: "f64 \<Rightarrow> 's braked \<Rightarrow> 's braked" where
  "brake_wake seconds bp =
     (let b = fst bp
      in if 0 < ab_idle_ticks b then
           let idle = f64_mul seconds (f64_of_u32 (ab_idle_ticks b));
               b1 = b\<lparr>ab_idle_ticks := 0, ab_settling := True\<rparr>
           in if as_secs_f64 ATTEMPT_REFERENCE_WINDOW \<le> idle then
                set_limit None (b1\<lparr>ab_history := [], ab_reference_window := ATTEMPT_REFERENCE_WINDOW,
                                   ab_probed := False\<rparr>, snd bp)
              else (b1, snd bp)
         else bp)"

definition brake_gather :: "f64 \<Rightarrow> u64 \<Rightarrow> u64 \<Rightarrow> u64 \<Rightarrow> 's braked \<Rightarrow> 's braked" where
  "brake_gather seconds attempted lost responded bp =
     (let b = fst bp;
          w = ab_window b
      in (b\<lparr>ab_window := w\<lparr>ob_lost := ob_lost w + lost, ob_responded := ob_responded w + responded\<rparr>,
            ab_dispatched := ab_dispatched b + attempted,
            ab_seconds := f64_add (ab_seconds b) seconds,
            ab_unshaped_ticks := (if ap_waiting (snd bp) = 0 then ab_unshaped_ticks b + 1 else ab_unshaped_ticks b)\<rparr>,
          snd bp))"

definition finished :: "AttemptBrake \<Rightarrow> u64" where
  "finished b = ob_lost (ab_window b) + ob_responded (ab_window b)"

definition window_full :: "f64 \<Rightarrow> AttemptBrake \<Rightarrow> bool" where
  "window_full longest_timeout b \<longleftrightarrow>
     \<not> (finished b < ATTEMPT_MIN_WINDOW \<or> ab_seconds b < f64_mul longest_timeout ATTEMPT_WINDOW_TIMEOUTS)"

definition brake_probe :: "Probe \<Rightarrow> instant \<Rightarrow> f64 \<Rightarrow> f64 \<Rightarrow> f64 \<Rightarrow> 's braked \<Rightarrow> 's braked" where
  "brake_probe pr now r loss delivered bp =
     (let b = brake_record now r loss delivered ((fst bp)\<lparr>ab_probe := None\<rparr>)
      in if 1 < pr_windows pr then (b\<lparr>ab_probe := Some (pr\<lparr>pr_windows := pr_windows pr - 1\<rparr>)\<rparr>, snd bp)
         else let bp1 = set_limit (pr_restore pr) (b, snd bp) in ((fst bp1)\<lparr>ab_probed := True\<rparr>, snd bp1))"

text \<open>What a judged window leads to when no probe is running.\<close>

definition brake_judge :: "instant \<Rightarrow> f64 \<Rightarrow> f64 \<Rightarrow> f64 \<Rightarrow> bool \<Rightarrow> 's braked \<Rightarrow> 's braked" where
  "brake_judge now r loss delivered shaped bp =
     (let (b, p) = bp
      in if ab_limit b \<noteq> None \<and> \<not> shaped then
           (if congested b r loss \<noteq> Some True then set_limit None (b, p) else (b, p))
         else
           let best_higher = foldl max 0 (map sm_delivered (filter (\<lambda>s. r < sm_rate s) (ab_history b)));
               b1 = brake_record now r loss delivered b
           in case congested b1 r loss of
                None \<Rightarrow>
                  set_limit (Some (f64_mul r ATTEMPT_PROBE_FRACTION))
                    (b1\<lparr>ab_probe := Some \<lparr>pr_restore = ab_limit b1, pr_windows = ATTEMPT_PROBE_WINDOWS\<rparr>\<rparr>, p)
              | Some c \<Rightarrow>
                  let b2 = (if ab_probed b1 \<and> \<not> c
                            then b1\<lparr>ab_probed := False,
                                    ab_reference_window := min (ab_reference_window b1 * 2) ATTEMPT_MAX_REFERENCE_WINDOW\<rparr>
                            else b1\<lparr>ab_probed := False\<rparr>)
                  in if c then
                       let b3 = b2\<lparr>ab_reference_window := ATTEMPT_REFERENCE_WINDOW\<rparr>
                       in if delivered < f64_mul best_higher ATTEMPT_GOODPUT_FLOOR then (b3, p)
                          else set_limit (Some (f64_mul r RETREAT)) (b3, p)
                     else case ab_limit b2 of
                            Some l \<Rightarrow> set_limit (Some (f64_mul l ATTEMPT_GROWTH)) (b2, p)
                          | None \<Rightarrow> (b2, p))"

text \<open>The three readings of the open window.\<close>

definition window_loss :: "AttemptBrake \<Rightarrow> f64" where
  "window_loss b = f64_div (f64_of_u64 (ob_lost (ab_window b))) (f64_of_u64 (finished b))"

definition window_sent :: "AttemptBrake \<Rightarrow> f64" where
  "window_sent b = f64_div (f64_of_u64 (ab_dispatched b)) (ab_seconds b)"

definition window_delivered :: "AttemptBrake \<Rightarrow> f64" where
  "window_delivered b = f64_div (f64_of_u64 (ob_responded (ab_window b))) (ab_seconds b)"

definition window_shaped :: "AttemptBrake \<Rightarrow> bool" where
  "window_shaped b =
     (case ab_limit b of
        None \<Rightarrow> True
      | Some l \<Rightarrow> ab_unshaped_ticks b = 0 \<or> f64_mul l ATTEMPT_SHAPED_FRACTION \<le> window_sent b)"

text \<open>A full window is closed; it is judged unless the rate is still settling.\<close>

definition brake_window :: "instant \<Rightarrow> 's braked \<Rightarrow> 's braked" where
  "brake_window now bp =
     (let b = fst bp;
          b1 = (reset_window b)\<lparr>ab_settling := False\<rparr>
      in if ab_settling b then (b1, snd bp)
         else let r = (case ab_limit b1 of Some l \<Rightarrow> l | None \<Rightarrow> window_sent b)
              in case ab_probe b1 of
                   Some pr \<Rightarrow> brake_probe pr now r (window_loss b) (window_delivered b) (b1, snd bp)
                 | None \<Rightarrow> brake_judge now r (window_loss b) (window_delivered b) (window_shaped b) (b1, snd bp))"

definition brake_tick ::
  "f64 \<Rightarrow> u64 \<Rightarrow> u64 \<Rightarrow> u64 \<Rightarrow> f64 \<Rightarrow> instant \<Rightarrow> 's braked \<Rightarrow> 's braked" where
  "brake_tick seconds attempted lost responded longest_timeout now bp =
     (if f64_of_u64 attempted < f64_mul ATTEMPT_IDLE_QPS seconds then brake_idle bp
      else let bp1 = brake_gather seconds attempted lost responded (brake_wake seconds bp)
           in if window_full longest_timeout (fst bp1) then brake_window now bp1 else bp1)"

section \<open>The invariant\<close>

text \<open>
  The pacer runs at the brake's limit, which is never below the floor; a probe has one or two
  windows left and remembers a limit that is not below the floor either, and none is running
  while the traffic is idle; references are kept between one and eight minutes.
\<close>

definition limit_ok :: "f64 option \<Rightarrow> bool" where
  "limit_ok l \<longleftrightarrow> (\<forall>x. l = Some x \<longrightarrow> ATTEMPT_MIN_RATE \<le> x)"

definition probe_ok :: "AttemptBrake \<Rightarrow> bool" where
  "probe_ok b \<longleftrightarrow> (\<forall>pr. ab_probe b = Some pr \<longrightarrow>
     limit_ok (pr_restore pr) \<and> (pr_windows pr = 1 \<or> pr_windows pr = 2) \<and> ab_idle_ticks b = 0)"

definition references_ok :: "AttemptBrake \<Rightarrow> bool" where
  "references_ok b \<longleftrightarrow>
     ATTEMPT_REFERENCE_WINDOW \<le> ab_reference_window b \<and> ab_reference_window b \<le> ATTEMPT_MAX_REFERENCE_WINDOW"

definition brake_ok :: "'s braked \<Rightarrow> bool" where
  "brake_ok bp \<longleftrightarrow> ap_rate (snd bp) = ab_limit (fst bp) \<and> limit_ok (ab_limit (fst bp)) \<and> pacer_ok (snd bp)
     \<and> probe_ok (fst bp) \<and> references_ok (fst bp)"

lemma limit_ok_None [simp]: "limit_ok None" by (simp add: limit_ok_def)

lemma limit_ok_max [simp]: "limit_ok (map_option (\<lambda>x. max x ATTEMPT_MIN_RATE) l)"
  by (auto simp: limit_ok_def)

lemma limit_ok_Some_max [simp]: "limit_ok (Some (max x ATTEMPT_MIN_RATE))"
  by (simp add: limit_ok_def)

lemma limit_ok_restore: "limit_ok l \<Longrightarrow> map_option (\<lambda>x. max x ATTEMPT_MIN_RATE) l = l"
  by (cases l) (auto simp: limit_ok_def)

lemma set_limit_simps [simp]:
  "ab_limit (fst (set_limit l bp)) = map_option (\<lambda>x. max x ATTEMPT_MIN_RATE) l"
  "ab_probe (fst (set_limit l bp)) = ab_probe (fst bp)" "ab_settling (fst (set_limit l bp))"
  "ab_idle_ticks (fst (set_limit l bp)) = ab_idle_ticks (fst bp)"
  "ab_reference_window (fst (set_limit l bp)) = ab_reference_window (fst bp)"
  "ab_history (fst (set_limit l bp)) = ab_history (fst bp)"
  "ap_rate (snd (set_limit l bp)) = map_option (\<lambda>x. max x ATTEMPT_MIN_RATE) l"
  by (cases bp; simp add: set_limit_def Let_def pacer_set_rate_def)+

lemma brake_record_simps [simp]:
  "ab_limit (brake_record now r x d b) = ab_limit b" "ab_probe (brake_record now r x d b) = ab_probe b"
  "ab_idle_ticks (brake_record now r x d b) = ab_idle_ticks b" "ab_probed (brake_record now r x d b) = ab_probed b"
  "ab_reference_window (brake_record now r x d b) = ab_reference_window b"
  "ab_settling (brake_record now r x d b) = ab_settling b"
  by (simp_all add: brake_record_def Let_def)

lemma reset_window_simps [simp]:
  "ab_limit (reset_window b) = ab_limit b" "ab_probe (reset_window b) = ab_probe b"
  "ab_idle_ticks (reset_window b) = ab_idle_ticks b" "ab_probed (reset_window b) = ab_probed b"
  "ab_reference_window (reset_window b) = ab_reference_window b" "ab_settling (reset_window b) = ab_settling b"
  "ab_history (reset_window b) = ab_history b"
  by (simp_all add: reset_window_def)

lemma pacer_ok_set_limit: "pacer_ok (snd (set_limit l bp))"
proof -
  have "pacer_ok (pacer_set_rate p (map_option (\<lambda>x. max x ATTEMPT_MIN_RATE) l))" for p :: "'a AttemptPacer"
    by (rule set_rate_ok) (auto simp: ATTEMPT_MIN_RATE_def)
  then show ?thesis by (simp add: set_limit_def Let_def split: prod.splits)
qed

lemma set_limit_ok:
  "references_ok (fst bp) \<Longrightarrow> probe_ok (fst (set_limit l bp)) \<Longrightarrow> brake_ok (set_limit l bp)"
  by (simp add: brake_ok_def references_ok_def pacer_ok_set_limit)

lemma probe_ok_None: "ab_probe b = None \<Longrightarrow> probe_ok b"
  by (simp add: probe_ok_def)

lemma probe_ok_cong:
  "probe_ok b \<Longrightarrow> ab_probe b' = ab_probe b \<Longrightarrow> ab_limit b' = ab_limit b \<Longrightarrow> ab_idle_ticks b' = ab_idle_ticks b \<Longrightarrow> probe_ok b'"
  by (simp add: probe_ok_def)

lemma brake_ok_frame:
  "brake_ok (b, p) \<Longrightarrow> ab_probe b' = ab_probe b \<Longrightarrow> ab_limit b' = ab_limit b \<Longrightarrow> ab_idle_ticks b' = ab_idle_ticks b
     \<Longrightarrow> references_ok b' \<Longrightarrow> brake_ok (b', p)"
  by (auto simp: brake_ok_def intro: probe_ok_cong)

lemma references_frame: "references_ok b \<Longrightarrow> ab_reference_window b' = ab_reference_window b \<Longrightarrow> references_ok b'"
  by (simp add: references_ok_def)

lemma references_okI:
  "ab_reference_window b = ATTEMPT_REFERENCE_WINDOW \<Longrightarrow> references_ok b"
  "references_ok b0 \<Longrightarrow> ab_reference_window b = min (ab_reference_window b0 * 2) ATTEMPT_MAX_REFERENCE_WINDOW
     \<Longrightarrow> references_ok b"
  by (auto simp: references_ok_def ATTEMPT_REFERENCE_WINDOW_def ATTEMPT_MAX_REFERENCE_WINDOW_def)

lemma references_bounds:
  "references_ok b \<Longrightarrow> ATTEMPT_REFERENCE_WINDOW \<le> ab_reference_window b"
  "ATTEMPT_REFERENCE_WINDOW \<le> ATTEMPT_MAX_REFERENCE_WINDOW"
  "references_ok b \<longleftrightarrow> ATTEMPT_REFERENCE_WINDOW \<le> ab_reference_window b
     \<and> ab_reference_window b \<le> ATTEMPT_MAX_REFERENCE_WINDOW"
  by (auto simp: references_ok_def ATTEMPT_REFERENCE_WINDOW_def ATTEMPT_MAX_REFERENCE_WINDOW_def)

lemma brake_ok_new: "brake_ok (AttemptBrake_new, AttemptPacer_new S)"
  by (simp add: brake_ok_def AttemptBrake_new_def AttemptPacer_new_ok [unfolded pacer_ok_def] pacer_ok_def
      probe_ok_def references_okI) (simp add: AttemptPacer_new_def)

lemma brake_idle_ok: "brake_ok bp \<Longrightarrow> brake_ok (brake_idle bp)"
proof (cases "ab_probe (fst bp)")
  case None
  assume "brake_ok bp"
  then show ?thesis using None
    by (auto simp: brake_idle_def Let_def brake_ok_def references_ok_def probe_ok_def split: prod.splits)
next
  case (Some pr)
  assume "brake_ok bp"
  then have "brake_ok (set_limit (pr_restore pr) ((fst bp)\<lparr>ab_probe := None\<rparr>, snd bp))"
    by (intro set_limit_ok) (auto simp: brake_ok_def references_ok_def probe_ok_def)
  then show ?thesis using Some
    by (auto simp: brake_idle_def Let_def brake_ok_def references_ok_def probe_ok_def split: prod.splits)
qed

lemma brake_wake_ok: "brake_ok bp \<Longrightarrow> brake_ok (brake_wake seconds bp)"
proof -
  assume ok: "brake_ok bp"
  have none: "0 < ab_idle_ticks (fst bp) \<Longrightarrow> ab_probe (fst bp) = None"
    using ok by (cases "ab_probe (fst bp)") (auto simp: brake_ok_def probe_ok_def)
  show ?thesis
    unfolding brake_wake_def Let_def
    using ok none by (auto simp: brake_ok_def references_ok_def probe_ok_def
        intro!: set_limit_ok [unfolded brake_ok_def references_ok_def] references_okI(1)
        simp: ATTEMPT_REFERENCE_WINDOW_def ATTEMPT_MAX_REFERENCE_WINDOW_def pacer_ok_set_limit)
qed

lemma brake_wake_idle_0 [simp]: "ab_idle_ticks (fst (brake_wake seconds bp)) = 0"
  by (simp add: brake_wake_def Let_def word_gt_0)

lemma brake_gather_simps [simp]:
  "ab_limit (fst (brake_gather s a l r bp)) = ab_limit (fst bp)" "ab_probe (fst (brake_gather s a l r bp)) = ab_probe (fst bp)"
  "ab_idle_ticks (fst (brake_gather s a l r bp)) = ab_idle_ticks (fst bp)"
  "ab_settling (fst (brake_gather s a l r bp)) = ab_settling (fst bp)"
  "ab_reference_window (fst (brake_gather s a l r bp)) = ab_reference_window (fst bp)"
  "ab_history (fst (brake_gather s a l r bp)) = ab_history (fst bp)"
  "snd (brake_gather s a l r bp) = snd bp"
  by (simp_all add: brake_gather_def Let_def)

lemma brake_gather_ok: "brake_ok bp \<Longrightarrow> brake_ok (brake_gather s a l r bp)"
  by (auto simp: brake_ok_def intro: probe_ok_cong references_frame)

lemma brake_probe_ok:
  assumes "brake_ok (b, p)" and "ab_probe b = Some pr"
  shows "brake_ok (brake_probe pr now r x d (b, p))"
proof -
  have w: "pr_windows pr = 1 \<or> pr_windows pr = 2" "references_ok b" using assms by (auto simp: brake_ok_def probe_ok_def)
  let ?b = "brake_record now r x d (b\<lparr>ab_probe := None\<rparr>)"
  show ?thesis
  proof (cases "1 < pr_windows pr")
    case True
    then have "pr_windows pr = 2" using w by auto
    then show ?thesis using assms
      by (auto simp: brake_probe_def Let_def brake_ok_def probe_ok_def references_ok_def)
  next
    case False
    have "brake_ok (set_limit (pr_restore pr) (?b, p))"
      using w(2) by (intro set_limit_ok probe_ok_None) (auto simp: references_ok_def)
    then show ?thesis using False
      by (auto simp: brake_probe_def Let_def brake_ok_def probe_ok_def references_ok_def split: prod.splits)
  qed
qed

lemma brake_judge_ok:
  assumes ok: "brake_ok (b, p)" and "ab_probe b = None" "ab_idle_ticks b = 0"
  shows "brake_ok (brake_judge now r x d sh (b, p))"
proof -
  have ref: "references_ok b" and lim: "limit_ok (ab_limit b)" using ok by (simp_all add: brake_ok_def)
  let ?b1 = "brake_record now r x d b"
  show ?thesis
  proof (cases "ab_limit b \<noteq> None \<and> \<not> sh")
    case True
    then show ?thesis using ok ref assms(2)
      by (auto simp: brake_judge_def Let_def intro!: set_limit_ok probe_ok_None)
  next
    case shaped: False
    show ?thesis
    proof (cases "congested ?b1 r x")
      case None
      have "brake_ok (set_limit (Some (f64_mul r ATTEMPT_PROBE_FRACTION))
          (?b1\<lparr>ab_probe := Some \<lparr>pr_restore = ab_limit ?b1, pr_windows = ATTEMPT_PROBE_WINDOWS\<rparr>\<rparr>, p))"
        using ref lim assms(3)
        by (intro set_limit_ok) (auto simp: references_ok_def probe_ok_def ATTEMPT_PROBE_WINDOWS_def)
      then show ?thesis using shaped None by (auto simp: brake_judge_def Let_def)
    next
      case (Some c)
      then show ?thesis using shaped ok ref assms(2)
        by (cases c; cases "ab_limit b")
          (auto simp: brake_judge_def Let_def brake_ok_def probe_ok_None references_bounds pacer_ok_set_limit)
    qed
  qed
qed

lemma brake_window_ok:
  assumes "brake_ok bp" and "ab_idle_ticks (fst bp) = 0"
  shows "brake_ok (brake_window now bp)"
proof -
  let ?b1 = "(reset_window (fst bp))\<lparr>ab_settling := False\<rparr>"
  have ok: "brake_ok (?b1, snd bp)"
    using assms(1) by (auto simp: brake_ok_def intro: probe_ok_cong references_frame)
  show ?thesis
    by (auto simp: brake_window_def Let_def split: option.splits
        intro!: ok brake_probe_ok [OF ok] brake_judge_ok [OF ok]) (use assms(2) in simp_all)
qed

lemma brake_tick_ok: "brake_ok bp \<Longrightarrow> brake_ok (brake_tick s a l r t now bp)"
  by (auto simp: brake_tick_def Let_def brake_idle_ok brake_gather_ok brake_wake_ok intro!: brake_window_ok)

section \<open>Runs\<close>

text \<open>
  Everything that happens to the brake and its pacer: the controller's ticks, the pacer's own
  ticker, and callers that arrive, take a token or go away.
\<close>

datatype brake_event =
    BTick f64 u64 u64 u64 f64 instant
  | BRefill duration
  | BEnter
  | BTake
  | BCancel

fun brake_step :: "'s sem_ops \<Rightarrow> brake_event \<Rightarrow> 's braked \<Rightarrow> 's braked" where
  "brake_step S (BTick s a l r t now) bp = brake_tick s a l r t now bp"
| "brake_step S (BRefill d) bp = (fst bp, refill S (as_secs_f64 d) (snd bp))"
| "brake_step S BEnter bp = (fst bp, snd (pacer_enter (snd bp)))"
| "brake_step S BTake bp = (fst bp, case pacer_take S (snd bp) of Some p \<Rightarrow> p | None \<Rightarrow> snd bp)"
| "brake_step S BCancel bp = (fst bp, pacer_cancel (snd bp))"

lemma refill_rate [simp]: "ap_rate (refill S seconds p) = ap_rate p"
  by (simp add: refill_def Let_def split: option.splits)

lemma brake_step_ok: "brake_ok bp \<Longrightarrow> brake_ok (brake_step S ev bp)"
proof (cases ev)
  case (BRefill d)
  assume "brake_ok bp"
  then show ?thesis using BRefill refill_ok [of "snd bp" "as_secs_f64 d" S] by (simp add: brake_ok_def)
next
  case BEnter
  assume "brake_ok bp"
  then show ?thesis using BEnter by (auto simp: brake_ok_def pacer_enter_def pacer_ok_def)
next
  case BTake
  assume "brake_ok bp"
  then show ?thesis using BTake by (auto simp: brake_ok_def pacer_take_def pacer_ok_def split: option.splits)
next
  case BCancel
  assume "brake_ok bp"
  then show ?thesis using BCancel by (auto simp: brake_ok_def pacer_cancel_def pacer_ok_def)
qed (simp add: brake_tick_ok)

lemma brake_run_ok: "brake_ok bp \<Longrightarrow> brake_ok (fold (brake_step S) evs bp)"
  by (induction evs arbitrary: bp) (simp_all add: brake_step_ok)

section \<open>Cuts and probes\<close>

lemma brake_wake_awake: "ab_idle_ticks (fst bp) = 0 \<Longrightarrow> brake_wake seconds bp = bp"
  by (simp add: brake_wake_def)

lemma brake_wake_settles: "ab_idle_ticks (fst bp) \<noteq> 0 \<Longrightarrow> ab_settling (fst (brake_wake seconds bp))"
  by (simp add: brake_wake_def Let_def word_gt_0)

lemma growth_grows:
  assumes "ATTEMPT_MIN_RATE \<le> l"
  shows "l \<le> f64_mul l ATTEMPT_GROWTH"
proof -
  have g: "104 / 100 \<le> ATTEMPT_GROWTH" by code_simp
  have l: "10 \<le> l" using assms by (simp add: ATTEMPT_MIN_RATE_def)
  let ?x = "l * ATTEMPT_GROWTH"
  have x: "l * (104 / 100) \<le> ?x" using g l by (intro mult_left_mono) auto
  then have "1 / 2 \<le> ?x" using l by linarith
  then have "?x - ?x / 2 ^ 53 \<le> f64_mul l ATTEMPT_GROWTH" unfolding f64_mul_def by (rule b64.rnd_lower)
  moreover have "?x / 2 ^ 53 \<le> ?x / 100" using x l by (intro divide_left_mono) auto
  ultimately show ?thesis using x l by linarith
qed

lemma congested_loss: "congested b r x = Some True \<Longrightarrow> ATTEMPT_LOSS_THRESHOLD < x"
  by (auto simp: congested_def Let_def split: if_splits)

text \<open>The limit a judged window leaves, with no probe running.\<close>

lemma brake_judge_limit:
  assumes "ab_limit (fst (brake_judge now r x d sh (b, p))) = Some l'"
    and low: "ab_limit b = None \<or> (\<exists>l. ab_limit b = Some l \<and> ATTEMPT_MIN_RATE \<le> l \<and> l' < l)"
  shows "ab_probe (fst (brake_judge now r x d sh (b, p)))
           = Some \<lparr>pr_restore = ab_limit b, pr_windows = ATTEMPT_PROBE_WINDOWS\<rparr>
    \<or> (congested (brake_record now r x d b) r x = Some True \<and> l' = max (f64_mul r RETREAT) ATTEMPT_MIN_RATE)"
proof (cases "ab_limit b \<noteq> None \<and> \<not> sh")
  case True
  then show ?thesis using assms by (auto simp: brake_judge_def Let_def split: if_splits)
next
  case shaped: False
  show ?thesis
  proof (cases "congested (brake_record now r x d b) r x")
    case None
    then show ?thesis using shaped by (auto simp: brake_judge_def Let_def)
  next
    case (Some c)
    show ?thesis
    proof (cases c)
      case True
      then show ?thesis using Some shaped assms by (auto simp: brake_judge_def Let_def split: if_splits)
    next
      case False
      have "\<not> f64_mul l ATTEMPT_GROWTH < l" if "ATTEMPT_MIN_RATE \<le> l" for l
        using growth_grows [OF that] by simp
      then show ?thesis using False Some shaped assms
        by (cases "ab_limit b") (auto simp: brake_judge_def Let_def split: if_splits)
    qed
  qed
qed

lemma brake_tick_busy:
  assumes "\<not> f64_of_u64 a < f64_mul ATTEMPT_IDLE_QPS s" "ab_idle_ticks (fst bp) = 0"
  shows "brake_tick s a l r t now bp =
    (let bp1 = brake_gather s a l r bp in if window_full t (fst bp1) then brake_window now bp1 else bp1)"
  using assms by (simp add: brake_tick_def brake_wake_awake)

lemma brake_tick_judged:
  assumes "ab_probe (fst bp) = None" "ab_limit (fst (brake_tick s a l r t now bp)) = Some l'"
    and "ab_limit (fst bp) \<noteq> Some l'"
  obtains "brake_tick s a l r t now bp = brake_judge now
      (case ab_limit (fst bp) of Some x \<Rightarrow> x | None \<Rightarrow> window_sent (fst (brake_gather s a l r bp)))
      (window_loss (fst (brake_gather s a l r bp))) (window_delivered (fst (brake_gather s a l r bp)))
      (window_shaped (fst (brake_gather s a l r bp)))
      ((reset_window (fst (brake_gather s a l r bp)))\<lparr>ab_settling := False\<rparr>, snd bp)"
proof -
  have busy: "\<not> f64_of_u64 a < f64_mul ATTEMPT_IDLE_QPS s"
    using assms by (auto simp: brake_tick_def brake_idle_def Let_def)
  have keep: "ab_limit (fst (brake_wake s bp)) = None \<or> ab_limit (fst (brake_wake s bp)) = ab_limit (fst bp)"
    by (simp add: brake_wake_def Let_def)
  have probe: "ab_probe (fst (brake_wake s bp)) = None" using assms(1) by (simp add: brake_wake_def Let_def)
  have awake: "ab_idle_ticks (fst bp) = 0"
  proof (rule ccontr)
    assume "ab_idle_ticks (fst bp) \<noteq> 0"
    then have "ab_settling (fst (brake_wake s bp))" by (rule brake_wake_settles)
    then have "ab_limit (fst (brake_tick s a l r t now bp)) = ab_limit (fst (brake_wake s bp))"
      using busy by (simp add: brake_tick_def brake_window_def Let_def)
    then show False using keep assms(2,3) by auto
  qed
  let ?b = "fst (brake_gather s a l r bp)"
  have full: "window_full t ?b" "\<not> ab_settling ?b"
    using assms(2,3) brake_tick_busy [OF busy awake, of l r t now]
    by (auto simp: Let_def brake_window_def split: if_splits)
  show thesis
    by (rule that)
      (use full assms(1) brake_tick_busy [OF busy awake, of l r t now] in \<open>simp add: Let_def brake_window_def\<close>)
qed

definition probe_left :: "AttemptBrake \<Rightarrow> nat" where
  "probe_left b = (case ab_probe b of None \<Rightarrow> 0
     | Some pr \<Rightarrow> unat (pr_windows pr) + (if ab_settling b then 1 else 0))"

section \<open>Properties\<close>

text \<open>
  In every run of the brake, however ticks, refills, arrivals, departures and cancellations
  interleave: the pacer runs at exactly the brake's limit, the limit is never below the floor of
  ten attempts per second, a probe has at most two windows left and remembers a valid limit to
  restore, and the reference window stays between one and eight minutes.
\<close>

theorem brake_invariant:
  "brake_ok (fold (brake_step S) evs (AttemptBrake_new, AttemptPacer_new S))"
  by (intro brake_run_ok brake_ok_new)


definition lossy_brake :: "nat braked" where
  "lossy_brake =
     (AttemptBrake_new\<lparr>ab_settling := False, ab_dispatched := 750, ab_seconds := 3,
        ab_window := \<lparr>ob_attempted = 0, ob_lost = 400, ob_responded = 500\<rparr>,
        ab_history := [\<lparr>sm_at = 5, sm_rate = 100, sm_loss = 0, sm_delivered = 100\<rparr>]\<rparr>,
      AttemptPacer_new counting_sem)"


text \<open>
  C26. A probe cannot hold the rate down: it ends after at most three more closed windows. While
  one runs, a tick that closes no window changes neither it nor the limit; a tick that closes
  one brings it strictly closer to its end at an unchanged limit, or ends it; an idle tick ends
  it. When it ends, the limit is exactly the one from before the probe.
\<close>

theorem brake_probe_ends:
  assumes ok: "brake_ok bp" and pr: "ab_probe (fst bp) = Some pr"
    and t: "bp' = brake_tick s a l r t now bp"
  shows "probe_left (fst bp) \<le> 3
    \<and> ((ab_probe (fst bp') = None \<and> ab_limit (fst bp') = pr_restore pr)
       \<or> (\<exists>pr'. ab_probe (fst bp') = Some pr' \<and> pr_restore pr' = pr_restore pr \<and> ab_limit (fst bp') = ab_limit (fst bp)
            \<and> (if window_full t (fst (brake_gather s a l r bp)) then probe_left (fst bp') < probe_left (fst bp)
               else pr' = pr \<and> probe_left (fst bp') = probe_left (fst bp))))"
proof -
  have w: "pr_windows pr = 1 \<or> pr_windows pr = 2" and awake: "ab_idle_ticks (fst bp) = 0"
    and res: "limit_ok (pr_restore pr)"
    using ok pr by (auto simp: brake_ok_def probe_ok_def)
  have three: "probe_left (fst bp) \<le> 3" using w pr by (auto simp: probe_left_def)
  have u: "unat (2 :: u32) = 2" "unat (2 - 1 :: u32) = 1" by simp_all
  have restored: "ab_limit (fst (set_limit (pr_restore pr) x)) = pr_restore pr" for x :: "'a braked"
    using limit_ok_restore [OF res] by simp
  show ?thesis
  proof (cases "f64_of_u64 a < f64_mul ATTEMPT_IDLE_QPS s")
    case True
    then show ?thesis using three pr restored by (simp add: t brake_tick_def brake_idle_def Let_def)
  next
    case False
    note tick = brake_tick_busy [OF False awake, of l r t now]
    show ?thesis
    proof (cases "window_full t (fst (brake_gather s a l r bp))")
      case True
      then show ?thesis using three pr w restored
        by (auto simp: t tick Let_def brake_window_def brake_probe_def probe_left_def u)
    next
      case False
      then show ?thesis using three pr by (simp add: t tick Let_def probe_left_def)
    qed
  qed
qed

theorem brake_probe_ends_witness:
  "let bp = ((fst lossy_brake)\<lparr>ab_limit := Some 50, ab_probe := Some \<lparr>pr_restore = None, pr_windows = 1\<rparr>\<rparr>,
             pacer_set_rate (snd lossy_brake) (Some 50))
   in ab_limit (fst (brake_tick 1 250 112 12 1 10 bp)) = None"
proof -
  let ?bp = "((fst lossy_brake)\<lparr>ab_limit := Some 50, ab_probe := Some \<lparr>pr_restore = None, pr_windows = 1\<rparr>\<rparr>,
             pacer_set_rate (snd lossy_brake) (Some 50))"
  have ok: "brake_ok ?bp"
    using set_rate_ok [of "Some 50" "snd lossy_brake"] references_bounds(2)
    by (auto simp: lossy_brake_def brake_ok_def probe_ok_def references_ok_def limit_ok_def ATTEMPT_MIN_RATE_def
        AttemptBrake_new_def pacer_set_rate_def)
  have pr: "ab_probe (fst ?bp) = Some \<lparr>pr_restore = None, pr_windows = 1\<rparr>" by simp
  have w: "window_full 1 (fst (brake_gather 1 250 112 12 ?bp))" "\<not> f64_of_u64 250 < f64_mul ATTEMPT_IDLE_QPS 1"
    by code_simp+
  have "ab_idle_ticks (fst ?bp) = 0" "\<not> ab_settling (fst ?bp)" by (simp_all add: lossy_brake_def AttemptBrake_new_def)
  then have "ab_probe (fst (brake_tick 1 250 112 12 1 10 ?bp)) = None"
    using w pr by (simp add: brake_tick_busy Let_def brake_window_def brake_probe_def)
  then show ?thesis using brake_probe_ends [OF ok pr refl, of 1 250 112 12 1 10] by simp
qed

end
