(* ===== verification/Config.thy ===== *)
theory Config
  imports F64
begin

text \<open>
  \<open>src/config.rs\<close>: the client configuration, the shape it has at the Python boundary and the
  normalisation between them. Durations are in nanoseconds.
\<close>

definition from_millis :: "u64 \<Rightarrow> duration" where
  "from_millis ms = unat ms * 1000000"

definition from_secs :: "u64 \<Rightarrow> duration" where
  "from_secs s = unat s * 1000000000"

definition DEFAULT_MAX_INFLIGHT_PER_RESOLVER :: usize where
  "DEFAULT_MAX_INFLIGHT_PER_RESOLVER = 2"

definition DEFAULT_MAX_CONCURRENCY :: usize where
  "DEFAULT_MAX_CONCURRENCY = 256"

definition DEFAULT_REQUEST_TIMEOUT :: duration where
  "DEFAULT_REQUEST_TIMEOUT = from_millis 1000"

definition DEFAULT_MAX_RETRIES :: usize where
  "DEFAULT_MAX_RETRIES = 10"

definition DEFAULT_PURGATORY_THRESHOLD :: usize where
  "DEFAULT_PURGATORY_THRESHOLD = 10"

definition DEFAULT_PURGATORY_SENTENCE :: duration where
  "DEFAULT_PURGATORY_SENTENCE = from_millis 1000"

definition DEFAULT_CACHE_CAPACITY :: usize where
  "DEFAULT_CACHE_CAPACITY = 10000"

definition DEFAULT_CACHE_MIN_TTL :: duration where
  "DEFAULT_CACHE_MIN_TTL = from_secs 10"

definition DEFAULT_CACHE_MAX_TTL :: duration where
  "DEFAULT_CACHE_MAX_TTL = from_secs 86400"

record BlastDNSConfig =
  max_inflight_per_resolver :: usize
  max_concurrency :: usize
  rate_limit :: "f64 option"
  adaptive :: bool
  resolver_probe :: bool
  persistent_socket :: bool
  request_timeout :: duration
  max_retries :: usize
  purgatory_threshold :: usize
  purgatory_sentence :: duration
  cache_capacity :: usize
  cache_min_ttl :: duration
  cache_max_ttl :: duration

record BlastDNSConfigWire =
  w_max_inflight_per_resolver :: usize
  w_max_concurrency :: usize
  w_rate_limit :: "f64 option"
  w_adaptive :: bool
  w_resolver_probe :: bool
  w_persistent_socket :: bool
  w_request_timeout_ms :: u64
  w_max_retries :: usize
  w_purgatory_threshold :: usize
  w_purgatory_sentence_ms :: u64
  w_cache_capacity :: usize
  w_cache_min_ttl_secs :: u64
  w_cache_max_ttl_secs :: u64

definition config_from_wire :: "BlastDNSConfigWire \<Rightarrow> BlastDNSConfig" where
  "config_from_wire w =
     \<lparr>max_inflight_per_resolver = max (w_max_inflight_per_resolver w) 1,
      max_concurrency = max (w_max_concurrency w) 1,
      rate_limit = (case w_rate_limit w of Some r \<Rightarrow> if 0 < r then Some r else None | None \<Rightarrow> None),
      adaptive = w_adaptive w,
      resolver_probe = w_resolver_probe w,
      persistent_socket = w_persistent_socket w,
      request_timeout = from_millis (max (w_request_timeout_ms w) 1),
      max_retries = w_max_retries w,
      purgatory_threshold = w_purgatory_threshold w,
      purgatory_sentence = from_millis (max (w_purgatory_sentence_ms w) 1),
      cache_capacity = w_cache_capacity w,
      cache_min_ttl = from_secs (w_cache_min_ttl_secs w),
      cache_max_ttl = from_secs (w_cache_max_ttl_secs w)\<rparr>"

definition config_default :: BlastDNSConfig where
  "config_default =
     \<lparr>max_inflight_per_resolver = DEFAULT_MAX_INFLIGHT_PER_RESOLVER,
      max_concurrency = DEFAULT_MAX_CONCURRENCY,
      rate_limit = None,
      adaptive = True,
      resolver_probe = False,
      persistent_socket = False,
      request_timeout = DEFAULT_REQUEST_TIMEOUT,
      max_retries = DEFAULT_MAX_RETRIES,
      purgatory_threshold = DEFAULT_PURGATORY_THRESHOLD,
      purgatory_sentence = DEFAULT_PURGATORY_SENTENCE,
      cache_capacity = DEFAULT_CACHE_CAPACITY,
      cache_min_ttl = DEFAULT_CACHE_MIN_TTL,
      cache_max_ttl = DEFAULT_CACHE_MAX_TTL\<rparr>"

text \<open>
  What the rest of the crate relies on: at least one permit, a positive timeout and sentence,
  and a positive rate cap. Every configuration that crosses the Python boundary has it, and so
  does the default one.
\<close>

definition config_ok :: "BlastDNSConfig \<Rightarrow> bool" where
  "config_ok c \<longleftrightarrow> 1 \<le> max_inflight_per_resolver c \<and> 1 \<le> max_concurrency c
     \<and> (case rate_limit c of None \<Rightarrow> True | Some r \<Rightarrow> 0 < r)
     \<and> 0 < request_timeout c \<and> 0 < purgatory_sentence c"

lemma from_millis_pos: "0 < from_millis (max ms 1)"
proof -
  have "0 < unat (max ms (1 :: u64))" by (simp add: unat_max)
  then show ?thesis by (simp add: from_millis_def)
qed

lemma config_from_wire_ok: "config_ok (config_from_wire w)"
  by (simp add: config_ok_def config_from_wire_def from_millis_pos split: option.splits)

lemma config_default_ok: "config_ok config_default"
  by (simp add: config_ok_def config_default_def DEFAULT_MAX_INFLIGHT_PER_RESOLVER_def
      DEFAULT_MAX_CONCURRENCY_def DEFAULT_REQUEST_TIMEOUT_def DEFAULT_PURGATORY_SENTENCE_def
      from_millis_def)

end
