(* ===== verification/Net.thy ===== *)
theory Net
  imports Prelude
begin

text \<open>
  The part of \<open>std::net\<close> and \<open>str\<close> that the crate uses: IP and socket addresses, their
  parser (\<open>FromStr\<close>, a recursive-descent parser over bytes that restores its position when
  an alternative fails) and their \<open>Display\<close>, and \<open>trim\<close>. A Rust string is the list of its
  UTF-8 bytes. A parser returns the value and the rest of the input, or \<^term>\<open>None\<close> with the
  position restored.
\<close>

section \<open>Addresses\<close>

datatype IpAddr = V4 "u8 list" | V6 "u16 list"

fun ip_wf :: "IpAddr \<Rightarrow> bool" where
  "ip_wf (V4 os) = (length os = 4)"
| "ip_wf (V6 ss) = (length ss = 8)"

record SocketAddr =
  sa_ip :: IpAddr
  sa_port :: u16
  sa_scope :: u32

definition SocketAddr_new :: "IpAddr \<Rightarrow> u16 \<Rightarrow> SocketAddr" where
  "SocketAddr_new ip port = \<lparr>sa_ip = ip, sa_port = port, sa_scope = 0\<rparr>"

section \<open>Parsing\<close>

type_synonym 'a parser = "string \<Rightarrow> ('a \<times> string) option"

definition to_digit :: "int \<Rightarrow> char \<Rightarrow> int option" where
  "to_digit radix c =
     (let n = of_char c :: int;
          d = (if 48 \<le> n \<and> n \<le> 57 then n - 48
               else if 97 \<le> n \<and> n \<le> 122 then n - 87
               else if 65 \<le> n \<and> n \<le> 90 then n - 55 else 36)
      in if d < radix then Some d else None)"

fun read_given_char :: "char \<Rightarrow> unit parser" where
  "read_given_char t [] = None"
| "read_given_char t (c # cs) = (if c = t then Some ((), cs) else None)"

text \<open>The digit loop with a bound on the number of digits.\<close>

fun digits_max :: "int \<Rightarrow> nat \<Rightarrow> nat \<Rightarrow> int \<Rightarrow> (int \<times> nat) parser" where
  "digits_max radix m count acc [] = Some ((acc, count), [])"
| "digits_max radix m count acc (c # cs) =
     (case to_digit radix c of None \<Rightarrow> Some ((acc, count), c # cs)
      | Some d \<Rightarrow> if m < count + 1 then None else digits_max radix m (count + 1) (acc * radix + d) cs)"

text \<open>The digit loop with checked arithmetic below \<open>bound\<close>.\<close>

fun digits_checked :: "int \<Rightarrow> int \<Rightarrow> nat \<Rightarrow> int \<Rightarrow> (int \<times> nat) parser" where
  "digits_checked radix bound count acc [] = Some ((acc, count), [])"
| "digits_checked radix bound count acc (c # cs) =
     (case to_digit radix c of None \<Rightarrow> Some ((acc, count), c # cs)
      | Some d \<Rightarrow> if bound \<le> acc * radix \<or> bound \<le> acc * radix + d then None
                  else digits_checked radix bound (count + 1) (acc * radix + d) cs)"

definition has_leading_zero :: "string \<Rightarrow> bool" where
  "has_leading_zero s \<longleftrightarrow> s \<noteq> [] \<and> hd s = CHR ''0''"

definition read_number :: "int \<Rightarrow> nat option \<Rightarrow> bool \<Rightarrow> int \<Rightarrow> int parser" where
  "read_number radix max_digits allow_zero_prefix bound s =
     (case (case max_digits of Some m \<Rightarrow> digits_max radix m 0 0 s
            | None \<Rightarrow> digits_checked radix bound 0 0 s) of
        None \<Rightarrow> None
      | Some ((n, count), rest) \<Rightarrow>
          if count = 0 \<or> (\<not> allow_zero_prefix \<and> has_leading_zero s \<and> 1 < count) \<or> bound \<le> n
          then None else Some (n, rest))"

definition read_separator :: "char \<Rightarrow> nat \<Rightarrow> 'a parser \<Rightarrow> 'a parser" where
  "read_separator sep index inner s =
     (if 0 < index then (case read_given_char sep s of None \<Rightarrow> None | Some (_, t) \<Rightarrow> inner t) else inner s)"

fun read_octets :: "nat \<Rightarrow> nat \<Rightarrow> u8 list parser" where
  "read_octets i 0 s = Some ([], s)"
| "read_octets i (Suc n) s =
     (case read_separator (CHR ''.'') i (read_number 10 (Some 3) False 256) s of
        None \<Rightarrow> None
      | Some (x, t) \<Rightarrow>
          (case read_octets (Suc i) n t of None \<Rightarrow> None | Some (xs, u) \<Rightarrow> Some (of_int x # xs, u)))"

definition read_ipv4_addr :: "u8 list parser" where
  "read_ipv4_addr s = read_octets 0 4 s"

definition u16_be :: "u8 \<Rightarrow> u8 \<Rightarrow> u16" where
  "u16_be a b = of_int (uint a * 256 + uint b)"

fun octet_groups :: "u8 list \<Rightarrow> u16 list" where
  "octet_groups (a # b # xs) = u16_be a b # octet_groups xs"
| "octet_groups _ = []"

text \<open>
  \<open>read_groups\<close>: up to \<open>n\<close> more groups after \<open>i\<close>; the groups read, whether they end in an
  embedded IPv4 address, and the rest of the input.
\<close>

fun read_groups :: "nat \<Rightarrow> nat \<Rightarrow> string \<Rightarrow> u16 list \<times> bool \<times> string" where
  "read_groups i 0 s = ([], False, s)"
| "read_groups i (Suc n) s =
     (case (if 0 < n then read_separator (CHR '':'') i read_ipv4_addr s else None) of
        Some (os, t) \<Rightarrow> (octet_groups os, True, t)
      | None \<Rightarrow>
          (case read_separator (CHR '':'') i (read_number 16 (Some 4) True 65536) s of
             None \<Rightarrow> ([], False, s)
           | Some (g, t) \<Rightarrow>
               (case read_groups (Suc i) n t of (gs, v4, u) \<Rightarrow> (of_int g # gs, v4, u))))"

definition read_ipv6_addr :: "u16 list parser" where
  "read_ipv6_addr s =
     (case read_groups 0 8 s of (head_groups, head_ipv4, t) \<Rightarrow>
        if length head_groups = 8 then Some (head_groups, t)
        else if head_ipv4 then None
        else (case read_given_char (CHR '':'') t of None \<Rightarrow> None | Some (_, u) \<Rightarrow>
               (case read_given_char (CHR '':'') u of None \<Rightarrow> None | Some (_, v) \<Rightarrow>
                  (case read_groups 0 (8 - (length head_groups + 1)) v of (tail_groups, _, w) \<Rightarrow>
                     Some (head_groups @ replicate (8 - length head_groups - length tail_groups) 0
                           @ tail_groups, w)))))"

definition read_ip_addr :: "IpAddr parser" where
  "read_ip_addr s =
     (case read_ipv4_addr s of Some (os, t) \<Rightarrow> Some (V4 os, t)
      | None \<Rightarrow> (case read_ipv6_addr s of Some (ss, t) \<Rightarrow> Some (V6 ss, t) | None \<Rightarrow> None))"

definition read_port :: "int parser" where
  "read_port s =
     (case read_given_char (CHR '':'') s of None \<Rightarrow> None | Some (_, t) \<Rightarrow> read_number 10 None True 65536 t)"

definition read_scope_id :: "int parser" where
  "read_scope_id s =
     (case read_given_char (CHR ''%'') s of None \<Rightarrow> None | Some (_, t) \<Rightarrow> read_number 10 None True (2 ^ 32) t)"

definition read_socket_addr_v4 :: "SocketAddr parser" where
  "read_socket_addr_v4 s =
     (case read_ipv4_addr s of None \<Rightarrow> None | Some (os, t) \<Rightarrow>
        (case read_port t of None \<Rightarrow> None | Some (p, u) \<Rightarrow>
           Some (\<lparr>sa_ip = V4 os, sa_port = of_int p, sa_scope = 0\<rparr>, u)))"

definition read_socket_addr_v6 :: "SocketAddr parser" where
  "read_socket_addr_v6 s =
     (case read_given_char (CHR ''['') s of None \<Rightarrow> None | Some (_, t) \<Rightarrow>
        (case read_ipv6_addr t of None \<Rightarrow> None | Some (ss, u) \<Rightarrow>
           (case (case read_scope_id u of None \<Rightarrow> (0, u) | Some r \<Rightarrow> r) of (sc, v) \<Rightarrow>
              (case read_given_char (CHR '']'') v of None \<Rightarrow> None | Some (_, w) \<Rightarrow>
                 (case read_port w of None \<Rightarrow> None | Some (p, x) \<Rightarrow>
                    Some (\<lparr>sa_ip = V6 ss, sa_port = of_int p, sa_scope = of_int sc\<rparr>, x))))))"

definition read_socket_addr :: "SocketAddr parser" where
  "read_socket_addr s = (case read_socket_addr_v4 s of Some r \<Rightarrow> Some r | None \<Rightarrow> read_socket_addr_v6 s)"

text \<open>A parse succeeds when the whole input is used.\<close>

definition parse_with :: "'a parser \<Rightarrow> string \<Rightarrow> 'a option" where
  "parse_with p s = (case p s of Some (x, []) \<Rightarrow> Some x | _ \<Rightarrow> None)"

definition IpAddr_from_str :: "string \<Rightarrow> IpAddr option" where
  "IpAddr_from_str = parse_with read_ip_addr"

definition SocketAddr_from_str :: "string \<Rightarrow> SocketAddr option" where
  "SocketAddr_from_str = parse_with read_socket_addr"

section \<open>Display\<close>

definition digit_char :: "int \<Rightarrow> char" where
  "digit_char d = char_of (if d < 10 then 48 + d else 87 + d)"

function show_int :: "int \<Rightarrow> int \<Rightarrow> string" where
  "show_int radix n =
     (if radix < 2 \<or> n < radix then [digit_char n] else show_int radix (n div radix) @ [digit_char (n mod radix)])"
  by pat_completeness auto
termination
  by (relation "measure (\<lambda>(radix, n). nat n)") (auto intro!: int_div_less_self)

declare show_int.simps [simp del]

fun join :: "string \<Rightarrow> string list \<Rightarrow> string" where
  "join sep [] = []"
| "join sep [x] = x"
| "join sep (x # y # ys) = x @ sep @ join sep (y # ys)"

definition show_ipv4 :: "u8 list \<Rightarrow> string" where
  "show_ipv4 os = join ''.'' (map (\<lambda>x. show_int 10 (uint x)) os)"

text \<open>The first longest run of zero segments: \<open>(start, len)\<close>.\<close>

fun zero_span :: "nat \<Rightarrow> nat \<times> nat \<Rightarrow> nat \<times> nat \<Rightarrow> u16 list \<Rightarrow> nat \<times> nat" where
  "zero_span i longest current [] = longest"
| "zero_span i longest current (g # gs) =
     (if g = 0 then
        let current' = (if snd current = 0 then i else fst current, snd current + 1)
        in zero_span (Suc i) (if snd longest < snd current' then current' else longest) current' gs
      else zero_span (Suc i) longest (0, 0) gs)"

definition show_groups :: "u16 list \<Rightarrow> string" where
  "show_groups gs = join '':'' (map (\<lambda>g. show_int 16 (uint g)) gs)"

definition show_ipv6 :: "u16 list \<Rightarrow> string" where
  "show_ipv6 ss =
     (if take 6 ss = [0, 0, 0, 0, 0, 0xffff] then
        ''::ffff:'' @ join ''.'' (concat (map (\<lambda>g. [show_int 10 (uint g div 256), show_int 10 (uint g mod 256)]) (drop 6 ss)))
      else case zero_span 0 (0, 0) (0, 0) ss of (st, len) \<Rightarrow>
        if 1 < len then show_groups (take st ss) @ ''::'' @ show_groups (drop (st + len) ss)
        else show_groups ss)"

fun show_ip :: "IpAddr \<Rightarrow> string" where
  "show_ip (V4 os) = show_ipv4 os"
| "show_ip (V6 ss) = show_ipv6 ss"

definition show_socket_addr :: "SocketAddr \<Rightarrow> string" where
  "show_socket_addr a =
     (case sa_ip a of
        V4 os \<Rightarrow> show_ipv4 os @ '':'' @ show_int 10 (uint (sa_port a))
      | V6 ss \<Rightarrow> ''['' @ show_ipv6 ss
          @ (if sa_scope a = 0 then [] else ''%'' @ show_int 10 (uint (sa_scope a)))
          @ '']:'' @ show_int 10 (uint (sa_port a)))"

section \<open>Trimming\<close>

text \<open>The UTF-8 encodings of the characters with the property \<open>White_Space\<close>.\<close>

definition whitespace :: "string list" where
  "whitespace = map (map char_of)
     ([[9], [10], [11], [12], [13], [32], [0xC2, 0x85], [0xC2, 0xA0], [0xE1, 0x9A, 0x80]]
      @ map (\<lambda>b. [0xE2, 0x80, b])
          [0x80, 0x81, 0x82, 0x83, 0x84, 0x85, 0x86, 0x87, 0x88, 0x89, 0x8A, 0xA8, 0xA9, 0xAF :: int]
      @ [[0xE2, 0x81, 0x9F], [0xE3, 0x80, 0x80]])"

definition leading_ws :: "string list \<Rightarrow> string \<Rightarrow> nat" where
  "leading_ws ws s = (case filter (\<lambda>w. take (length w) s = w) ws of [] \<Rightarrow> 0 | w # _ \<Rightarrow> length w)"

function strip_ws :: "string list \<Rightarrow> string \<Rightarrow> string" where
  "strip_ws ws s = (if leading_ws ws s = 0 \<or> s = [] then s else strip_ws ws (drop (leading_ws ws s) s))"
  by pat_completeness auto
termination
  by (relation "measure (\<lambda>(ws, s). length s)") auto

declare strip_ws.simps [simp del]

definition trim :: "string \<Rightarrow> string" where
  "trim s = rev (strip_ws (map rev whitespace) (rev (strip_ws whitespace s)))"

definition trim_matches :: "(char \<Rightarrow> bool) \<Rightarrow> string \<Rightarrow> string" where
  "trim_matches P s = rev (dropWhile P (rev (dropWhile P s)))"

definition trim_end_matches :: "(char \<Rightarrow> bool) \<Rightarrow> string \<Rightarrow> string" where
  "trim_end_matches P s = rev (dropWhile P (rev s))"

end
