(* ===== verification/Errors.thy ===== *)
theory Errors
  imports Net
begin

text \<open>
  \<open>src/error.rs\<close>: the error type of the crate and its three classifications. The client
  and protocol errors of the DNS library keep the kinds that \<open>is_timeout\<close> tells apart; every
  other kind is one constructor with its rendering.
\<close>

datatype IoErrorKind = TimedOut | OtherIo string

datatype ProtoErrorKind = ProtoTimeout | OtherProto string

datatype ClientErrorKind =
    ClientTimeout
  | Io IoErrorKind
  | Proto ProtoErrorKind
  | OtherClient string

datatype BlastDNSError =
    NoResolvers
  | InvalidResolver string
  | InvalidHostname string ProtoErrorKind
  | QueueClosed
  | WorkerDropped
  | ResolverSetupFailed SocketAddr ProtoErrorKind
  | ResolverRequestFailed SocketAddr ClientErrorKind
  | QueryTimedOut SocketAddr duration
  | Configuration string

definition is_retryable :: "BlastDNSError \<Rightarrow> bool" where
  "is_retryable e =
     (case e of ResolverRequestFailed _ _ \<Rightarrow> True | QueryTimedOut _ _ \<Rightarrow> True | WorkerDropped \<Rightarrow> True
      | _ \<Rightarrow> False)"

definition is_congestion_evidence :: "BlastDNSError \<Rightarrow> bool" where
  "is_congestion_evidence e =
     (\<not> (case e of InvalidHostname _ _ \<Rightarrow> True | InvalidResolver _ \<Rightarrow> True | QueueClosed \<Rightarrow> True
         | Configuration _ \<Rightarrow> True | _ \<Rightarrow> False))"

definition is_timeout :: "BlastDNSError \<Rightarrow> bool" where
  "is_timeout e =
     (case e of
        QueryTimedOut _ _ \<Rightarrow> True
      | ResolverRequestFailed _ source \<Rightarrow>
          (case source of
             ClientTimeout \<Rightarrow> True
           | Io k \<Rightarrow> k = TimedOut
           | Proto k \<Rightarrow> k = ProtoTimeout
           | _ \<Rightarrow> False)
      | _ \<Rightarrow> False)"

lemmas error_class_defs = is_retryable_def is_congestion_evidence_def is_timeout_def

text \<open>A timeout is always worth a retry, and whatever is retried counts as evidence.\<close>

lemma is_timeout_retryable: "is_timeout e \<Longrightarrow> is_retryable e"
  by (cases e) (simp_all add: error_class_defs)

lemma is_retryable_congestion: "is_retryable e \<Longrightarrow> is_congestion_evidence e"
  by (cases e) (simp_all add: error_class_defs)

lemma is_retryable_simps [simp]:
  "is_retryable WorkerDropped" "is_retryable (QueryTimedOut a t)"
  "is_retryable (ResolverRequestFailed a k)" "\<not> is_retryable (InvalidHostname n p)"
  "\<not> is_retryable NoResolvers" "\<not> is_retryable QueueClosed"
  "\<not> is_retryable (ResolverSetupFailed a p)"
  "\<not> is_retryable (Configuration c)" "\<not> is_retryable (InvalidResolver r)"
  by (simp_all add: is_retryable_def)

end
