(* ===== verification/Dns.thy ===== *)
theory Dns
  imports Errors
begin

text \<open>
  The data of the DNS library that the crate passes around. A parsed name and the data of a
  record are represented by the text the library prints for them, which is all the crate
  reads, and names the library takes for equal (it ignores their case) by one text; how text is parsed into them is the library's and a parameter wherever it is used.
\<close>

type_synonym Name = string
type_synonym RData = string

datatype RecordType = RT_A | RT_AAAA | RT_NS | RT_CNAME | RT_SOA | RT_PTR | RT_MX | RT_TXT | RT_AXFR | RT_Other u16

datatype ResponseCode = NoError | FormErr | ServFail | NXDomain | NotImp | Refused | RC_Other u16

record DnsRecord =
  r_name :: Name
  r_type :: RecordType
  r_ttl :: u32
  r_data :: RData

type_synonym Query = "Name \<times> RecordType"

datatype MessageType = MT_Query | MT_Response

datatype OpCode = OC_Query | OC_Other u8

record DnsResponse =
  dr_id :: u16
  dr_message_type :: MessageType
  dr_op_code :: OpCode
  dr_authoritative :: bool
  dr_truncated :: bool
  dr_recursion_desired :: bool
  dr_recursion_available :: bool
  dr_authentic_data :: bool
  dr_checking_disabled :: bool
  dr_response_code :: ResponseCode
  dr_queries :: "Query list"
  dr_answers :: "DnsRecord list"

text \<open>A name with its trailing dot.\<close>

definition fqdn :: "string \<Rightarrow> string" where
  "fqdn host = (if host \<noteq> [] \<and> last host = CHR ''.'' then host else host @ ''.'')"

text \<open>The result of a lookup.\<close>

type_synonym result = "BlastDNSError + DnsResponse"

text \<open>A response with a given code and answers and nothing else set.\<close>

definition plain_response :: "ResponseCode \<Rightarrow> DnsRecord list \<Rightarrow> DnsResponse" where
  "plain_response rcode as =
     \<lparr>dr_id = 0, dr_message_type = MT_Response, dr_op_code = OC_Query, dr_authoritative = False, dr_truncated = False,
      dr_recursion_desired = True, dr_recursion_available = True, dr_authentic_data = False, dr_checking_disabled = False,
      dr_response_code = rcode, dr_queries = [], dr_answers = as\<rparr>"

lemma plain_response_simps [simp]:
  "dr_response_code (plain_response rcode as) = rcode" "dr_answers (plain_response rcode as) = as"
  "dr_truncated (plain_response rcode as) = False"
  by (simp_all add: plain_response_def)

end
