(* ===== verification/Health.thy ===== *)
theory Health
  imports Limiter Config Dns
begin

text \<open>
  The per-resolver half of \<open>src/health.rs\<close>: \<open>ResolverHealth\<close>, its counters, its purgatory
  and its round-trip statistics, and the operations that open its connections and send one
  query. A client handle of the DNS library is a number; how a connection attempt and a query
  end is the network's choice and an argument. Each counter update is an atomic access of the
  code; a recording function applies its accesses in program order.
\<close>

section \<open>State\<close>

type_synonym Client = nat

definition RTT_MIN_WINDOW :: duration where "RTT_MIN_WINDOW = 30000000000"
definition RTT_EWMA_SHIFT :: nat where "RTT_EWMA_SHIFT = 3"
definition PROBE_DEADLINE_FLOOR :: duration where "PROBE_DEADLINE_FLOOR = 2000000000"

record ResolverStats =
  rs_resolver :: string
  rs_attempted :: u64
  rs_answered :: u64
  rs_empty :: u64
  rs_timeout :: u64
  rs_error :: u64
  rs_rtt_mean_us :: u64
  rs_rtt_min_us :: u64
  rs_purgatory_entries :: u64
  rs_truncated :: u64
  rs_rate_qps :: "f64 option"

record 's ResolverHealth =
  rh_resolver :: SocketAddr
  rh_request_timeout :: duration
  rh_persistent_socket :: bool
  rh_purgatory_threshold :: usize
  rh_purgatory_sentence :: duration
  rh_client :: "Client option"
  rh_tcp_client :: "Client option"
  rh_inflight :: 's
  rh_limiter :: RateLimiter
  rh_start :: instant
  rh_active :: bool
  rh_attempted :: u64
  rh_answered :: u64
  rh_empty :: u64
  rh_timeout :: u64
  rh_error :: u64
  rh_consecutive_errors :: u64
  rh_benched_until_ns :: u64
  rh_purgatory_entries :: u64
  rh_truncated :: u64
  rh_rtt_ewma_us :: u64
  rh_rtt_min_us :: u64
  rh_rtt_min_window_ns :: u64

definition ResolverHealth_new ::
  "'s sem_ops \<Rightarrow> SocketAddr \<Rightarrow> BlastDNSConfig \<Rightarrow> instant \<Rightarrow> instant \<Rightarrow> 's ResolverHealth option" where
  "ResolverHealth_new S resolver config start now =
     map_option (\<lambda>limiter.
       \<lparr>rh_resolver = resolver,
        rh_request_timeout = request_timeout config,
        rh_persistent_socket = persistent_socket config,
        rh_purgatory_threshold = purgatory_threshold config,
        rh_purgatory_sentence = purgatory_sentence config,
        rh_client = None, rh_tcp_client = None,
        rh_inflight = sem_new S (unat (max (max_inflight_per_resolver config) 1)),
        rh_limiter = limiter, rh_start = start, rh_active = True,
        rh_attempted = 0, rh_answered = 0, rh_empty = 0, rh_timeout = 0, rh_error = 0,
        rh_consecutive_errors = 0, rh_benched_until_ns = 0, rh_purgatory_entries = 0,
        rh_truncated = 0, rh_rtt_ewma_us = 0, rh_rtt_min_us = 0, rh_rtt_min_window_ns = 0\<rparr>)
       (RateLimiter_new UNLIMITED_QPS now)"

definition now_ns :: "'s ResolverHealth \<Rightarrow> instant \<Rightarrow> u64" where
  "now_ns h now = of_nat (now - rh_start h)"

section \<open>Capacity, pacing and the bench\<close>

definition try_acquire :: "'s sem_ops \<Rightarrow> 's ResolverHealth \<Rightarrow> 's ResolverHealth option" where
  "try_acquire S h = map_option (\<lambda>p. h\<lparr>rh_inflight := p\<rparr>) (sem_try_acquire S (rh_inflight h))"

definition drop_permit :: "'s sem_ops \<Rightarrow> 's ResolverHealth \<Rightarrow> 's ResolverHealth" where
  "drop_permit S h = h\<lparr>rh_inflight := sem_add_permits S 1 (rh_inflight h)\<rparr>"

definition health_rate :: "'s ResolverHealth \<Rightarrow> f64" where
  "health_rate h = rate (rh_limiter h)"

definition health_set_rate :: "'s ResolverHealth \<Rightarrow> f64 \<Rightarrow> 's ResolverHealth option" where
  "health_set_rate h q = map_option (\<lambda>l. h\<lparr>rh_limiter := l\<rparr>) (set_rate (rh_limiter h) q)"

definition acquire_rate :: "'s ResolverHealth \<Rightarrow> instant \<Rightarrow> duration option \<times> 's ResolverHealth" where
  "acquire_rate h now =
     (case acquire (rh_limiter h) now of (_, d, l) \<Rightarrow> (d, h\<lparr>rh_limiter := l\<rparr>))"

definition is_benched :: "'s ResolverHealth \<Rightarrow> instant \<Rightarrow> bool" where
  "is_benched h now \<longleftrightarrow> now_ns h now < rh_benched_until_ns h"

section \<open>Connections and queries\<close>

text \<open>
  What the sockets and the DNS library do when asked to connect: binding a local address, and
  building a client over UDP, over a bound UDP socket and over TCP.
\<close>

record connector =
  cn_bind :: "SocketAddr \<Rightarrow> string + unit"
  cn_udp :: "SocketAddr \<Rightarrow> duration \<Rightarrow> ProtoErrorKind + Client"
  cn_bound :: "SocketAddr \<Rightarrow> ProtoErrorKind + Client"
  cn_tcp :: "SocketAddr \<Rightarrow> duration \<Rightarrow> ProtoErrorKind + Client"

definition setup_failed :: "'s ResolverHealth \<Rightarrow> ProtoErrorKind + Client \<Rightarrow> BlastDNSError + Client" where
  "setup_failed h r = map_sum (ResolverSetupFailed (rh_resolver h)) id r"

definition connect_per_query :: "connector \<Rightarrow> 's ResolverHealth \<Rightarrow> BlastDNSError + Client" where
  "connect_per_query cn h = setup_failed h (cn_udp cn (rh_resolver h) (rh_request_timeout h))"

definition connect_persistent :: "connector \<Rightarrow> 's ResolverHealth \<Rightarrow> BlastDNSError + Client" where
  "connect_persistent cn h =
     (let bind = (case sa_ip (rh_resolver h) of
                    V4 _ \<Rightarrow> SocketAddr_new (V4 (replicate 4 0)) 0
                  | V6 _ \<Rightarrow> SocketAddr_new (V6 (replicate 8 0)) 0)
      in case cn_bind cn bind of
           Inl e \<Rightarrow> Inl (Configuration (''failed to bind socket for '' @ show_socket_addr (rh_resolver h)
                          @ '': '' @ e))
         | Inr _ \<Rightarrow> setup_failed h (cn_bound cn (rh_resolver h)))"

definition connect :: "connector \<Rightarrow> 's ResolverHealth \<Rightarrow> BlastDNSError + Client" where
  "connect cn h = (if rh_persistent_socket h then connect_persistent cn h else connect_per_query cn h)"

text \<open>\<open>OnceCell::get_or_try_init\<close>: the first success is kept, a failure leaves the cell empty.\<close>

definition client :: "connector \<Rightarrow> 's ResolverHealth \<Rightarrow> (BlastDNSError + Client) \<times> 's ResolverHealth" where
  "client cn h =
     (case rh_client h of
        Some c \<Rightarrow> (Inr c, h)
      | None \<Rightarrow> (case connect cn h of
                   Inl e \<Rightarrow> (Inl e, h)
                 | Inr c \<Rightarrow> (Inr c, h\<lparr>rh_client := Some c\<rparr>)))"

definition tcp_client :: "connector \<Rightarrow> 's ResolverHealth \<Rightarrow> (BlastDNSError + Client) \<times> 's ResolverHealth" where
  "tcp_client cn h =
     (case rh_tcp_client h of
        Some c \<Rightarrow> (Inr c, h)
      | None \<Rightarrow> (case setup_failed h (cn_tcp cn (rh_resolver h) (rh_request_timeout h)) of
                   Inl e \<Rightarrow> (Inl e, h)
                 | Inr c \<Rightarrow> (Inr c, h\<lparr>rh_tcp_client := Some c\<rparr>)))"

text \<open>
  How the library's query future ends: with a result after some time, or never. The
  surrounding \<open>timeout\<close> lets a result through that is there when the deadline fires.
\<close>

datatype query_end = Ends "ClientErrorKind + DnsResponse" duration | Never

definition query_within ::
  "connector \<Rightarrow> 's ResolverHealth \<Rightarrow> query_end \<Rightarrow> duration \<Rightarrow> (BlastDNSError + DnsResponse) \<times> 's ResolverHealth" where
  "query_within cn h outcome deadline =
     (case client cn h of
        (Inl e, h') \<Rightarrow> (Inl e, h')
      | (Inr _, h') \<Rightarrow>
          (case outcome of
             Ends r t \<Rightarrow>
               if t \<le> deadline then
                 (case r of Inr response \<Rightarrow> (Inr response, h')
                  | Inl source \<Rightarrow> (Inl (ResolverRequestFailed (rh_resolver h) source), h'))
               else (Inl (QueryTimedOut (rh_resolver h) deadline), h')
           | Never \<Rightarrow> (Inl (QueryTimedOut (rh_resolver h) deadline), h')))"

definition query_bounded ::
  "connector \<Rightarrow> 's ResolverHealth \<Rightarrow> query_end \<Rightarrow> (BlastDNSError + DnsResponse) \<times> 's ResolverHealth" where
  "query_bounded cn h outcome = query_within cn h outcome (rh_request_timeout h)"

definition health_probe :: "connector \<Rightarrow> query_end \<Rightarrow> 's ResolverHealth \<Rightarrow> bool \<times> 's ResolverHealth" where
  "health_probe cn outcome h =
     (let deadline = max (rh_request_timeout h) PROBE_DEADLINE_FLOOR
      in case query_within cn h outcome deadline of
           (Inr _, h') \<Rightarrow> (True, h')
         | (Inl _, h') \<Rightarrow> (False, h'\<lparr>rh_active := False\<rparr>))"

section \<open>Recording\<close>

definition record_truncated :: "'s ResolverHealth \<Rightarrow> 's ResolverHealth" where
  "record_truncated h = h\<lparr>rh_truncated := rh_truncated h + 1\<rparr>"

definition record_dispatch :: "'s ResolverHealth \<Rightarrow> 's ResolverHealth" where
  "record_dispatch h = h\<lparr>rh_attempted := rh_attempted h + 1\<rparr>"

definition decay_errors :: "'s ResolverHealth \<Rightarrow> 's ResolverHealth" where
  "decay_errors h = h\<lparr>rh_consecutive_errors := saturating_sub (rh_consecutive_errors h) 1\<rparr>"

definition rtt_ewma :: "u64 \<Rightarrow> u64 \<Rightarrow> u64" where
  "rtt_ewma previous sample =
     (if previous = 0 then sample
      else previous - drop_bit RTT_EWMA_SHIFT previous + drop_bit RTT_EWMA_SHIFT sample)"

definition rtt_sample :: "duration \<Rightarrow> u64" where
  "rtt_sample rtt = max (of_nat (rtt div 1000)) 1"

definition record_rtt :: "'s ResolverHealth \<Rightarrow> duration \<Rightarrow> instant \<Rightarrow> 's ResolverHealth" where
  "record_rtt h rtt now =
     (let sample = rtt_sample rtt;
          h1 = h\<lparr>rh_rtt_ewma_us := max (rtt_ewma (rh_rtt_ewma_us h) sample) 1\<rparr>;
          t = now_ns h now;
          current_min = rh_rtt_min_us h;
          lapsed = (of_nat RTT_MIN_WINDOW < saturating_sub t (rh_rtt_min_window_ns h))
      in if current_min = 0 \<or> lapsed then h1\<lparr>rh_rtt_min_us := sample, rh_rtt_min_window_ns := t\<rparr>
         else if sample < current_min then h1\<lparr>rh_rtt_min_us := sample\<rparr>
         else h1)"

definition record_response :: "'s ResolverHealth \<Rightarrow> duration \<Rightarrow> bool \<Rightarrow> instant \<Rightarrow> 's ResolverHealth" where
  "record_response h rtt had_answers now =
     (let h1 = (if had_answers then h\<lparr>rh_answered := rh_answered h + 1\<rparr> else h\<lparr>rh_empty := rh_empty h + 1\<rparr>)
      in record_rtt (decay_errors h1) rtt now)"

definition record_error :: "'s ResolverHealth \<Rightarrow> bool \<Rightarrow> instant \<Rightarrow> 's ResolverHealth" where
  "record_error h timed_out now =
     (let h1 = (if timed_out then h\<lparr>rh_timeout := rh_timeout h + 1\<rparr> else h\<lparr>rh_error := rh_error h + 1\<rparr>);
          consecutive = rh_consecutive_errors h1 + 1;
          h2 = h1\<lparr>rh_consecutive_errors := consecutive\<rparr>
      in if rh_purgatory_threshold h2 = 0 \<or> consecutive < rh_purgatory_threshold h2 then h2
         else if rh_purgatory_sentence h2 = 0 then h2
         else h2\<lparr>rh_benched_until_ns := now_ns h2 now + of_nat (rh_purgatory_sentence h2),
                 rh_purgatory_entries := rh_purgatory_entries h2 + 1,
                 rh_consecutive_errors := 0\<rparr>)"

definition health_stats :: "'s ResolverHealth \<Rightarrow> ResolverStats" where
  "health_stats h =
     \<lparr>rs_resolver = show_socket_addr (rh_resolver h),
      rs_attempted = rh_attempted h, rs_answered = rh_answered h, rs_empty = rh_empty h,
      rs_timeout = rh_timeout h, rs_error = rh_error h,
      rs_rtt_mean_us = rh_rtt_ewma_us h, rs_rtt_min_us = rh_rtt_min_us h,
      rs_purgatory_entries = rh_purgatory_entries h, rs_truncated = rh_truncated h,
      rs_rate_qps = (let r = rate (rh_limiter h) in if r < UNLIMITED_QPS then Some r else None)\<rparr>"

section \<open>Accounting\<close>

text \<open>Every finished query is in exactly one of the four outcome counters.\<close>

definition outcomes_of :: "'s ResolverHealth \<Rightarrow> u64" where
  "outcomes_of h = rh_answered h + rh_empty h + rh_timeout h + rh_error h"

lemma record_rtt_frame [frame]:
  "rh_attempted (record_rtt h rtt now) = rh_attempted h"
  "rh_answered (record_rtt h rtt now) = rh_answered h"
  "rh_empty (record_rtt h rtt now) = rh_empty h"
  "rh_timeout (record_rtt h rtt now) = rh_timeout h"
  "rh_error (record_rtt h rtt now) = rh_error h"
  "rh_consecutive_errors (record_rtt h rtt now) = rh_consecutive_errors h"
  "rh_benched_until_ns (record_rtt h rtt now) = rh_benched_until_ns h"
  "rh_purgatory_entries (record_rtt h rtt now) = rh_purgatory_entries h"
  "rh_purgatory_threshold (record_rtt h rtt now) = rh_purgatory_threshold h"
  "rh_purgatory_sentence (record_rtt h rtt now) = rh_purgatory_sentence h"
  "rh_inflight (record_rtt h rtt now) = rh_inflight h"
  "rh_limiter (record_rtt h rtt now) = rh_limiter h"
  "rh_active (record_rtt h rtt now) = rh_active h"
  "rh_start (record_rtt h rtt now) = rh_start h"
  by (simp_all add: record_rtt_def Let_def)

lemma record_response_frame [frame]:
  "rh_attempted (record_response h rtt a now) = rh_attempted h"
  "rh_timeout (record_response h rtt a now) = rh_timeout h"
  "rh_error (record_response h rtt a now) = rh_error h"
  "rh_benched_until_ns (record_response h rtt a now) = rh_benched_until_ns h"
  "rh_purgatory_entries (record_response h rtt a now) = rh_purgatory_entries h"
  "rh_purgatory_threshold (record_response h rtt a now) = rh_purgatory_threshold h"
  "rh_purgatory_sentence (record_response h rtt a now) = rh_purgatory_sentence h"
  "rh_inflight (record_response h rtt a now) = rh_inflight h"
  "rh_limiter (record_response h rtt a now) = rh_limiter h"
  "rh_active (record_response h rtt a now) = rh_active h"
  "rh_start (record_response h rtt a now) = rh_start h"
  "rh_consecutive_errors (record_response h rtt a now) = saturating_sub (rh_consecutive_errors h) 1"
  by (simp_all add: record_response_def Let_def frame decay_errors_def)

lemma record_error_frame [frame]:
  "rh_attempted (record_error h b now) = rh_attempted h"
  "rh_answered (record_error h b now) = rh_answered h"
  "rh_empty (record_error h b now) = rh_empty h"
  "rh_purgatory_threshold (record_error h b now) = rh_purgatory_threshold h"
  "rh_purgatory_sentence (record_error h b now) = rh_purgatory_sentence h"
  "rh_inflight (record_error h b now) = rh_inflight h"
  "rh_limiter (record_error h b now) = rh_limiter h"
  "rh_active (record_error h b now) = rh_active h"
  "rh_start (record_error h b now) = rh_start h"
  "rh_rtt_ewma_us (record_error h b now) = rh_rtt_ewma_us h"
  "rh_rtt_min_us (record_error h b now) = rh_rtt_min_us h"
  by (simp_all add: record_error_def Let_def)

lemma outcomes_record_response: "outcomes_of (record_response h rtt a now) = outcomes_of h + 1"
  by (simp add: outcomes_of_def record_response_def Let_def frame decay_errors_def)

lemma outcomes_record_error: "outcomes_of (record_error h b now) = outcomes_of h + 1"
  by (simp add: outcomes_of_def record_error_def Let_def)

lemma outcomes_record_dispatch:
  "outcomes_of (record_dispatch h) = outcomes_of h" "rh_attempted (record_dispatch h) = rh_attempted h + 1"
  by (simp_all add: outcomes_of_def record_dispatch_def)

section \<open>Purgatory\<close>

lemma unat_now_ns: "now - rh_start h < 2 ^ 64 \<Longrightarrow> unat (now_ns h now) = now - rh_start h"
  unfolding now_ns_def by (rule unat_of_nat_u64)

text \<open>With purgatory on, the error count stays below the threshold.\<close>

definition purgatory_ok :: "'s ResolverHealth \<Rightarrow> bool" where
  "purgatory_ok h \<longleftrightarrow>
     (rh_purgatory_threshold h \<noteq> 0 \<and> rh_purgatory_sentence h \<noteq> 0
        \<longrightarrow> rh_consecutive_errors h < rh_purgatory_threshold h)"

lemma saturating_sub_1_less: "a < t \<Longrightarrow> saturating_sub a 1 < (t :: u64)"
  by (simp add: word_less_nat_alt u64_simps)

lemma purgatory_ok_new: "ResolverHealth_new S r c st now = Some h \<Longrightarrow> purgatory_ok h"
  by (auto simp: ResolverHealth_new_def purgatory_ok_def word_neq_0_conv)

lemma purgatory_ok_response: "purgatory_ok h \<Longrightarrow> purgatory_ok (record_response h rtt a now)"
  by (auto simp: purgatory_ok_def frame saturating_sub_1_less)

lemma purgatory_ok_error: "purgatory_ok h \<Longrightarrow> purgatory_ok (record_error h b now)"
  by (auto simp: purgatory_ok_def record_error_def Let_def word_neq_0_conv)

text \<open>One error below the threshold only counts; the error that reaches it benches.\<close>

lemma record_error_counts:
  assumes "purgatory_ok h" "rh_purgatory_threshold h \<noteq> 0" "rh_purgatory_sentence h \<noteq> 0"
    and "unat (rh_consecutive_errors h) + 1 < unat (rh_purgatory_threshold h)"
  shows "unat (rh_consecutive_errors (record_error h b now)) = unat (rh_consecutive_errors h) + 1"
    and "rh_purgatory_entries (record_error h b now) = rh_purgatory_entries h"
    and "rh_benched_until_ns (record_error h b now) = rh_benched_until_ns h"
proof -
  have "unat (rh_purgatory_threshold h) < 2 ^ 64"
    using unsigned_less [of "rh_purgatory_threshold h", where ?'a = nat] by simp
  then have n: "unat (rh_consecutive_errors h + 1) = unat (rh_consecutive_errors h) + 1"
    using assms(4) by (subst unat_add_no_wrap) auto
  then have "rh_consecutive_errors h + 1 < rh_purgatory_threshold h"
    using assms(4) by (simp add: word_less_nat_alt)
  then show "unat (rh_consecutive_errors (record_error h b now)) = unat (rh_consecutive_errors h) + 1"
    "rh_purgatory_entries (record_error h b now) = rh_purgatory_entries h"
    "rh_benched_until_ns (record_error h b now) = rh_benched_until_ns h"
    using assms n by (simp_all add: record_error_def Let_def)
qed

lemma record_error_benches:
  assumes "rh_purgatory_threshold h \<noteq> 0" "rh_purgatory_sentence h \<noteq> 0"
    and "unat (rh_consecutive_errors h) + 1 = unat (rh_purgatory_threshold h)"
  shows "rh_consecutive_errors (record_error h b now) = 0"
    and "rh_purgatory_entries (record_error h b now) = rh_purgatory_entries h + 1"
    and "rh_benched_until_ns (record_error h b now) = now_ns h now + of_nat (rh_purgatory_sentence h)"
proof -
  have "unat (rh_purgatory_threshold h) < 2 ^ 64"
    using unsigned_less [of "rh_purgatory_threshold h", where ?'a = nat] by simp
  then have "unat (rh_consecutive_errors h + 1) = unat (rh_consecutive_errors h) + 1"
    using assms(3) by (subst unat_add_no_wrap) auto
  then have "rh_consecutive_errors h + 1 = rh_purgatory_threshold h"
    using assms(3) by (simp add: word_unat_eq_iff)
  then show "rh_consecutive_errors (record_error h b now) = 0"
    "rh_purgatory_entries (record_error h b now) = rh_purgatory_entries h + 1"
    "rh_benched_until_ns (record_error h b now) = now_ns h now + of_nat (rh_purgatory_sentence h)"
    using assms(1,2) by (auto simp: record_error_def Let_def now_ns_def)
qed

text \<open>A whole run of errors: one sentence per \<open>purgatory_threshold\<close> of them.\<close>

definition record_errors :: "(bool \<times> instant) list \<Rightarrow> 's ResolverHealth \<Rightarrow> 's ResolverHealth" where
  "record_errors es h = fold (\<lambda>(b, now) h. record_error h b now) es h"

lemma record_errors_run:
  assumes T: "rh_purgatory_threshold h \<noteq> 0" and S: "rh_purgatory_sentence h \<noteq> 0"
    and c: "unat (rh_consecutive_errors h) < unat (rh_purgatory_threshold h)"
  shows "unat (rh_consecutive_errors (record_errors es h))
           = (unat (rh_consecutive_errors h) + length es) mod unat (rh_purgatory_threshold h)
     \<and> rh_purgatory_entries (record_errors es h)
           = rh_purgatory_entries h
             + of_nat ((unat (rh_consecutive_errors h) + length es) div unat (rh_purgatory_threshold h))"
  using assms
proof (induction es arbitrary: h)
  case Nil
  then show ?case by (simp add: record_errors_def)
next
  case (Cons e es)
  obtain b now where e: "e = (b, now)" by force
  define h' where "h' = record_error h b now"
  let ?T = "unat (rh_purgatory_threshold h)" and ?c = "unat (rh_consecutive_errors h)"
  have step: "record_errors (e # es) h = record_errors es h'" by (simp add: record_errors_def e h'_def)
  have fr: "rh_purgatory_threshold h' = rh_purgatory_threshold h" "rh_purgatory_sentence h' = rh_purgatory_sentence h"
    by (simp_all add: h'_def frame)
  consider "?c + 1 < ?T" | "?c + 1 = ?T" using Cons.prems(3) by linarith
  then show ?case
  proof cases
    case 1
    have "purgatory_ok h" using Cons.prems by (simp add: purgatory_ok_def word_less_nat_alt)
    note r = record_error_counts [OF this Cons.prems(1,2) 1, of b now, folded h'_def]
    from Cons.IH [of h'] r 1 Cons.prems(1,2) fr show ?thesis by (simp add: step)
  next
    case 2
    note r = record_error_benches [OF Cons.prems(1,2) 2, of b now, folded h'_def]
    have sum: "?c + length (e # es) = ?T + length es" using 2 by simp
    have T0: "0 < ?T" using 2 by simp
    have "unat (rh_consecutive_errors h') < unat (rh_purgatory_threshold h')" using r T0 by (simp add: fr)
    from Cons.IH [OF _ _ this] r Cons.prems(1,2) fr show ?thesis
      unfolding step sum using T0 by (simp add: div_add_self1)
  qed
qed

section \<open>Round-trip times\<close>

text \<open>The moving average always lies between the previous value and the sample: it cannot
  overflow, and no bias accumulates from the truncating shifts.\<close>

lemma rtt_ewma_between:
  assumes "p \<noteq> 0"
  shows "min (unat p) (unat s) \<le> unat (rtt_ewma p s) \<and> unat (rtt_ewma p s) \<le> max (unat p) (unat s)"
proof -
  let ?p = "unat p" and ?s = "unat s"
  have d: "unat (drop_bit 3 p) = ?p div 8" "unat (drop_bit 3 s) = ?s div 8"
    by (simp_all only: unat_drop_bit_eq) (simp_all add: drop_bit_eq_div)
  have sub: "unat (p - drop_bit 3 p) = ?p - ?p div 8"
    by (subst unat_sub) (simp_all add: word_le_nat_alt d)
  have lt: "?p < 2 ^ 64" "?s < 2 ^ 64"
    using unsigned_less [of p, where ?'a = nat] unsigned_less [of s, where ?'a = nat] by simp_all
  have between: "min ?p ?s \<le> ?p - ?p div 8 + ?s div 8 \<and> ?p - ?p div 8 + ?s div 8 \<le> max ?p ?s"
  proof (cases "?p \<le> ?s")
    case True
    then have "?s div 8 - ?p div 8 \<le> ?s - ?p" "?p div 8 \<le> ?s div 8" by (auto intro: div_le_mono)
    moreover have "?p div 8 \<le> ?p" by simp
    ultimately show ?thesis using True by auto
  next
    case False
    then have "?p div 8 - ?s div 8 \<le> ?p - ?s" "?s div 8 \<le> ?p div 8" by (auto intro: div_le_mono)
    moreover have "?p div 8 \<le> ?p" by simp
    ultimately show ?thesis using False by auto
  qed
  have "unat (p - drop_bit 3 p + drop_bit 3 s) = ?p - ?p div 8 + ?s div 8"
    using between lt by (subst unat_add_no_wrap) (auto simp: sub d)
  then show ?thesis using between assms by (simp add: rtt_ewma_def RTT_EWMA_SHIFT_def)
qed

lemma rtt_sample_ge_1: "1 \<le> unat (rtt_sample rtt)"
  by (simp add: rtt_sample_def unat_max)

text \<open>What the statistics say after any sequence of samples.\<close>

definition record_rtts :: "(duration \<times> instant) list \<Rightarrow> 's ResolverHealth \<Rightarrow> 's ResolverHealth" where
  "record_rtts xs h = fold (\<lambda>(rtt, now) h. record_rtt h rtt now) xs h"

lemma record_rtt_ewma:
  "unat (rh_rtt_ewma_us (record_rtt h rtt now)) = max (unat (rtt_ewma (rh_rtt_ewma_us h) (rtt_sample rtt))) 1"
  by (simp add: record_rtt_def Let_def unat_max)

lemma record_rtt_ewma_bounds:
  assumes "rh_rtt_ewma_us h = 0 \<or> lo \<le> unat (rh_rtt_ewma_us h) \<and> unat (rh_rtt_ewma_us h) \<le> hi"
    and "1 \<le> lo" "lo \<le> unat (rtt_sample rtt)" "unat (rtt_sample rtt) \<le> hi"
  shows "lo \<le> unat (rh_rtt_ewma_us (record_rtt h rtt now)) \<and> unat (rh_rtt_ewma_us (record_rtt h rtt now)) \<le> hi"
proof (cases "rh_rtt_ewma_us h = 0")
  case True
  then show ?thesis using assms by (simp add: record_rtt_ewma rtt_ewma_def)
next
  case False
  then show ?thesis using rtt_ewma_between [OF False, of "rtt_sample rtt"] assms
    by (auto simp: record_rtt_ewma)
qed

lemma record_rtts_ewma_bounds:
  assumes "rh_rtt_ewma_us h = 0 \<or> lo \<le> unat (rh_rtt_ewma_us h) \<and> unat (rh_rtt_ewma_us h) \<le> hi"
    and "1 \<le> lo" "\<forall>x \<in> set xs. lo \<le> unat (rtt_sample (fst x)) \<and> unat (rtt_sample (fst x)) \<le> hi" "xs \<noteq> []"
  shows "lo \<le> unat (rh_rtt_ewma_us (record_rtts xs h)) \<and> unat (rh_rtt_ewma_us (record_rtts xs h)) \<le> hi"
  using assms
proof (induction xs arbitrary: h)
  case (Cons x xs)
  obtain rtt now where x: "x = (rtt, now)" by force
  let ?h = "record_rtt h rtt now"
  have b: "lo \<le> unat (rh_rtt_ewma_us ?h) \<and> unat (rh_rtt_ewma_us ?h) \<le> hi"
    using Cons.prems x by (intro record_rtt_ewma_bounds) auto
  show ?case
  proof (cases xs)
    case Nil
    then show ?thesis using b by (simp add: record_rtts_def x)
  next
    case (Cons y ys)
    then show ?thesis using Cons.IH [of ?h] Cons.prems b by (simp add: record_rtts_def x)
  qed
qed simp

lemma record_rtt_min:
  "rh_rtt_min_us (record_rtt h rtt now) \<le> rtt_sample rtt" "rh_rtt_min_us (record_rtt h rtt now) \<noteq> 0"
proof -
  have "rtt_sample rtt \<noteq> 0" using rtt_sample_ge_1 [of rtt] by auto
  then show "rh_rtt_min_us (record_rtt h rtt now) \<noteq> 0"
    by (auto simp: record_rtt_def Let_def)
  show "rh_rtt_min_us (record_rtt h rtt now) \<le> rtt_sample rtt"
    by (auto simp: record_rtt_def Let_def not_less)
qed

section \<open>Connections\<close>

lemma client_once:
  assumes "client cn h = (Inr c, h')"
  shows "client cn' h' = (Inr c, h')"
  using assms by (auto simp: client_def split: option.splits sum.splits)

lemma query_within_frame:
  "query_within cn h out d = (r, h') \<Longrightarrow> \<exists>c. h' = h\<lparr>rh_client := c\<rparr>"
  by (auto simp: query_within_def client_def split: option.splits sum.splits query_end.splits if_splits)
    (metis ResolverHealth.surjective ResolverHealth.update_convs(6))+

text \<open>A query never outlives its deadline: either its result came in time, or it is a timeout.\<close>

lemma query_within_timeout:
  assumes "query_within cn h (Ends r t) d = (Inr resp, h')"
  shows "r = Inr resp \<and> t \<le> d"
  using assms by (auto simp: query_within_def split: sum.splits if_splits prod.splits)

lemma query_within_Never:
  "\<exists>e h'. query_within cn h Never d = (Inl e, h')"
  by (auto simp: query_within_def split: sum.splits prod.splits)

lemma health_probe_active:
  "health_probe cn out h = (alive, h') \<Longrightarrow> rh_active h' = (rh_active h \<and> alive)"
  by (auto simp: health_probe_def Let_def dest!: query_within_frame split: sum.splits prod.splits)

section \<open>Properties\<close>

definition sample_addr :: SocketAddr where
  "sample_addr = SocketAddr_new (V4 [192, 0, 2, 1]) 53"

definition sample_health :: "nat ResolverHealth" where
  "sample_health = the (ResolverHealth_new counting_sem sample_addr config_default 0 0)"

definition sample_connector :: connector where
  "sample_connector =
     \<lparr>cn_bind = (\<lambda>_. Inr ()), cn_udp = (\<lambda>_ _. Inr 7), cn_bound = (\<lambda>_. Inr 7), cn_tcp = (\<lambda>_ _. Inr 8)\<rparr>"

lemma ResolverHealth_new_total: "\<exists>h. ResolverHealth_new S a c st now = Some h"
  by (simp add: ResolverHealth_new_def RateLimiter_new_def interval_for_def UNLIMITED_QPS_def)

lemma ResolverHealth_new_fields:
  assumes "ResolverHealth_new S a c st now = Some h"
  shows "rh_purgatory_threshold h = purgatory_threshold c" "rh_purgatory_sentence h = purgatory_sentence c"
    "rh_consecutive_errors h = 0" "rh_purgatory_entries h = 0" "rh_rtt_ewma_us h = 0" "rh_active h"
    "rh_inflight h = sem_new S (unat (max (max_inflight_per_resolver c) 1))"
    "rh_benched_until_ns h = 0" "rh_start h = st" "rh_attempted h = 0" "rh_resolver h = a"
    "outcomes_of h = 0" "rh_request_timeout h = request_timeout c" "rh_client h = None"
    "rh_persistent_socket h = persistent_socket c" "rl_wf (rh_limiter h)" "rate (rh_limiter h) = UNLIMITED_QPS"
    "rl_interval_ns (rh_limiter h) = 1"
proof -
  obtain l where l: "RateLimiter_new UNLIMITED_QPS now = Some l"
    using assms by (auto simp: ResolverHealth_new_def)
  have i: "interval_for UNLIMITED_QPS = Some 1" by code_simp
  have "f64_div 1000000000 (f64_of_u64 1) = UNLIMITED_QPS" by code_simp
  then have "rl_wf l" "rate l = UNLIMITED_QPS" "rl_interval_ns l = 1"
    using l i by (auto simp: RateLimiter_new_def rl_wf_def rate_def)
  then show "rh_purgatory_threshold h = purgatory_threshold c" "rh_purgatory_sentence h = purgatory_sentence c"
    "rh_consecutive_errors h = 0" "rh_purgatory_entries h = 0" "rh_rtt_ewma_us h = 0" "rh_active h"
    "rh_inflight h = sem_new S (unat (max (max_inflight_per_resolver c) 1))"
    "rh_benched_until_ns h = 0" "rh_start h = st" "rh_attempted h = 0" "rh_resolver h = a"
    "outcomes_of h = 0" "rh_request_timeout h = request_timeout c" "rh_client h = None"
    "rh_persistent_socket h = persistent_socket c" "rl_wf (rh_limiter h)" "rate (rh_limiter h) = UNLIMITED_QPS"
    "rl_interval_ns (rh_limiter h) = 1"
    using assms l by (auto simp: ResolverHealth_new_def outcomes_of_def)
qed

lemma sample_health_new: "ResolverHealth_new counting_sem sample_addr config_default 0 0 = Some sample_health"
  using ResolverHealth_new_total [of counting_sem sample_addr config_default 0 0] by (auto simp: sample_health_def)

lemma sample_health_simps:
  "rh_purgatory_threshold sample_health = 10" "rh_purgatory_sentence sample_health = 1000000000"
  "rh_consecutive_errors sample_health = 0" "rh_purgatory_entries sample_health = 0"
  "rh_rtt_ewma_us sample_health = 0" "rh_active sample_health" "rh_inflight sample_health = 2"
  "rh_benched_until_ns sample_health = 0" "rh_start sample_health = 0"
  "rh_attempted sample_health = 0" "rh_resolver sample_health = sample_addr"
  "rl_interval_ns (rh_limiter sample_health) = 1"
  by (simp_all add: ResolverHealth_new_fields [OF sample_health_new] config_default_def
      DEFAULT_PURGATORY_THRESHOLD_def DEFAULT_PURGATORY_SENTENCE_def from_millis_def
      DEFAULT_MAX_INFLIGHT_PER_RESOLVER_def unat_max)

text \<open>
  Purgatory counts exactly: starting below the threshold, a run of \<open>k\<close> errors with no
  response in between hands out one sentence per \<open>purgatory_threshold\<close> errors, and what is left
  over stays counted. A sentence discharges the errors that earned it: no error is counted twice
  and none is lost.
\<close>

theorem purgatory_sentences:
  assumes "rh_purgatory_threshold h \<noteq> 0" and "rh_purgatory_sentence h \<noteq> 0"
    and "unat (rh_consecutive_errors h) < unat (rh_purgatory_threshold h)"
  shows "unat (rh_consecutive_errors (record_errors es h))
           = (unat (rh_consecutive_errors h) + length es) mod unat (rh_purgatory_threshold h)
     \<and> rh_purgatory_entries (record_errors es h)
           = rh_purgatory_entries h
             + of_nat ((unat (rh_consecutive_errors h) + length es) div unat (rh_purgatory_threshold h))"
  using assms by (rule record_errors_run)

theorem purgatory_sentences_witness:
  "unat (rh_consecutive_errors (record_errors (replicate 23 (True, 5)) sample_health)) = 3
     \<and> rh_purgatory_entries (record_errors (replicate 23 (True, 5)) sample_health) = 2"
  using purgatory_sentences [of sample_health "replicate 23 (True, 5)"] by (simp add: sample_health_simps)

text \<open>
  The error that fills the threshold benches the resolver for exactly its sentence: it is
  benched at every moment from now until the sentence has passed, and at none after it, as long
  as the nanosecond clock has not run out of its 64 bits.
\<close>

theorem purgatory_term:
  assumes "rh_purgatory_threshold h \<noteq> 0" and "rh_purgatory_sentence h \<noteq> 0"
    and "unat (rh_consecutive_errors h) + 1 = unat (rh_purgatory_threshold h)"
    and "rh_start h \<le> now" and "now \<le> t" and "t - rh_start h < 2 ^ 64"
    and "now - rh_start h + rh_purgatory_sentence h < 2 ^ 64"
  shows "is_benched (record_error h b now) t \<longleftrightarrow> t < now + rh_purgatory_sentence h"
proof -
  have "unat (of_nat (rh_purgatory_sentence h) :: u64) = rh_purgatory_sentence h"
    by (rule unat_of_nat_u64) (use assms(7) in linarith)
  then have "unat (now_ns h now + of_nat (rh_purgatory_sentence h)) = now - rh_start h + rh_purgatory_sentence h"
    using assms(7) unat_now_ns [of now h] by (subst unat_add_no_wrap) auto
  moreover have "now_ns (record_error h b now) t = now_ns h t" by (simp add: now_ns_def frame)
  ultimately show ?thesis
    using record_error_benches(3) [OF assms(1-3), of b now] assms(4,5) unat_now_ns [OF assms(6)]
    by (auto simp: is_benched_def word_less_nat_alt)
qed

theorem purgatory_term_witness:
  "let h = record_error (sample_health\<lparr>rh_consecutive_errors := 9\<rparr>) True 7
   in is_benched h 500 \<and> \<not> is_benched h 1000000007"
proof -
  let ?h = "sample_health\<lparr>rh_consecutive_errors := 9\<rparr>"
  have "is_benched (record_error ?h True 7) t \<longleftrightarrow> t < 7 + 1000000000" if "7 \<le> t" "t < 2 ^ 64" for t
    using purgatory_term [of ?h 7 t True] that by (simp add: sample_health_simps)
  from this [of 500] this [of 1000000007] show ?thesis by simp
qed

text \<open>
  The moving average of the round-trip time cannot overflow and never leaves the range of
  the samples: after any sequence of responses it lies between the smallest and the largest
  sample seen.
\<close>

theorem rtt_average_in_range:
  assumes "rh_rtt_ewma_us h = 0" and "xs \<noteq> []" and "1 \<le> lo"
    and "\<forall>x \<in> set xs. lo \<le> unat (rtt_sample (fst x)) \<and> unat (rtt_sample (fst x)) \<le> hi"
  shows "lo \<le> unat (rh_rtt_ewma_us (record_rtts xs h)) \<and> unat (rh_rtt_ewma_us (record_rtts xs h)) \<le> hi"
  using assms by (intro record_rtts_ewma_bounds) auto

theorem rtt_average_in_range_witness:
  "20 \<le> unat (rh_rtt_ewma_us (record_rtts [(30000, 1), (20000, 2)] sample_health))
     \<and> unat (rh_rtt_ewma_us (record_rtts [(30000, 1), (20000, 2)] sample_health)) \<le> 30"
  using rtt_average_in_range [of sample_health "[(30000, 1), (20000, 2)]" 20 30]
  by (simp add: sample_health_simps rtt_sample_def unat_max)

text \<open>
  A query to one resolver always comes to an end by its deadline with a definite result: a
  response is handed on only if it came in time, and a query that never ends is reported as a
  timeout or as the failed connection. Sending it changes nothing of the resolver's state but
  the lazily built client.
\<close>

theorem query_within_definite:
  assumes "query_within cn h out deadline = (r, h')"
  shows "(\<exists>c. h' = h\<lparr>rh_client := c\<rparr>)
    \<and> (\<forall>resp. r = Inr resp \<longrightarrow> (\<exists>t \<le> deadline. out = Ends (Inr resp) t))
    \<and> (out = Never \<longrightarrow> (\<exists>e. r = Inl e \<and> (is_timeout e \<or> (\<exists>h''. client cn h = (Inl e, h'')))))"
  using assms query_within_frame [OF assms]
  by (auto simp: query_within_def is_timeout_def split: sum.splits query_end.splits if_splits prod.splits)

theorem query_within_definite_witness:
  "\<exists>e. fst (query_within sample_connector sample_health Never 100) = Inl e \<and> is_timeout e"
proof -
  have "client sample_connector h \<noteq> (Inl e, h')" for h h' :: "nat ResolverHealth" and e
    by (auto simp: client_def connect_def connect_per_query_def connect_persistent_def setup_failed_def
        sample_connector_def Let_def split: option.splits IpAddr.splits)
  then show ?thesis
    using query_within_definite [of sample_connector sample_health Never 100
        "fst (query_within sample_connector sample_health Never 100)"
        "snd (query_within sample_connector sample_health Never 100)"] by auto
qed

end
