(* ===== verification/Pool.thy ===== *)
theory Pool
  imports Health
begin

text \<open>
  The pool half of \<open>src/health.rs\<close>: \<open>ResolverPool\<close> with its rotating selection. \<open>reserve\<close> is
  an unbounded loop around a scan and a wait, so its parts are separate definitions: one
  iteration of the scan (\<open>scan_visit\<close>), the whole scan (\<open>scan_from\<close>), the decision after it
  (\<open>after_scan\<close>) and what happens when the awaited permit arrives (\<open>permit_arrived\<close>). One pass
  of the loop is \<open>reserve_pass\<close>. A resolver is named by its index in the pool.
\<close>

section \<open>State and operations\<close>

record 's ResolverPool =
  rp_resolvers :: "'s ResolverHealth list"
  rp_cursor :: u64
  rp_start :: instant

definition ResolverPool_new ::
  "'s sem_ops \<Rightarrow> SocketAddr list \<Rightarrow> BlastDNSConfig \<Rightarrow> instant \<Rightarrow> instant \<Rightarrow> 's ResolverPool option" where
  "ResolverPool_new S addrs config start now =
     map_option (\<lambda>hs. \<lparr>rp_resolvers = hs, rp_cursor = 0, rp_start = start\<rparr>)
       (those (map (\<lambda>a. ResolverHealth_new S a config start now) addrs))"

definition pool_update :: "nat \<Rightarrow> ('s ResolverHealth \<Rightarrow> 's ResolverHealth) \<Rightarrow> 's ResolverPool \<Rightarrow> 's ResolverPool" where
  "pool_update k f pool = pool\<lparr>rp_resolvers := (rp_resolvers pool)[k := f (rp_resolvers pool ! k)]\<rparr>"

text \<open>The startup probe: every resolver is asked once, and those that answer are counted.\<close>

definition pool_probe :: "connector \<Rightarrow> query_end list \<Rightarrow> 's ResolverPool \<Rightarrow> nat \<times> 's ResolverPool" where
  "pool_probe cn outs pool =
     (let rs = map2 (health_probe cn) outs (rp_resolvers pool)
      in (length (filter fst rs), pool\<lparr>rp_resolvers := map snd rs\<rparr>))"

record scan =
  sc_active :: nat
  sc_benched :: nat
  sc_waitable :: "nat option"

definition scan_start :: scan where
  "scan_start = \<lparr>sc_active = 0, sc_benched = 0, sc_waitable = None\<rparr>"

definition scan_index :: "usize \<Rightarrow> nat \<Rightarrow> nat \<Rightarrow> nat" where
  "scan_index offset n i = unat (offset + of_nat i) mod n"

text \<open>One iteration of the scan: a permit taken from resolver \<open>k\<close>, or the counts carried on.\<close>

definition scan_visit ::
  "'s sem_ops \<Rightarrow> instant \<Rightarrow> nat \<Rightarrow> scan \<Rightarrow> 's ResolverPool \<Rightarrow> ('s ResolverPool + scan)" where
  "scan_visit S now k sc pool =
     (let h = rp_resolvers pool ! k
      in if \<not> rh_active h then Inr sc
         else let sc1 = sc\<lparr>sc_active := sc_active sc + 1\<rparr>
              in if is_benched h now then Inr (sc1\<lparr>sc_benched := sc_benched sc1 + 1\<rparr>)
                 else case try_acquire S h of
                        Some h' \<Rightarrow> Inl (pool_update k (\<lambda>_. h') pool)
                      | None \<Rightarrow> Inr (if sc_waitable sc1 = None then sc1\<lparr>sc_waitable := Some k\<rparr> else sc1))"

fun scan_from ::
  "'s sem_ops \<Rightarrow> instant \<Rightarrow> nat list \<Rightarrow> scan \<Rightarrow> 's ResolverPool \<Rightarrow> (nat \<times> 's ResolverPool) + scan" where
  "scan_from S now [] sc pool = Inr sc"
| "scan_from S now (k # ks) sc pool =
     (case scan_visit S now k sc pool of
        Inl pool' \<Rightarrow> Inl (k, pool')
      | Inr sc' \<Rightarrow> scan_from S now ks sc' pool)"

datatype pause = SleepFor duration | YieldNow

definition sleep_until_first_eligible :: "'s ResolverPool \<Rightarrow> instant \<Rightarrow> pause" where
  "sleep_until_first_eligible pool now =
     (let t = of_nat (now - rp_start pool) :: u64;
          soonest = (case min_list_opt (map rh_benched_until_ns (filter rh_active (rp_resolvers pool))) of
                       None \<Rightarrow> t | Some m \<Rightarrow> m);
          wait = saturating_sub soonest t
      in if 0 < wait then SleepFor (unat wait) else YieldNow)"

datatype decision = GiveUp | Pause pause | WaitOn nat | Again

definition after_scan :: "scan \<Rightarrow> 's ResolverPool \<Rightarrow> instant \<Rightarrow> decision" where
  "after_scan sc pool now =
     (if sc_active sc = 0 then GiveUp
      else if sc_benched sc = sc_active sc then Pause (sleep_until_first_eligible pool now)
      else case sc_waitable sc of Some k \<Rightarrow> WaitOn k | None \<Rightarrow> Again)"

text \<open>The awaited permit is taken; it is kept unless the resolver was benched meanwhile.\<close>

definition permit_arrived ::
  "'s sem_ops \<Rightarrow> instant \<Rightarrow> nat \<Rightarrow> 's ResolverPool \<Rightarrow> (bool \<times> 's ResolverPool) option" where
  "permit_arrived S now k pool =
     (case try_acquire S (rp_resolvers pool ! k) of
        None \<Rightarrow> None
      | Some h \<Rightarrow>
          if rh_active h \<and> \<not> is_benched h now then Some (True, pool_update k (\<lambda>_. h) pool)
          else Some (False, pool_update k (\<lambda>_. drop_permit S h) pool))"

definition reserve_pass ::
  "'s sem_ops \<Rightarrow> instant \<Rightarrow> 's ResolverPool \<Rightarrow> (nat + decision) \<times> 's ResolverPool" where
  "reserve_pass S now pool =
     (let n = length (rp_resolvers pool)
      in if n = 0 then (Inr GiveUp, pool)
         else let offset = rp_cursor pool;
                  pool1 = pool\<lparr>rp_cursor := offset + 1\<rparr>
              in case scan_from S now (map (scan_index offset n) [0..<n]) scan_start pool1 of
                   Inl (k, pool2) \<Rightarrow> (Inl k, pool2)
                 | Inr sc \<Rightarrow> (Inr (after_scan sc pool1 now), pool1))"

definition pool_stats :: "'s ResolverPool \<Rightarrow> ResolverStats list" where
  "pool_stats pool = map health_stats (rp_resolvers pool)"

section \<open>The scan\<close>

definition eligible :: "'s sem_ops \<Rightarrow> instant \<Rightarrow> 's ResolverHealth \<Rightarrow> bool" where
  "eligible S now h \<longleftrightarrow> rh_active h \<and> \<not> is_benched h now \<and> 0 < sem_available S (rh_inflight h)"

definition pool_wf :: "'s ResolverPool \<Rightarrow> bool" where
  "pool_wf pool \<longleftrightarrow> (\<forall>h \<in> set (rp_resolvers pool). rh_start h = rp_start pool)"

lemma scan_indices:
  assumes "unat offset + n \<le> 2 ^ 64" and "0 < n"
  shows "map (scan_index offset n) [0..<n] = rotate (unat offset) [0..<n]"
proof (rule nth_equalityI)
  fix i assume "i < length (map (scan_index offset n) [0..<n])"
  then have i: "i < n" by simp
  have "i < 2 ^ 64" using i assms(1) by linarith
  then have ui: "unat (of_nat i :: u64) = i" by (rule unat_of_nat_u64)
  have "unat (offset + of_nat i) = unat offset + i"
    using i assms(1) ui by (subst unat_add_no_wrap) auto
  then show "map (scan_index offset n) [0..<n] ! i = rotate (unat offset) [0..<n] ! i"
    using i by (simp add: scan_index_def nth_rotate)
qed simp

lemma reserve_pass_scan:
  "rp_resolvers pool \<noteq> [] \<Longrightarrow> reserve_pass S now pool =
     (case scan_from S now (map (scan_index (rp_cursor pool) (length (rp_resolvers pool))) [0..<length (rp_resolvers pool)])
        scan_start (pool\<lparr>rp_cursor := rp_cursor pool + 1\<rparr>) of
        Inl (k, pool2) \<Rightarrow> (Inl k, pool2)
      | Inr sc \<Rightarrow> (Inr (after_scan sc (pool\<lparr>rp_cursor := rp_cursor pool + 1\<rparr>) now), pool\<lparr>rp_cursor := rp_cursor pool + 1\<rparr>))"
  by (simp add: reserve_pass_def Let_def)

context semaphore
begin

lemma try_acquire_eligible:
  "rh_active h \<Longrightarrow> \<not> is_benched h now \<Longrightarrow> try_acquire S h = None \<longleftrightarrow> \<not> eligible S now h"
  by (simp add: try_acquire_def eligible_def try_acquire_None)

lemma scan_visit_Inr_iff:
  "(\<exists>sc'. scan_visit S now k sc pool = Inr sc') \<longleftrightarrow> \<not> eligible S now (rp_resolvers pool ! k)"
proof -
  let ?h = "rp_resolvers pool ! k"
  show ?thesis
  proof (cases "rh_active ?h \<and> \<not> is_benched ?h now")
    case True
    then show ?thesis using try_acquire_eligible [of ?h now]
      by (auto simp: scan_visit_def Let_def split: option.splits)
  next
    case False
    then show ?thesis by (auto simp: scan_visit_def Let_def eligible_def)
  qed
qed

text \<open>A scan takes a permit from the first eligible resolver in rotation order.\<close>

lemma scan_from_Inl:
  "scan_from S now ks sc pool = Inl (k, pool') \<Longrightarrow>
     \<exists>ks1 ks2 p. ks = ks1 @ k # ks2 \<and> eligible S now (rp_resolvers pool ! k)
       \<and> (\<forall>j \<in> set ks1. \<not> eligible S now (rp_resolvers pool ! j))
       \<and> sem_try_acquire S (rh_inflight (rp_resolvers pool ! k)) = Some p
       \<and> pool' = pool_update k (\<lambda>h. h\<lparr>rh_inflight := p\<rparr>) pool"
proof (induction ks arbitrary: sc)
  case (Cons j ks)
  show ?case
  proof (cases "scan_visit S now j sc pool")
    case (Inl p')
    then have kj: "k = j" "pool' = p'" using Cons.prems by auto
    have el: "eligible S now (rp_resolvers pool ! j)" using scan_visit_Inr_iff [of now j sc pool] Inl by auto
    from Inl obtain p where "sem_try_acquire S (rh_inflight (rp_resolvers pool ! j)) = Some p"
      and "p' = pool_update j (\<lambda>h. h\<lparr>rh_inflight := p\<rparr>) pool"
      by (auto simp: scan_visit_def Let_def try_acquire_def pool_update_def split: if_splits option.splits)
    then show ?thesis using el kj by (intro exI [of _ "[]"] exI [of _ ks] exI [of _ p]) auto
  next
    case (Inr sc')
    have nj: "\<not> eligible S now (rp_resolvers pool ! j)" using scan_visit_Inr_iff [of now j sc pool] Inr by auto
    from Cons.prems Inr have "scan_from S now ks sc' pool = Inl (k, pool')" by simp
    from Cons.IH [OF this] obtain ks1 ks2 p where "ks = ks1 @ k # ks2"
      "eligible S now (rp_resolvers pool ! k)" "\<forall>j \<in> set ks1. \<not> eligible S now (rp_resolvers pool ! j)"
      "sem_try_acquire S (rh_inflight (rp_resolvers pool ! k)) = Some p"
      "pool' = pool_update k (\<lambda>h. h\<lparr>rh_inflight := p\<rparr>) pool" by blast
    then show ?thesis using nj by (intro exI [of _ "j # ks1"] exI [of _ ks2] exI [of _ p]) auto
  qed
qed simp

lemma scan_from_Inr_iff:
  "(\<exists>sc'. scan_from S now ks sc pool = Inr sc') \<longleftrightarrow> (\<forall>k \<in> set ks. \<not> eligible S now (rp_resolvers pool ! k))"
proof (induction ks arbitrary: sc)
  case (Cons j ks)
  then show ?case using scan_visit_Inr_iff [of now j sc pool]
    by (cases "scan_visit S now j sc pool") auto
qed simp

text \<open>A scan that takes nothing has counted the active and the benched resolvers.\<close>

lemma scan_from_counts:
  assumes "scan_from S now ks sc pool = Inr sc'"
  shows "sc_active sc' = sc_active sc + length (filter (\<lambda>k. rh_active (rp_resolvers pool ! k)) ks)"
    and "sc_benched sc' = sc_benched sc
           + length (filter (\<lambda>k. rh_active (rp_resolvers pool ! k) \<and> is_benched (rp_resolvers pool ! k) now) ks)"
    and "sc_waitable sc' = (case sc_waitable sc of Some k \<Rightarrow> Some k
           | None \<Rightarrow> List.find (\<lambda>k. rh_active (rp_resolvers pool ! k) \<and> \<not> is_benched (rp_resolvers pool ! k) now) ks)"
  using assms
proof (induction ks arbitrary: sc)
  case (Cons j ks)
  {
    case 1
    then show ?case using Cons.IH(1) [of "case scan_visit S now j sc pool of Inr s \<Rightarrow> s"]
      by (auto simp: scan_visit_def Let_def split: if_splits option.splits)
  next
    case 2
    then show ?case using Cons.IH(2) [of "case scan_visit S now j sc pool of Inr s \<Rightarrow> s"]
      by (auto simp: scan_visit_def Let_def split: if_splits option.splits)
  next
    case 3
    then show ?case using Cons.IH(3) [of "case scan_visit S now j sc pool of Inr s \<Rightarrow> s"]
      by (auto simp: scan_visit_def Let_def split: if_splits option.splits)
  }
qed (auto split: option.splits)

lemma reserve_pass_Inl:
  assumes "reserve_pass S now pool = (Inl k, pool')" and "unat (rp_cursor pool) + length (rp_resolvers pool) \<le> 2 ^ 64"
  shows "k < length (rp_resolvers pool) \<and> eligible S now (rp_resolvers pool ! k)
    \<and> (\<exists>p. sem_try_acquire S (rh_inflight (rp_resolvers pool ! k)) = Some p
        \<and> pool' = pool_update k (\<lambda>h. h\<lparr>rh_inflight := p\<rparr>) (pool\<lparr>rp_cursor := rp_cursor pool + 1\<rparr>))"
proof -
  let ?n = "length (rp_resolvers pool)" and ?p1 = "pool\<lparr>rp_cursor := rp_cursor pool + 1\<rparr>"
  let ?ks = "map (scan_index (rp_cursor pool) ?n) [0..<?n]"
  have n: "0 < ?n" and sc: "scan_from S now ?ks scan_start ?p1 = Inl (k, pool')"
    using assms(1) by (auto simp: reserve_pass_def Let_def split: if_splits sum.splits prod.splits)
  have "set ?ks = {0..<?n}" using scan_indices [OF assms(2) n] by simp
  moreover have "k \<in> set ?ks" using scan_from_Inl [OF sc] by (metis in_set_conv_decomp)
  ultimately show ?thesis using scan_from_Inl [OF sc] by auto
qed

text \<open>A pass takes a permit exactly when some resolver is eligible, and gives up exactly when
  none is active.\<close>

lemma reserve_pass_iff:
  assumes "unat (rp_cursor pool) + length (rp_resolvers pool) \<le> 2 ^ 64"
  shows "(\<exists>k pool'. reserve_pass S now pool = (Inl k, pool')) \<longleftrightarrow> (\<exists>h \<in> set (rp_resolvers pool). eligible S now h)"
proof (cases "rp_resolvers pool = []")
  case False
  let ?n = "length (rp_resolvers pool)" and ?p1 = "pool\<lparr>rp_cursor := rp_cursor pool + 1\<rparr>"
  let ?ks = "map (scan_index (rp_cursor pool) ?n) [0..<?n]"
  have ks: "set ?ks = {0..<?n}" using scan_indices [OF assms] False by simp
  have "(\<exists>k pool'. reserve_pass S now pool = (Inl k, pool')) \<longleftrightarrow> \<not> (\<exists>sc'. scan_from S now ?ks scan_start ?p1 = Inr sc')"
    using False by (auto simp: reserve_pass_def Let_def split: sum.splits prod.splits)
  also have "\<dots> \<longleftrightarrow> (\<exists>k < ?n. eligible S now (rp_resolvers pool ! k))"
    unfolding scan_from_Inr_iff ks by auto
  finally show ?thesis by (simp add: in_set_conv_nth Bex_def) (metis)
qed (simp add: reserve_pass_def)

lemma reserve_pass_scanned:
  assumes "reserve_pass S now pool = (Inr d, pool')" and "rp_resolvers pool \<noteq> []"
    and "unat (rp_cursor pool) + length (rp_resolvers pool) \<le> 2 ^ 64"
  obtains sc where "d = after_scan sc pool' now" "rp_resolvers pool' = rp_resolvers pool"
    "rp_start pool' = rp_start pool"
    "sc_active sc = 0 \<longleftrightarrow> (\<forall>h \<in> set (rp_resolvers pool). \<not> rh_active h)"
    "sc_benched sc = sc_active sc \<longleftrightarrow> (\<forall>h \<in> set (rp_resolvers pool). rh_active h \<longrightarrow> is_benched h now)"
    "\<forall>k. sc_waitable sc = Some k \<longrightarrow> k < length (rp_resolvers pool)
       \<and> rh_active (rp_resolvers pool ! k) \<and> \<not> is_benched (rp_resolvers pool ! k) now
       \<and> sem_available S (rh_inflight (rp_resolvers pool ! k)) = 0"
    "sc_waitable sc = None \<longleftrightarrow> (\<forall>h \<in> set (rp_resolvers pool). rh_active h \<longrightarrow> is_benched h now)"
proof -
  let ?n = "length (rp_resolvers pool)" and ?p1 = "pool\<lparr>rp_cursor := rp_cursor pool + 1\<rparr>"
  define ks where "ks = map (scan_index (rp_cursor pool) ?n) [0..<?n]"
  let ?A = "\<lambda>k. rh_active (rp_resolvers pool ! k)" and ?B = "\<lambda>k. is_benched (rp_resolvers pool ! k) now"
  obtain sc where sc: "scan_from S now ks scan_start ?p1 = Inr sc" "d = after_scan sc ?p1 now" "pool' = ?p1"
  proof (cases "scan_from S now ks scan_start ?p1")
    case (Inl r)
    then show ?thesis using assms(1) unfolding reserve_pass_scan [OF assms(2)] ks_def by (simp split: prod.splits)
  next
    case (Inr sc)
    have r: "reserve_pass S now pool = (Inr (after_scan sc ?p1 now), ?p1)"
      unfolding reserve_pass_scan [OF assms(2)] ks_def [symmetric] Inr by (rule sum.case)
    have "d = after_scan sc ?p1 now" using trans [OF assms(1) [symmetric] r] by (rule sum.inject(2) [THEN iffD1, OF prod.inject [THEN iffD1, THEN conjunct1]])
    moreover have "pool' = ?p1" using trans [OF assms(1) [symmetric] r] by (rule prod.inject [THEN iffD1, THEN conjunct2])
    ultimately show ?thesis using Inr by (intro that [of sc])
  qed
  have ks: "set ks = {0..<?n}" using scan_indices [OF assms(3)] assms(2) by (simp add: ks_def)
  have all: "(\<forall>k \<in> set ks. P (rp_resolvers pool ! k)) \<longleftrightarrow> (\<forall>h \<in> set (rp_resolvers pool). P h)" for P
    unfolding ks by (auto simp: all_set_conv_all_nth)
  have cnt: "sc_active sc = length (filter ?A ks)" "sc_benched sc = length (filter ?B (filter ?A ks))"
    "sc_waitable sc = List.find (\<lambda>k. ?A k \<and> \<not> ?B k) ks"
    using scan_from_counts [OF sc(1)] by (simp_all add: scan_start_def)
  have "sc_active sc = 0 \<longleftrightarrow> (\<forall>k \<in> set ks. \<not> ?A k)" unfolding cnt by (simp only: length_0_conv filter_empty_conv)
  moreover have "sc_benched sc = sc_active sc \<longleftrightarrow> (\<forall>k \<in> set ks. ?A k \<longrightarrow> ?B k)"
  proof -
    have "length (filter ?B xs) = length xs \<longleftrightarrow> (\<forall>x \<in> set xs. ?B x)" for xs
      using length_filter_less [of _ xs ?B] by (auto simp: nat_less_le)
    then show ?thesis unfolding cnt by (simp only: set_filter mem_Collect_eq) blast
  qed
  moreover have "\<forall>k. sc_waitable sc = Some k \<longrightarrow> k < ?n \<and> ?A k \<and> \<not> ?B k
      \<and> sem_available S (rh_inflight (rp_resolvers pool ! k)) = 0"
  proof (intro allI impI)
    fix k assume "sc_waitable sc = Some k"
    then have k: "k \<in> set ks" "?A k" "\<not> ?B k" unfolding cnt find_Some_iff by (auto simp: in_set_conv_nth)
    moreover have "\<not> eligible S now (rp_resolvers pool ! k)"
      using scan_from_Inr_iff [of now ks scan_start ?p1] sc(1) k(1) by auto
    ultimately show "k < ?n \<and> ?A k \<and> \<not> ?B k \<and> sem_available S (rh_inflight (rp_resolvers pool ! k)) = 0"
      unfolding ks by (simp add: eligible_def)
  qed
  moreover have "sc_waitable sc = None \<longleftrightarrow> (\<forall>k \<in> set ks. ?A k \<longrightarrow> ?B k)"
    unfolding cnt find_None_iff by blast
  ultimately show thesis using sc all [of "\<lambda>h. \<not> rh_active h"] all [of "\<lambda>h. rh_active h \<longrightarrow> is_benched h now"]
    by (intro that [of sc]) auto
qed

lemma reserve_pass_GiveUp_iff:
  assumes "unat (rp_cursor pool) + length (rp_resolvers pool) \<le> 2 ^ 64"
  shows "fst (reserve_pass S now pool) = Inr GiveUp \<longleftrightarrow> (\<forall>h \<in> set (rp_resolvers pool). \<not> rh_active h)"
proof (cases "rp_resolvers pool = []")
  case False
  show ?thesis
  proof (cases "fst (reserve_pass S now pool)")
    case (Inl k)
    then have "\<exists>h \<in> set (rp_resolvers pool). eligible S now h"
      using reserve_pass_iff [OF assms, of now] by (metis prod.collapse)
    then show ?thesis using Inl by (auto simp: eligible_def)
  next
    case (Inr d)
    then have r: "reserve_pass S now pool = (Inr d, snd (reserve_pass S now pool))" by (metis prod.collapse)
    from reserve_pass_scanned [OF r False assms] obtain sc where
      "d = after_scan sc (snd (reserve_pass S now pool)) now"
      "sc_active sc = 0 \<longleftrightarrow> (\<forall>h \<in> set (rp_resolvers pool). \<not> rh_active h)" by metis
    then show ?thesis using Inr by (auto simp: after_scan_def split: option.splits)
  qed
qed (simp add: reserve_pass_def)

text \<open>The loop never spins: a pass that takes nothing and does not give up waits, either for
  a permit of a saturated resolver or for the first sentence to end.\<close>

lemma reserve_pass_not_Again:
  assumes "unat (rp_cursor pool) + length (rp_resolvers pool) \<le> 2 ^ 64"
  shows "fst (reserve_pass S now pool) \<noteq> Inr Again"
proof
  assume a: "fst (reserve_pass S now pool) = Inr Again"
  then have r: "reserve_pass S now pool = (Inr Again, snd (reserve_pass S now pool))" by (metis prod.collapse)
  have ne: "rp_resolvers pool \<noteq> []" using a by (auto simp: reserve_pass_def)
  from reserve_pass_scanned [OF r ne assms] obtain sc where
    "Again = after_scan sc (snd (reserve_pass S now pool)) now"
    "sc_benched sc = sc_active sc \<longleftrightarrow> (\<forall>h \<in> set (rp_resolvers pool). rh_active h \<longrightarrow> is_benched h now)"
    "sc_waitable sc = None \<longleftrightarrow> (\<forall>h \<in> set (rp_resolvers pool). rh_active h \<longrightarrow> is_benched h now)" by metis
  then show False by (auto simp: after_scan_def split: if_splits option.splits)
qed

end

text \<open>When every active resolver is benched, the computed sleep ends at a moment when one of
  them is eligible again.\<close>

lemma sleep_until_first_eligible_wakes:
  assumes wf: "pool_wf pool" and t: "now - rp_start pool < 2 ^ 64" "rp_start pool \<le> now"
    and act: "h \<in> set (rp_resolvers pool)" "rh_active h"
    and all: "\<forall>h \<in> set (rp_resolvers pool). rh_active h \<longrightarrow> is_benched h now"
  obtains d h where "sleep_until_first_eligible pool now = SleepFor d" "0 < d"
    "h \<in> set (rp_resolvers pool)" "rh_active h" "\<not> is_benched h (now + d)"
proof -
  let ?t = "of_nat (now - rp_start pool) :: u64"
  let ?bs = "map rh_benched_until_ns (filter rh_active (rp_resolvers pool))"
  have "?bs \<noteq> []" using act by (auto simp: filter_empty_conv)
  then obtain m where m: "min_list_opt ?bs = Some m" using min_list_opt_None_iff [of ?bs] by blast
  then obtain g where g: "g \<in> set (rp_resolvers pool)" "rh_active g" "rh_benched_until_ns g = m"
    unfolding min_list_opt_Some_iff by auto
  have st: "rh_start g = rp_start pool" using wf g(1) by (simp add: pool_wf_def)
  have "?t < m" using all g st by (auto simp: is_benched_def now_ns_def)
  moreover have ut: "unat ?t = now - rp_start pool" using t(1) by (rule unat_of_nat_u64)
  ultimately have lt: "now - rp_start pool < unat m" by (simp add: word_less_nat_alt)
  define d where "d = unat m - (now - rp_start pool)"
  have sl: "sleep_until_first_eligible pool now = SleepFor d"
    using m lt by (simp add: sleep_until_first_eligible_def word_less_nat_alt u64_simps ut d_def)
  have "now + d - rp_start pool = unat m" using lt t(2) by (simp add: d_def)
  then have "\<not> is_benched g (now + d)" by (simp add: is_benched_def now_ns_def st g(3) of_nat_unat)
  then show thesis using that sl g lt by (simp add: d_def)
qed

section \<open>Fair rotation\<close>

text \<open>\<open>k\<close> reservations in a row, with nothing returned in between.\<close>

fun reserve_many :: "'s sem_ops \<Rightarrow> instant \<Rightarrow> nat \<Rightarrow> 's ResolverPool \<Rightarrow> nat list \<times> 's ResolverPool" where
  "reserve_many S now 0 pool = ([], pool)"
| "reserve_many S now (Suc m) pool =
     (case reserve_pass S now pool of
        (Inl k, pool') \<Rightarrow> (case reserve_many S now m pool' of (ks, pool'') \<Rightarrow> (k # ks, pool''))
      | (Inr _, pool') \<Rightarrow> ([], pool'))"

context semaphore
begin

lemma reserve_pass_first:
  assumes n: "n = length (rp_resolvers pool)" "0 < n" and k: "k = unat (rp_cursor pool) mod n"
    and el: "eligible S now (rp_resolvers pool ! k)"
  obtains p where "reserve_pass S now pool
      = (Inl k, pool_update k (\<lambda>h. h\<lparr>rh_inflight := p\<rparr>) (pool\<lparr>rp_cursor := rp_cursor pool + 1\<rparr>))"
proof -
  let ?p1 = "pool\<lparr>rp_cursor := rp_cursor pool + 1\<rparr>"
  obtain h p where h: "try_acquire S (rp_resolvers pool ! k) = Some h"
    "h = (rp_resolvers pool ! k)\<lparr>rh_inflight := p\<rparr>"
    using el try_acquire_eligible [of "rp_resolvers pool ! k" now] by (auto simp: eligible_def try_acquire_def)
  have "map (scan_index (rp_cursor pool) n) [0..<n] = k # map (scan_index (rp_cursor pool) n) [1..<n]"
    using n(2) by (simp add: upt_conv_Cons scan_index_def k)
  moreover have "scan_visit S now k scan_start ?p1 = Inl (pool_update k (\<lambda>h. h\<lparr>rh_inflight := p\<rparr>) ?p1)"
    using el h by (simp add: scan_visit_def Let_def eligible_def pool_update_def)
  ultimately have "reserve_pass S now pool = (Inl k, pool_update k (\<lambda>h. h\<lparr>rh_inflight := p\<rparr>) ?p1)"
    using n by (simp add: reserve_pass_def Let_def)
  then show thesis by (rule that)
qed

lemma reserve_many_rotates:
  assumes "length (rp_resolvers pool) = n" and "0 < n" and "unat (rp_cursor pool) + m < 2 ^ 64" and "m \<le> n"
    and "\<forall>i < m. eligible S now (rp_resolvers pool ! ((unat (rp_cursor pool) + i) mod n))"
  shows "fst (reserve_many S now m pool) = map (\<lambda>i. (unat (rp_cursor pool) + i) mod n) [0..<m]"
  using assms
proof (induction m arbitrary: pool)
  case (Suc m)
  let ?c = "unat (rp_cursor pool)" and ?k = "unat (rp_cursor pool) mod n"
  have "eligible S now (rp_resolvers pool ! ?k)" using Suc.prems(5) by (metis add_0_right zero_less_Suc)
  then obtain p where r: "reserve_pass S now pool
      = (Inl ?k, pool_update ?k (\<lambda>h. h\<lparr>rh_inflight := p\<rparr>) (pool\<lparr>rp_cursor := rp_cursor pool + 1\<rparr>))"
    using reserve_pass_first [of n pool ?k now] Suc.prems(1,2) by metis
  define q where "q = pool_update ?k (\<lambda>h. h\<lparr>rh_inflight := p\<rparr>) (pool\<lparr>rp_cursor := rp_cursor pool + 1\<rparr>)"
  have c: "unat (rp_cursor q) = ?c + 1"
    using Suc.prems(3) by (simp add: q_def pool_update_def unat_add_no_wrap)
  have len: "length (rp_resolvers q) = n" using Suc.prems(1) by (simp add: q_def pool_update_def)
  have other: "rp_resolvers q ! j = rp_resolvers pool ! j" if "j \<noteq> ?k" for j
    using that by (simp add: q_def pool_update_def)
  have ne: "(?c + 1 + i) mod n \<noteq> ?k" if "i < m" for i
  proof
    assume "(?c + 1 + i) mod n = ?k"
    then have "n dvd (1 + i)" by (metis add.assoc add_diff_cancel_left' le_add1 mod_eq_dvd_iff_nat)
    then show False using that Suc.prems(4) by (auto dest: dvd_imp_le)
  qed
  have el: "\<forall>i < m. eligible S now (rp_resolvers q ! ((unat (rp_cursor q) + i) mod n))"
    using Suc.prems(5) ne unfolding c by (metis (no_types, lifting) Suc_less_eq add.assoc other plus_1_eq_Suc)
  have "fst (reserve_many S now m q) = map (\<lambda>i. (?c + 1 + i) mod n) [0..<m]"
    using Suc.IH [OF len Suc.prems(2) _ _ el] Suc.prems(3,4) by (simp add: c)
  then have "fst (reserve_many S now (Suc m) pool) = ?k # map (\<lambda>i. (?c + 1 + i) mod n) [0..<m]"
    by (cases "reserve_many S now m q") (simp add: r q_def [symmetric])
  also have "\<dots> = map (\<lambda>i. (?c + i) mod n) [0..<Suc m]"
    by (simp add: upt_conv_Cons map_Suc_upt [symmetric] comp_def del: upt_Suc)
  finally show ?case .
qed simp

end

section \<open>Properties\<close>

lemma ResolverPool_new_total: "\<exists>pool. ResolverPool_new S addrs c st now = Some pool"
proof -
  have "\<exists>hs. those (map (\<lambda>a. ResolverHealth_new S a c st now) addrs) = Some hs"
  proof (induction addrs)
    case (Cons a addrs)
    then show ?case using ResolverHealth_new_total [of S a c st now] by auto
  qed simp
  then show ?thesis by (auto simp: ResolverPool_new_def)
qed

lemma those_map_Some_nth:
  "those (map f xs) = Some ys \<Longrightarrow> length ys = length xs \<and> (\<forall>i < length xs. f (xs ! i) = Some (ys ! i))"
proof (induction xs arbitrary: ys)
  case (Cons x xs)
  then obtain z zs where "f x = Some z" "those (map f xs) = Some zs" "ys = z # zs"
    by (auto split: option.splits)
  then show ?case using Cons.IH [of zs] by (auto simp: less_Suc_eq_0_disj)
qed simp

lemma ResolverPool_new_fields:
  assumes "ResolverPool_new S addrs c st now = Some pool"
  shows "length (rp_resolvers pool) = length addrs" "rp_cursor pool = 0" "rp_start pool = st"
    "\<And>i. i < length addrs \<Longrightarrow> ResolverHealth_new S (addrs ! i) c st now = Some (rp_resolvers pool ! i)"
  using assms by (auto simp: ResolverPool_new_def dest: those_map_Some_nth)

lemma ResolverPool_new_wf: "ResolverPool_new S addrs c st now = Some pool \<Longrightarrow> pool_wf pool"
  using ResolverPool_new_fields [of S addrs c st now pool] ResolverHealth_new_fields(9)
  by (fastforce simp: pool_wf_def in_set_conv_nth)

text \<open>Two resolvers, fresh.\<close>

definition sample_pool :: "nat ResolverPool" where
  "sample_pool = \<lparr>rp_resolvers = [sample_health, sample_health], rp_cursor = 0, rp_start = 0\<rparr>"

lemma sample_health_eligible: "eligible counting_sem 5 sample_health"
  by (simp add: eligible_def is_benched_def sample_health_simps)

text \<open>
  C12. A selection pass takes a permit exactly when some resolver is active, not benched and has
  a free slot. The one it takes it from has all three, loses exactly that permit, and no other
  resolver changes.
\<close>

theorem reserve_takes_eligible:
  assumes "semaphore S" and "unat (rp_cursor pool) + length (rp_resolvers pool) \<le> 2 ^ 64"
  shows "case reserve_pass S now pool of
      (Inl k, pool') \<Rightarrow> k < length (rp_resolvers pool) \<and> eligible S now (rp_resolvers pool ! k)
        \<and> (\<exists>p. sem_try_acquire S (rh_inflight (rp_resolvers pool ! k)) = Some p
             \<and> rp_resolvers pool' = (rp_resolvers pool)[k := (rp_resolvers pool ! k)\<lparr>rh_inflight := p\<rparr>])
    | (Inr d, pool') \<Rightarrow> rp_resolvers pool' = rp_resolvers pool
        \<and> (\<forall>h \<in> set (rp_resolvers pool). \<not> eligible S now h)"
proof (cases "reserve_pass S now pool")
  case (Pair r pool')
  show ?thesis
  proof (cases r)
    case (Inl k)
    with Pair have "reserve_pass S now pool = (Inl k, pool')" by simp
    from semaphore.reserve_pass_Inl [OF assms(1) this assms(2)] show ?thesis
      using Pair Inl by (auto simp: pool_update_def)
  next
    case (Inr d)
    then have "\<not> (\<exists>k p. reserve_pass S now pool = (Inl k, p))" using Pair by simp
    then have "\<forall>h \<in> set (rp_resolvers pool). \<not> eligible S now h"
      using semaphore.reserve_pass_iff [OF assms, of now] by blast
    moreover have "rp_resolvers pool' = rp_resolvers pool"
    proof (cases "rp_resolvers pool = []")
      case True
      then show ?thesis using Pair by (simp add: reserve_pass_def)
    next
      case False
      with Pair Inr have "reserve_pass S now pool = (Inr d, pool')" by simp
      from semaphore.reserve_pass_scanned [OF assms(1) this False assms(2)] show ?thesis by metis
    qed
    ultimately show ?thesis using Pair Inr by simp
  qed
qed

theorem reserve_takes_eligible_witness:
  "fst (reserve_pass counting_sem 5 sample_pool) = Inl 0 \<and> eligible counting_sem 5 (rp_resolvers sample_pool ! 0)"
proof -
  have "reserve_pass counting_sem 5 sample_pool = (Inl 0, snd (reserve_pass counting_sem 5 sample_pool))"
    by code_simp
  then show ?thesis using reserve_takes_eligible [OF counting.semaphore_axioms, of sample_pool 5]
    by (auto simp: sample_pool_def)
qed

text \<open>
  C20. \<open>reserve\<close> neither spins nor sleeps past its chance. A pass that takes nothing gives up
  exactly when no resolver is active. Otherwise it waits: when every active resolver is benched,
  it sleeps a positive time at the end of which one of them is eligible for selection again; in
  every other case it queues for a permit of an active, unbenched resolver that has none free.
\<close>

theorem reserve_waits_right:
  assumes sem: "semaphore S" and cur: "unat (rp_cursor pool) + length (rp_resolvers pool) \<le> 2 ^ 64"
    and wf: "pool_wf pool" and clock: "rp_start pool \<le> now" "now - rp_start pool < 2 ^ 64"
    and pass: "reserve_pass S now pool = (Inr d, pool')"
  shows "(d = GiveUp \<and> (\<forall>h \<in> set (rp_resolvers pool). \<not> rh_active h))
    \<or> (\<exists>w. d = Pause (SleepFor w) \<and> 0 < w
         \<and> (\<forall>h \<in> set (rp_resolvers pool). rh_active h \<longrightarrow> is_benched h now)
         \<and> (\<exists>h \<in> set (rp_resolvers pool). rh_active h \<and> \<not> is_benched h (now + w)))
    \<or> (\<exists>k < length (rp_resolvers pool). d = WaitOn k \<and> rh_active (rp_resolvers pool ! k)
         \<and> \<not> is_benched (rp_resolvers pool ! k) now \<and> sem_available S (rh_inflight (rp_resolvers pool ! k)) = 0)"
proof (cases "\<exists>h \<in> set (rp_resolvers pool). rh_active h")
  case False
  then show ?thesis using semaphore.reserve_pass_GiveUp_iff [OF sem cur, of now] pass by auto
next
  case act: True
  then have ne: "rp_resolvers pool \<noteq> []" by auto
  obtain sc where
    sc: "d = after_scan sc pool' now" "rp_resolvers pool' = rp_resolvers pool" "rp_start pool' = rp_start pool"
    "sc_active sc = 0 \<longleftrightarrow> (\<forall>h \<in> set (rp_resolvers pool). \<not> rh_active h)"
    "sc_benched sc = sc_active sc \<longleftrightarrow> (\<forall>h \<in> set (rp_resolvers pool). rh_active h \<longrightarrow> is_benched h now)"
    "\<forall>k. sc_waitable sc = Some k \<longrightarrow> k < length (rp_resolvers pool)
       \<and> rh_active (rp_resolvers pool ! k) \<and> \<not> is_benched (rp_resolvers pool ! k) now
       \<and> sem_available S (rh_inflight (rp_resolvers pool ! k)) = 0"
    "sc_waitable sc = None \<longleftrightarrow> (\<forall>h \<in> set (rp_resolvers pool). rh_active h \<longrightarrow> is_benched h now)" 
    by (rule semaphore.reserve_pass_scanned [OF sem pass ne cur])
  have a0: "sc_active sc \<noteq> 0" using sc(4) act by auto
  show ?thesis
  proof (cases "\<forall>h \<in> set (rp_resolvers pool). rh_active h \<longrightarrow> is_benched h now")
    case True
    from act obtain h where "h \<in> set (rp_resolvers pool')" "rh_active h" using sc(2) by auto
    moreover have "pool_wf pool'" using wf sc(2,3) by (simp add: pool_wf_def)
    ultimately obtain w h where w: "sleep_until_first_eligible pool' now = SleepFor w" "0 < w"
      "h \<in> set (rp_resolvers pool)" "rh_active h" "\<not> is_benched h (now + w)"
      using sleep_until_first_eligible_wakes [of pool' now h] clock True sc(2,3) by metis
    have "d = Pause (SleepFor w)" using sc(1,5) a0 True w(1) by (simp add: after_scan_def)
    then show ?thesis using w(2-5) True by blast
  next
    case False
    then obtain k where k: "sc_waitable sc = Some k" using sc(7) by (cases "sc_waitable sc") auto
    moreover have "d = WaitOn k" using sc(1,5) a0 False k by (simp add: after_scan_def)
    ultimately show ?thesis using sc(6) by blast
  qed
qed

theorem reserve_waits_right_witness:
  "let pool = sample_pool\<lparr>rp_resolvers := [sample_health\<lparr>rh_benched_until_ns := 90\<rparr>]\<rparr>
   in fst (reserve_pass counting_sem 5 pool) = Inr (Pause (SleepFor 85))
     \<and> \<not> is_benched (rp_resolvers pool ! 0) (5 + 85)"
proof -
  let ?pool = "sample_pool\<lparr>rp_resolvers := [sample_health\<lparr>rh_benched_until_ns := 90\<rparr>]\<rparr>"
  have f: "fst (reserve_pass counting_sem 5 ?pool) = Inr (Pause (SleepFor 85))" by code_simp
  then have r: "reserve_pass counting_sem 5 ?pool
      = (Inr (Pause (SleepFor 85)), snd (reserve_pass counting_sem 5 ?pool))" by (metis prod.collapse)
  have "pool_wf ?pool" by (simp add: pool_wf_def sample_pool_def sample_health_simps)
  then have "\<not> is_benched (rp_resolvers ?pool ! 0) (5 + 85)"
    using reserve_waits_right [OF counting.semaphore_axioms _ _ _ _ r] by (simp add: sample_pool_def)
  then show ?thesis using f by (simp only: Let_def simp_thms)
qed

text \<open>
  Selection is a fair rotation: with every resolver eligible, as many reservations in a row
  as there are resolvers use each of them exactly once, in rotation order from the cursor.
\<close>

theorem reserve_round_robin:
  assumes "semaphore S" and "rp_resolvers pool \<noteq> []"
    and "unat (rp_cursor pool) + length (rp_resolvers pool) < 2 ^ 64"
    and "\<forall>h \<in> set (rp_resolvers pool). eligible S now h"
  shows "fst (reserve_many S now (length (rp_resolvers pool)) pool)
      = rotate (unat (rp_cursor pool)) [0..<length (rp_resolvers pool)]"
proof -
  let ?n = "length (rp_resolvers pool)"
  have "\<forall>i < ?n. eligible S now (rp_resolvers pool ! ((unat (rp_cursor pool) + i) mod ?n))"
    using assms(2,4) by auto
  then have "fst (reserve_many S now ?n pool) = map (\<lambda>i. (unat (rp_cursor pool) + i) mod ?n) [0..<?n]"
    using semaphore.reserve_many_rotates [OF assms(1), of pool ?n ?n now] assms(2,3) by simp
  also have "\<dots> = rotate (unat (rp_cursor pool)) [0..<?n]"
    using assms(2) by (intro nth_equalityI) (simp_all add: nth_rotate)
  finally show ?thesis .
qed

theorem reserve_round_robin_witness:
  "fst (reserve_many counting_sem 5 2 (sample_pool\<lparr>rp_cursor := 7\<rparr>)) = [1, 0]"
proof -
  let ?pool = "sample_pool\<lparr>rp_cursor := 7\<rparr>"
  have p: "length (rp_resolvers ?pool) = 2" "unat (rp_cursor ?pool) = 7" "rp_resolvers ?pool \<noteq> []"
    "\<forall>h \<in> set (rp_resolvers ?pool). eligible counting_sem 5 h"
    by (simp_all add: sample_pool_def sample_health_eligible)
  have "rotate 7 [0..<2] = [1, 0]" by code_simp
  then show ?thesis using reserve_round_robin [OF counting.semaphore_axioms p(3) _ p(4)] unfolding p(1,2) by simp
qed

end
