(* ===== verification/Controller.thy ===== *)
theory Controller
  imports Brake Pool
begin

text \<open>
  \<open>AdaptiveController\<close> of \<open>src/controller.rs\<close>. What it shares with the rest of the client
  through \<open>Arc\<close>s (the pool, the global limiter, the attempt pacer and the outcome counters) is
  the record \<open>shared\<close>, passed along. The controller's parallel vectors, one entry per resolver
  in each, are one list of records \<open>slot\<close>. An operation that sets a rate may panic, which is
  \<^term>\<open>None\<close>; that it never does is proved below.
\<close>

section \<open>State\<close>

record Edge =
  ed_qps :: f64
  ed_seen_at :: instant

record slot =
  sl_seen :: Observation
  sl_edge :: "Edge option"
  sl_stepped :: bool
  sl_undo :: "(Edge option \<times> f64) option"
  sl_judge :: LossJudge
  sl_window :: Observation
  sl_window_seconds :: f64

record AdaptiveController =
  ac_global_ceiling :: f64
  ac_slots :: "slot list"
  ac_previous_outcomes :: Observation
  ac_global_window :: Observation
  ac_global_window_dispatched :: u64
  ac_global_window_seconds :: f64
  ac_global_judge :: LossJudge
  ac_global_limit :: "f64 option"
  ac_attempts :: AttemptBrake

record 's shared =
  sh_pool :: "'s ResolverPool"
  sh_limiter :: RateLimiter
  sh_pacer :: "'s AttemptPacer"
  sh_completed :: u64
  sh_failed :: u64

definition slot_new :: slot where
  "slot_new =
     \<lparr>sl_seen = Observation_default, sl_edge = None, sl_stepped = False, sl_undo = None,
      sl_judge = LossJudge_default, sl_window = Observation_default, sl_window_seconds = 0\<rparr>"

definition AdaptiveController_new :: "nat \<Rightarrow> f64 \<Rightarrow> AdaptiveController" where
  "AdaptiveController_new resolver_count global_ceiling =
     \<lparr>ac_global_ceiling = global_ceiling,
      ac_slots = replicate resolver_count slot_new,
      ac_previous_outcomes = Observation_default, ac_global_window = Observation_default,
      ac_global_window_dispatched = 0, ac_global_window_seconds = 0,
      ac_global_judge = LossJudge_default, ac_global_limit = None,
      ac_attempts = AttemptBrake_new\<rparr>"

section \<open>One resolver\<close>

definition MIN_SECONDS :: f64 where "MIN_SECONDS = f64_lit (1 / 1000000)"

definition observe :: "'s ResolverHealth \<Rightarrow> Observation" where
  "observe h =
     (let stats = health_stats h
      in \<lparr>ob_attempted = rs_attempted stats, ob_lost = rs_timeout stats + rs_error stats,
          ob_responded = rs_answered stats + rs_empty stats\<rparr>)"

text \<open>What has been counted since the previous tick.\<close>

definition since :: "Observation \<Rightarrow> Observation \<Rightarrow> Observation" where
  "since current previous =
     \<lparr>ob_attempted = saturating_sub (ob_attempted current) (ob_attempted previous),
      ob_lost = saturating_sub (ob_lost current) (ob_lost previous),
      ob_responded = saturating_sub (ob_responded current) (ob_responded previous)\<rparr>"

definition slot_gather :: "f64 \<Rightarrow> 's ResolverHealth \<Rightarrow> slot \<Rightarrow> slot" where
  "slot_gather seconds h sl =
     (let current = observe h;
          d = since current (sl_seen sl);
          w = sl_window sl
      in sl\<lparr>sl_seen := current,
            sl_window := \<lparr>ob_attempted = ob_attempted w + ob_attempted d, ob_lost = ob_lost w + ob_lost d,
                          ob_responded = ob_responded w + ob_responded d\<rparr>,
            sl_window_seconds := f64_add (sl_window_seconds sl) seconds\<rparr>)"

definition window_open :: "f64 \<Rightarrow> slot \<Rightarrow> bool" where
  "window_open timeout sl \<longleftrightarrow>
     sl_window_seconds sl < timeout
     \<or> (ob_attempted (sl_window sl) < MIN_SAMPLES \<and> sl_window_seconds sl < f64_mul timeout MAX_WINDOW_TIMEOUTS)"

definition edge_target :: "f64 \<Rightarrow> f64" where
  "edge_target qps = max (f64_mul RETREAT qps) MIN_RATE_QPS"

definition relax :: "instant \<Rightarrow> slot \<times> 's ResolverHealth \<Rightarrow> (slot \<times> 's ResolverHealth) option" where
  "relax now sh =
     (case sh of (sl, h) \<Rightarrow>
        (case sl_edge sl of
           None \<Rightarrow> Some (sl, h)
         | Some edge \<Rightarrow>
             if EDGE_TTL \<le> now - ed_seen_at edge then
               map_option (Pair (sl\<lparr>sl_edge := None, sl_judge := end_episode (sl_judge sl)\<rparr>))
                 (health_set_rate h UNLIMITED_QPS)
             else
               let target = edge_target (ed_qps edge);
                   current = health_rate h
               in if current < target
                  then map_option (Pair sl) (health_set_rate h (min (f64_mul current GROWTH) target))
                  else Some (sl, h)))"

definition retreat :: "instant \<Rightarrow> bool \<Rightarrow> f64 \<Rightarrow> slot \<times> 's ResolverHealth \<Rightarrow> (slot \<times> 's ResolverHealth) option" where
  "retreat now converging observed_qps sh =
     (case sh of (sl, h) \<Rightarrow>
        let r = health_rate h;
            shaped = (sl_stepped sl \<and> f64_mul RETREAT r \<le> observed_qps);
            edge = (case sl_edge sl of
                      None \<Rightarrow> \<lparr>ed_qps = observed_qps, ed_seen_at = now\<rparr>
                    | Some e \<Rightarrow> if converging \<and> shaped then \<lparr>ed_qps = min (ed_qps e) r, ed_seen_at = now\<rparr> else e);
            target = edge_target (ed_qps edge);
            stepped = (target < f64_div (f64_mul r (f64_add 1 RETREAT)) 2)
        in map_option (Pair (sl\<lparr>sl_stepped := stepped,
                               sl_undo := (if stepped then Some (sl_edge sl, r) else sl_undo sl),
                               sl_edge := Some edge\<rparr>))
             (health_set_rate h target))"

definition undo_retreat :: "slot \<times> 's ResolverHealth \<Rightarrow> (slot \<times> 's ResolverHealth) option" where
  "undo_retreat sh =
     (case sh of (sl, h) \<Rightarrow>
        let sl1 = sl\<lparr>sl_stepped := False\<rparr>
        in if sl_stepped sl
           then (case sl_undo sl of
                   Some (edge, r) \<Rightarrow>
                     map_option (Pair (sl1\<lparr>sl_undo := None, sl_edge := edge\<rparr>)) (health_set_rate h r)
                 | None \<Rightarrow> Some (sl1, h))
           else Some (sl1, h))"

text \<open>The body of the loop over the resolvers.\<close>

definition slot_tick ::
  "f64 \<Rightarrow> instant \<Rightarrow> slot \<Rightarrow> 's ResolverHealth \<Rightarrow> (slot \<times> 's ResolverHealth) option" where
  "slot_tick seconds now sl0 h =
     (let sl = slot_gather seconds h sl0
      in if window_open (as_secs_f64 (rh_request_timeout h)) sl then relax now (sl, h)
         else
           let w = sl_window sl;
               window_seconds = sl_window_seconds sl;
               sl1 = sl\<lparr>sl_window := Observation_default, sl_window_seconds := 0\<rparr>
           in if ob_attempted w < MIN_SAMPLES then relax now (sl1, h)
              else
                let dispatched = f64_of_u64 (ob_attempted w);
                    loss = min (f64_div (f64_of_u64 (ob_lost w)) dispatched) 1;
                    delivered = f64_div (f64_of_u64 (ob_responded w)) (max window_seconds MIN_SECONDS);
                    vj = judge (sl_judge sl1) loss delivered;
                    sl2 = sl1\<lparr>sl_judge := snd vj\<rparr>
                in case fst vj of
                     Clear \<Rightarrow> relax now (sl2\<lparr>sl_stepped := False\<rparr>, h)
                   | Baseline \<Rightarrow> undo_retreat (sl2, h)
                   | Congested converging \<Rightarrow>
                       retreat now converging (f64_div dispatched (max window_seconds MIN_SECONDS)) (sl2, h))"

section \<open>The global rate\<close>

text \<open>What a tick adds to the open window, the readings of the window, and the decision when it closes.\<close>

definition global_gather :: "f64 \<Rightarrow> u64 \<Rightarrow> u64 \<Rightarrow> u64 \<Rightarrow> AdaptiveController \<Rightarrow> AdaptiveController" where
  "global_gather seconds attempted completed failed c =
     (let current = \<lparr>ob_attempted = completed, ob_lost = failed, ob_responded = 0\<rparr>;
          d = since current (ac_previous_outcomes c);
          gw = ac_global_window c
      in c\<lparr>ac_previous_outcomes := current,
           ac_global_window := gw\<lparr>ob_attempted := ob_attempted gw + ob_attempted d, ob_lost := ob_lost gw + ob_lost d\<rparr>,
           ac_global_window_dispatched := ac_global_window_dispatched c + attempted,
           ac_global_window_seconds := f64_add (ac_global_window_seconds c) seconds\<rparr>)"

definition global_close :: "AdaptiveController \<Rightarrow> AdaptiveController" where
  "global_close c = c\<lparr>ac_global_window := Observation_default, ac_global_window_dispatched := 0, ac_global_window_seconds := 0\<rparr>"

definition global_loss :: "AdaptiveController \<Rightarrow> f64" where
  "global_loss c = f64_div (f64_of_u64 (ob_lost (ac_global_window c))) (f64_of_u64 (ob_attempted (ac_global_window c)))"

definition global_delivered :: "AdaptiveController \<Rightarrow> f64" where
  "global_delivered c =
     f64_div (f64_of_u64 (saturating_sub (ob_attempted (ac_global_window c)) (ob_lost (ac_global_window c))))
       (max (ac_global_window_seconds c) MIN_SECONDS)"

definition global_basis :: "AdaptiveController \<Rightarrow> f64" where
  "global_basis c =
     (case ac_global_limit c of Some x \<Rightarrow> x
      | None \<Rightarrow> f64_div (f64_of_u64 (ac_global_window_dispatched c)) (max (ac_global_window_seconds c) MIN_SECONDS))"

definition global_decide :: "AdaptiveController \<times> RateLimiter \<Rightarrow> (AdaptiveController \<times> RateLimiter) option" where
  "global_decide cl =
     (case cl of (c, l) \<Rightarrow>
        let vj = judge (ac_global_judge c) (global_loss c) (global_delivered c);
            c3 = (global_close c)\<lparr>ac_global_judge := snd vj\<rparr>
        in case fst vj of
             Congested _ \<Rightarrow>
               (let target = min (max (f64_mul (global_basis c) RETREAT) MIN_RATE_QPS) (ac_global_ceiling c)
                in map_option (Pair (c3\<lparr>ac_global_limit := Some target\<rparr>)) (set_rate l target))
           | _ \<Rightarrow>
               if MAX_BASELINE_LOSS < global_loss c then Some (c3, l)
               else case ac_global_limit c of
                      None \<Rightarrow> Some (c3, l)
                    | Some x \<Rightarrow>
                        if ac_global_ceiling c \<le> f64_mul x GROWTH
                        then map_option (Pair (c3\<lparr>ac_global_limit := None\<rparr>)) (set_rate l (ac_global_ceiling c))
                        else map_option (Pair (c3\<lparr>ac_global_limit := Some (f64_mul x GROWTH)\<rparr>)) (set_rate l (f64_mul x GROWTH)))"

definition adjust_global ::
  "f64 \<Rightarrow> u64 \<Rightarrow> u64 \<Rightarrow> u64 \<Rightarrow> AdaptiveController \<times> RateLimiter \<Rightarrow> (AdaptiveController \<times> RateLimiter) option" where
  "adjust_global seconds attempted completed failed cl =
     (let c = global_gather seconds attempted completed failed (fst cl)
      in if ob_attempted (ac_global_window c) < MIN_AGGREGATE_SAMPLES then Some (c, snd cl)
         else global_decide (c, snd cl))"

section \<open>A tick\<close>

record totals =
  tt_attempted :: u64
  tt_lost :: u64
  tt_responded :: u64
  tt_longest_timeout :: f64
  tt_responsive :: nat

definition tally :: "slot \<times> 's ResolverHealth \<Rightarrow> totals \<Rightarrow> totals" where
  "tally sh t =
     (case sh of (sl, h) \<Rightarrow>
        let current = observe h;
            d = since current (sl_seen sl);
            t1 = t\<lparr>tt_attempted := tt_attempted t + ob_attempted d,
                   tt_longest_timeout := max (tt_longest_timeout t) (as_secs_f64 (rh_request_timeout h))\<rparr>
        in if 0 < ob_responded current
           then t1\<lparr>tt_responsive := tt_responsive t1 + 1, tt_lost := tt_lost t1 + ob_lost d,
                   tt_responded := tt_responded t1 + ob_responded d\<rparr>
           else t1)"

definition totals_start :: totals where
  "totals_start = \<lparr>tt_attempted = 0, tt_lost = 0, tt_responded = 0, tt_longest_timeout = 0, tt_responsive = 0\<rparr>"

definition tick_resolvers ::
  "f64 \<Rightarrow> instant \<Rightarrow> AdaptiveController \<times> 's shared \<Rightarrow> (AdaptiveController \<times> 's shared) option" where
  "tick_resolvers seconds now cs =
     (case cs of (c, s) \<Rightarrow>
        let hs = rp_resolvers (sh_pool s);
            n = length hs
        in if length (ac_slots c) < n then None
           else map_option (\<lambda>rs. (c\<lparr>ac_slots := map fst rs @ drop n (ac_slots c)\<rparr>,
                                  s\<lparr>sh_pool := (sh_pool s)\<lparr>rp_resolvers := map snd rs\<rparr>\<rparr>))
                  (those (map2 (slot_tick seconds now) (take n (ac_slots c)) hs)))"

definition tick_attempts ::
  "f64 \<Rightarrow> totals \<Rightarrow> instant \<Rightarrow> AdaptiveController \<times> 's shared \<Rightarrow> AdaptiveController \<times> 's shared" where
  "tick_attempts seconds t now cs =
     (case cs of (c, s) \<Rightarrow>
        let bp = (ac_attempts c, sh_pacer s);
            bp' = (if ATTEMPT_MIN_RESOLVERS \<le> tt_responsive t
                   then brake_tick seconds (tt_attempted t) (tt_lost t) (tt_responded t) (tt_longest_timeout t) now bp
                   else if ab_limit (ac_attempts c) \<noteq> None then set_limit None bp else bp)
        in (c\<lparr>ac_attempts := fst bp'\<rparr>, s\<lparr>sh_pacer := snd bp'\<rparr>))"

definition controller_tick ::
  "duration \<Rightarrow> instant \<Rightarrow> AdaptiveController \<times> 's shared \<Rightarrow> (AdaptiveController \<times> 's shared) option" where
  "controller_tick elapsed now cs0 =
     (let seconds = max (as_secs_f64 elapsed) MIN_SECONDS;
          t = fold tally (zip (ac_slots (fst cs0)) (rp_resolvers (sh_pool (snd cs0)))) totals_start
      in case tick_resolvers seconds now cs0 of
           None \<Rightarrow> None
         | Some (c, s) \<Rightarrow>
             (case adjust_global seconds (tt_attempted t) (sh_completed s) (sh_failed s) (c, sh_limiter s) of
                None \<Rightarrow> None
              | Some (c1, l1) \<Rightarrow>
                  let c2 = (if rate l1 \<noteq> rate (sh_limiter s)
                            then c1\<lparr>ac_attempts := (ac_attempts c1)\<lparr>ab_settling := True\<rparr>\<rparr> else c1)
                  in Some (tick_attempts seconds t now (c2, s\<lparr>sh_limiter := l1\<rparr>))))"

section \<open>The pacing of a resolver is a function of its edge\<close>

text \<open>The interval that belongs to an edge; without one the resolver is not paced.\<close>

definition edge_interval :: "Edge option \<Rightarrow> u64" where
  "edge_interval e =
     (case e of None \<Rightarrow> 1
      | Some e \<Rightarrow> (case interval_for (edge_target (ed_qps e)) of Some i \<Rightarrow> i | None \<Rightarrow> 0))"

definition interval_rate :: "u64 \<Rightarrow> f64" where
  "interval_rate i = f64_div 1000000000 (f64_of_u64 i)"

definition slot_ok :: "slot \<times> 's ResolverHealth \<Rightarrow> bool" where
  "slot_ok sh \<longleftrightarrow>
     (case sh of (sl, h) \<Rightarrow> judge_ok (sl_judge sl)
        \<and> rl_interval_ns (rh_limiter h) = edge_interval (sl_edge sl)
        \<and> (\<forall>e r. sl_undo sl = Some (e, r) \<longrightarrow> r = interval_rate (edge_interval e)))"

lemma edge_target_ge_1: "1 \<le> edge_target q"
  by (simp add: edge_target_def MIN_RATE_QPS_def)

lemma edge_target_mono: "q \<le> q' \<Longrightarrow> edge_target q \<le> edge_target q'"
proof -
  assume "q \<le> q'"
  then have "RETREAT * q \<le> RETREAT * q'" using judge_constants(7) by (intro mult_left_mono) auto
  then have "f64_mul RETREAT q \<le> f64_mul RETREAT q'" unfolding f64_mul_def by (rule b64.rnd_mono)
  then show ?thesis unfolding edge_target_def by (rule max.mono) simp
qed

lemma interval_for_target: "interval_for (edge_target (ed_qps e)) = Some (edge_interval (Some e))"
  using interval_for_pos [of "edge_target (ed_qps e)"] edge_target_ge_1 [of "ed_qps e"]
  by (auto simp: edge_interval_def split: option.splits)

lemma edge_interval_range:
  obtains n :: nat where "edge_interval e = of_nat n" "1 \<le> n" "n \<le> 1000000001"
proof (cases e)
  case None
  then show thesis using that [of 1] by (simp add: edge_interval_def)
next
  case (Some a)
  from interval_for_ge_1 [OF edge_target_ge_1, of "ed_qps a"] obtain n where
    "interval_for (edge_target (ed_qps a)) = Some (of_nat n)" "1 \<le> n" "n \<le> 1000000001" by metis
  then show thesis using that [of n] Some by (simp add: edge_interval_def)
qed

lemma edge_interval_mono:
  assumes "ed_qps e \<le> ed_qps e'"
  shows "edge_interval (Some e') \<le> edge_interval (Some e)"
  using interval_for_antimono [OF _ edge_target_mono [OF assms] interval_for_target interval_for_target]
    edge_target_ge_1 [of "ed_qps e"] by simp

lemma edge_interval_ge_1: "1 \<le> edge_interval e"
proof -
  obtain n where n: "edge_interval e = of_nat n" "1 \<le> n" "n \<le> 1000000001" by (rule edge_interval_range [of e])
  have "unat (of_nat n :: u64) = n" using n(3) by (simp add: unat_of_nat)
  then show ?thesis using n by (simp add: word_le_nat_alt)
qed

lemma rate_interval_rate: "rate l = interval_rate (rl_interval_ns l)"
  by (simp add: rate_def interval_rate_def)

lemma interval_for_interval_rate: "interval_for (interval_rate (edge_interval e)) = Some (edge_interval e)"
proof -
  obtain n where n: "edge_interval e = of_nat n" "1 \<le> n" "n \<le> 1000000001" by (rule edge_interval_range [of e])
  let ?l = "\<lparr>rl_interval_ns = edge_interval e, rl_start = 0, rl_next_ns = 0\<rparr>"
  have "interval_for (rate ?l) = Some (of_nat n)" using n by (intro interval_for_rate) simp_all
  then show ?thesis using n(1) by (simp add: rate_interval_rate)
qed

lemma interval_for_unlimited: "interval_for UNLIMITED_QPS = Some 1"
  by (rule interval_for_fast) (simp add: UNLIMITED_QPS_def)

text \<open>Setting the rate of an edge, of no edge, or the rate read at an edge.\<close>

lemma health_set_rate_eq:
  "interval_for q = Some i \<Longrightarrow> health_set_rate h q = Some (h\<lparr>rh_limiter := (rh_limiter h)\<lparr>rl_interval_ns := i\<rparr>\<rparr>)"
  by (simp add: health_set_rate_def set_rate_def)

lemma health_set_same:
  "interval_for q = Some (rl_interval_ns (rh_limiter h)) \<Longrightarrow> health_set_rate h q = Some h"
  by (simp add: health_set_rate_eq)

text \<open>While an edge is live there is nothing to climb: the pacing already is what the edge asks for.\<close>

lemma relax_live:
  assumes "rl_interval_ns (rh_limiter h) = edge_interval (Some e)" and "sl_edge sl = Some e"
    and "now - ed_seen_at e < EDGE_TTL"
  shows "relax now (sl, h) = Some (sl, h)"
proof -
  let ?cur = "health_rate h" and ?t = "edge_target (ed_qps e)" and ?i = "edge_interval (Some e)"
  let ?q = "min (f64_mul ?cur GROWTH) ?t"
  have cur: "?cur = interval_rate ?i" by (simp add: health_rate_def rate_interval_rate assms(1))
  have ci: "interval_for ?cur = Some ?i" unfolding cur by (rule interval_for_interval_rate)
  then have pos: "0 < ?cur" using interval_for_Some by blast
  have "is_f64 ?cur" by (simp add: cur interval_rate_def)
  then have grow: "?cur \<le> f64_mul ?cur GROWTH"
    unfolding f64_mul_def using pos judge_constants(9) by (intro f64_le_round) auto
  have "health_set_rate h ?q = Some h" if lt: "?cur < ?t"
  proof -
    have q: "?cur \<le> ?q" "?q \<le> ?t" using grow lt by auto
    have q0: "0 < ?q" using q(1) pos by linarith
    then obtain j where j: "interval_for ?q = Some j" using interval_for_pos by blast
    have "j \<le> ?i" using interval_for_antimono [OF pos q(1) ci j] .
    moreover have "?i \<le> j" using interval_for_antimono [OF q0 q(2) j interval_for_target] .
    ultimately show ?thesis using j assms(1) by (intro health_set_same) simp
  qed
  then show ?thesis using assms(2,3) by (auto simp: relax_def Let_def)
qed

lemma relax_expired:
  assumes "sl_edge sl = Some e" and "EDGE_TTL \<le> now - ed_seen_at e"
  shows "relax now (sl, h) = Some (sl\<lparr>sl_edge := None, sl_judge := end_episode (sl_judge sl)\<rparr>,
      h\<lparr>rh_limiter := (rh_limiter h)\<lparr>rl_interval_ns := 1\<rparr>\<rparr>)"
  using assms by (simp add: relax_def health_set_rate_eq [OF interval_for_unlimited])

lemma relax_ok:
  assumes "slot_ok (sl, h)"
  shows "\<exists>sl' h'. relax now (sl, h) = Some (sl', h') \<and> slot_ok (sl', h')
    \<and> rl_interval_ns (rh_limiter h') \<le> rl_interval_ns (rh_limiter h)"
proof (cases "sl_edge sl")
  case None
  then show ?thesis using assms by (simp add: relax_def)
next
  case (Some e)
  show ?thesis
  proof (cases "EDGE_TTL \<le> now - ed_seen_at e")
    case True
    then show ?thesis using relax_expired [OF Some True, of h] assms edge_interval_ge_1 [of "sl_edge sl"]
      by (simp add: slot_ok_def edge_interval_def judge_ok_end_episode)
  next
    case False
    then show ?thesis using relax_live [of h e sl now] assms Some by (simp add: slot_ok_def)
  qed
qed

lemma undo_retreat_ok:
  assumes "slot_ok (sl, h)"
  shows "\<exists>sl' h'. undo_retreat (sl, h) = Some (sl', h') \<and> slot_ok (sl', h')"
proof (cases "sl_stepped sl \<and> sl_undo sl \<noteq> None")
  case True
  then obtain e r where u: "sl_undo sl = Some (e, r)" by auto
  then have "interval_for r = Some (edge_interval e)"
    using assms interval_for_interval_rate [of e] by (simp add: slot_ok_def)
  then show ?thesis using True u assms
    by (simp add: undo_retreat_def Let_def health_set_rate_eq slot_ok_def)
next
  case False
  then show ?thesis using assms by (cases "sl_undo sl") (auto simp: undo_retreat_def Let_def slot_ok_def)
qed

text \<open>A retreat never speeds a resolver up.\<close>

lemma retreat_ok:
  assumes "slot_ok (sl, h)"
  shows "\<exists>sl' h'. retreat now c q (sl, h) = Some (sl', h') \<and> slot_ok (sl', h')
    \<and> rl_interval_ns (rh_limiter h) \<le> rl_interval_ns (rh_limiter h')"
proof -
  let ?r = "health_rate h"
  let ?shaped = "sl_stepped sl \<and> f64_mul RETREAT ?r \<le> q"
  define edge where "edge = (case sl_edge sl of
      None \<Rightarrow> \<lparr>ed_qps = q, ed_seen_at = now\<rparr>
    | Some e \<Rightarrow> if c \<and> ?shaped then \<lparr>ed_qps = min (ed_qps e) ?r, ed_seen_at = now\<rparr> else e)"
  define st where "st = (edge_target (ed_qps edge) < f64_div (f64_mul ?r (f64_add 1 RETREAT)) 2)"
  define sl' where "sl' = sl\<lparr>sl_stepped := st, sl_undo := (if st then Some (sl_edge sl, ?r) else sl_undo sl), sl_edge := Some edge\<rparr>"
  define h' where "h' = h\<lparr>rh_limiter := (rh_limiter h)\<lparr>rl_interval_ns := edge_interval (Some edge)\<rparr>\<rparr>"
  have eq: "retreat now c q (sl, h) = Some (sl', h')"
    using health_set_rate_eq [OF interval_for_target [of edge], of h]
    by (simp add: retreat_def Let_def edge_def [symmetric] st_def [symmetric] sl'_def h'_def)
  have r: "?r = interval_rate (edge_interval (sl_edge sl))"
    using assms by (simp add: slot_ok_def health_rate_def rate_interval_rate)
  have ok: "slot_ok (sl', h')" using assms r by (auto simp: slot_ok_def sl'_def h'_def)
  have "edge_interval (sl_edge sl) \<le> edge_interval (Some edge)"
  proof (cases "sl_edge sl")
    case None
    then show ?thesis using edge_interval_ge_1 [of "Some edge"] by (simp add: edge_interval_def)
  next
    case (Some e)
    then have "ed_qps edge \<le> ed_qps e" by (auto simp: edge_def)
    then show ?thesis using Some edge_interval_mono by simp
  qed
  then have "rl_interval_ns (rh_limiter h) \<le> rl_interval_ns (rh_limiter h')"
    using assms by (simp add: slot_ok_def h'_def)
  then show ?thesis using eq ok by blast
qed

lemma slot_ok_judge_update:
  "slot_ok (sl, h) \<Longrightarrow> 0 \<le> x \<Longrightarrow> slot_ok (sl\<lparr>sl_judge := snd (judge (sl_judge sl) x d)\<rparr>, h)"
  using judge_ok_judge [of "sl_judge sl" x d] by (cases "judge (sl_judge sl) x d") (auto simp: slot_ok_def)

lemma slot_ok_gather: "slot_ok (sl, h) \<Longrightarrow> slot_ok (slot_gather s h sl, h)"
  by (simp add: slot_ok_def slot_gather_def Let_def)

lemma slot_ok_frame:
  "slot_ok (sl, h) \<Longrightarrow> slot_ok (sl\<lparr>sl_window := w, sl_window_seconds := x\<rparr>, h)"
  "slot_ok (sl, h) \<Longrightarrow> slot_ok (sl\<lparr>sl_stepped := b\<rparr>, h)"
  by (simp_all add: slot_ok_def)

text \<open>The loss a closing window shows.\<close>

definition slot_loss :: "slot \<Rightarrow> f64" where
  "slot_loss sl = min (f64_div (f64_of_u64 (ob_lost (sl_window sl))) (f64_of_u64 (ob_attempted (sl_window sl)))) 1"

lemma slot_tick_cases:
  assumes "slot_ok (sl, h)"
  obtains
    (relaxed) sl1 where "slot_tick seconds now sl h = relax now (sl1, h)" "slot_ok (sl1, h)" "sl_edge sl1 = sl_edge sl"
  | (undone) sl1 d where "slot_tick seconds now sl h = undo_retreat (sl1, h)" "slot_ok (sl1, h)"
      "fst (judge (sl_judge sl) (slot_loss (slot_gather seconds h sl)) d) = Baseline"
  | (retreated) sl1 c q d where "slot_tick seconds now sl h = retreat now c q (sl1, h)" "slot_ok (sl1, h)"
      "fst (judge (sl_judge sl) (slot_loss (slot_gather seconds h sl)) d) = Congested c"
proof -
  let ?sl = "slot_gather seconds h sl"
  let ?sl1 = "?sl\<lparr>sl_window := Observation_default, sl_window_seconds := 0\<rparr>"
  let ?w = "sl_window ?sl" and ?t = "as_secs_f64 (rh_request_timeout h)"
  define d where "d = f64_div (f64_of_u64 (ob_responded ?w)) (max (sl_window_seconds ?sl) MIN_SECONDS)"
  define q where "q = f64_div (f64_of_u64 (ob_attempted ?w)) (max (sl_window_seconds ?sl) MIN_SECONDS)"
  define vj where "vj = judge (sl_judge sl) (slot_loss ?sl) d"
  define sl2 where "sl2 = ?sl1\<lparr>sl_judge := snd vj\<rparr>"
  have j: "sl_judge ?sl1 = sl_judge sl" "sl_edge ?sl = sl_edge sl" by (simp_all add: slot_gather_def Let_def)
  have ok: "slot_ok (?sl, h)" using assms by (rule slot_ok_gather)
  have ok1: "slot_ok (?sl1, h)" using ok by (rule slot_ok_frame)
  have "0 \<le> slot_loss ?sl" by (simp add: slot_loss_def f64_div_nonneg)
  then have ok2: "slot_ok (sl2, h)" using slot_ok_judge_update [OF ok1] by (simp only: sl2_def vj_def j)
  have st: "slot_tick seconds now sl h =
    (if window_open ?t ?sl then relax now (?sl, h)
     else if ob_attempted ?w < MIN_SAMPLES then relax now (?sl1, h)
     else case fst vj of Clear \<Rightarrow> relax now (sl2\<lparr>sl_stepped := False\<rparr>, h)
       | Baseline \<Rightarrow> undo_retreat (sl2, h)
       | Congested converging \<Rightarrow> retreat now converging q (sl2, h))"
    unfolding slot_tick_def Let_def j d_def [symmetric] q_def [symmetric] slot_loss_def [symmetric] vj_def [symmetric]
      sl2_def [symmetric] ..
  show thesis
  proof (cases "window_open ?t ?sl \<or> ob_attempted ?w < MIN_SAMPLES")
    case True
    then consider "slot_tick seconds now sl h = relax now (?sl, h)" | "slot_tick seconds now sl h = relax now (?sl1, h)"
      using st by presburger
    then show thesis
    proof cases
      case 1
      then show thesis using ok j(2) by (rule relaxed)
    next
      case 2
      then show thesis using ok1 by (rule relaxed) (simp add: j(2))
    qed
  next
    case False
    show thesis
    proof (cases "fst vj")
      case (Congested c)
      then have "slot_tick seconds now sl h = retreat now c q (sl2, h)" using st False by simp
      then show thesis using retreated [of c q sl2 d] ok2 Congested by (simp add: vj_def)
    next
      case Clear
      then have "slot_tick seconds now sl h = relax now (sl2\<lparr>sl_stepped := False\<rparr>, h)" using st False by simp
      then show thesis using relaxed slot_ok_frame(2) [OF ok2] j(2) by (simp add: sl2_def)
    next
      case Baseline
      then have "slot_tick seconds now sl h = undo_retreat (sl2, h)" using st False by simp
      then show thesis using undone [of sl2 d] ok2 Baseline by (simp add: vj_def)
    qed
  qed
qed

lemma slot_tick_ok:
  assumes "slot_ok (sl, h)"
  shows "\<exists>sl' h'. slot_tick seconds now sl h = Some (sl', h') \<and> slot_ok (sl', h')"
  using assms
proof (cases rule: slot_tick_cases [of sl h seconds now])
  case (relaxed sl1)
  then show ?thesis using relax_ok [OF relaxed(2), of now] by auto
next
  case (undone sl1 d)
  then show ?thesis using undo_retreat_ok [OF undone(2)] by auto
next
  case (retreated sl1 c q d)
  then show ?thesis using retreat_ok [OF retreated(2), of now c q] by auto
qed

text \<open>No loss in the window, no slowing down.\<close>

lemma slot_tick_no_loss:
  assumes "slot_ok (sl, h)" and "ob_lost (sl_window (slot_gather seconds h sl)) = 0"
  shows "\<exists>sl1. slot_tick seconds now sl h = relax now (sl1, h) \<and> slot_ok (sl1, h) \<and> sl_edge sl1 = sl_edge sl"
proof -
  have "slot_loss (slot_gather seconds h sl) = 0" using assms(2) by (simp add: slot_loss_def f64_div_def)
  moreover have "judge_ok (sl_judge sl)" using assms(1) by (simp add: slot_ok_def)
  ultimately have clear: "fst (judge (sl_judge sl) (slot_loss (slot_gather seconds h sl)) d) = Clear" for d
    by (simp add: judge_no_loss)
  from assms(1) show ?thesis
    by (cases rule: slot_tick_cases [of sl h seconds now]) (auto simp: clear)
qed

lemma slot_tick_clean:
  assumes "slot_ok (sl, h)" and "ob_lost (sl_window (slot_gather seconds h sl)) = 0"
    and "slot_tick seconds now sl h = Some (sl', h')"
  shows "rl_interval_ns (rh_limiter h') \<le> rl_interval_ns (rh_limiter h)"
  using slot_tick_no_loss [OF assms(1,2), of now] relax_ok [of _ h now] assms(3) by fastforce

section \<open>The global rate\<close>

text \<open>The pacing of the global limiter is that of the standing limit, or of the ceiling.\<close>

definition global_ok :: "AdaptiveController \<times> RateLimiter \<Rightarrow> bool" where
  "global_ok cl \<longleftrightarrow>
     (case cl of (c, l) \<Rightarrow> 0 < ac_global_ceiling c \<and> is_f64 (ac_global_ceiling c) \<and> judge_ok (ac_global_judge c)
        \<and> (\<forall>x. ac_global_limit c = Some x \<longrightarrow> min 1 (ac_global_ceiling c) \<le> x \<and> x \<le> ac_global_ceiling c)
        \<and> interval_for (case ac_global_limit c of Some x \<Rightarrow> x | None \<Rightarrow> ac_global_ceiling c) = Some (rl_interval_ns l))"

lemma set_rate_interval: "set_rate l q = Some l' \<Longrightarrow> interval_for q = Some (rl_interval_ns l')"
  by (auto simp: set_rate_def)

lemma set_rate_ex: "0 < q \<Longrightarrow> \<exists>l'. set_rate l q = Some l' \<and> interval_for q = Some (rl_interval_ns l')"
  using set_rate_pos [of q l] set_rate_interval by blast

lemma global_gather_simps [simp]:
  "ac_global_limit (global_gather s a k f c) = ac_global_limit c"
  "ac_global_ceiling (global_gather s a k f c) = ac_global_ceiling c"
  "ac_global_judge (global_gather s a k f c) = ac_global_judge c"
  "ac_slots (global_gather s a k f c) = ac_slots c" "ac_attempts (global_gather s a k f c) = ac_attempts c"
  by (simp_all add: global_gather_def Let_def)

lemma global_close_simps [simp]:
  "ac_global_limit (global_close c) = ac_global_limit c" "ac_global_ceiling (global_close c) = ac_global_ceiling c"
  "ac_global_judge (global_close c) = ac_global_judge c"
  "ac_slots (global_close c) = ac_slots c" "ac_attempts (global_close c) = ac_attempts c"
  "ac_global_window (global_close c) = Observation_default"
  "ac_previous_outcomes (global_close c) = ac_previous_outcomes c"
  by (simp_all add: global_close_def)

lemma global_loss_nonneg: "0 \<le> global_loss c"
  by (simp add: global_loss_def f64_div_nonneg)

text \<open>A limit once set, and everything that grows from it, is at least the smaller of one and the ceiling.\<close>

lemma growth_keeps_floor:
  assumes "is_f64 m" "0 < m" "m \<le> x"
  shows "m \<le> f64_mul x GROWTH"
proof -
  have "m \<le> x * GROWTH" using assms(2,3) unfolding judge_constants(9) by simp
  then show ?thesis unfolding f64_mul_def by (rule f64_le_round [OF assms(1)])
qed

lemma global_decide_ok:
  assumes "global_ok (c, l)"
  shows "\<exists>c' l'. global_decide (c, l) = Some (c', l') \<and> global_ok (c', l') \<and> ac_slots c' = ac_slots c
    \<and> ac_attempts c' = ac_attempts c \<and> ac_global_ceiling c' = ac_global_ceiling c"
proof -
  let ?vj = "judge (ac_global_judge c) (global_loss c) (global_delivered c)"
  let ?C = "ac_global_ceiling c" and ?m = "min 1 (ac_global_ceiling c)"
  define c3 where "c3 = (global_close c)\<lparr>ac_global_judge := snd ?vj\<rparr>"
  define t where "t = min (max (f64_mul (global_basis c) RETREAT) MIN_RATE_QPS) ?C"
  have ok: "0 < ?C" "is_f64 ?C" "judge_ok (ac_global_judge c)" using assms by (auto simp: global_ok_def)
  have j: "judge_ok (snd ?vj)"
    using judge_ok_judge [OF ok(3) global_loss_nonneg] by (metis prod.collapse)
  have m: "is_f64 ?m" "0 < ?m" using ok by (auto simp: min_def)
  have t: "?m \<le> t" "t \<le> ?C" by (auto simp: t_def MIN_RATE_QPS_def)
  have set: "\<exists>l'. set_rate l q = Some l' \<and> interval_for q = Some (rl_interval_ns l')" if "?m \<le> q" for q
    using set_rate_ex [of q l] m(2) that by simp
  have c3: "ac_global_judge c3 = snd ?vj" "ac_global_limit c3 = ac_global_limit c" "ac_global_ceiling c3 = ?C"
    "ac_slots c3 = ac_slots c" "ac_attempts c3 = ac_attempts c" by (simp_all add: c3_def)
  have same: "global_ok (c3, l)" using assms j by (cases "ac_global_limit c") (simp_all add: global_ok_def c3)
  have lim: "global_ok (c3\<lparr>ac_global_limit := Some q\<rparr>, l')"
    if "?m \<le> q" "q \<le> ?C" "interval_for q = Some (rl_interval_ns l')" for q l'
    using that ok j by (simp add: global_ok_def c3)
  have top: "global_ok (c3\<lparr>ac_global_limit := None\<rparr>, l')" if "interval_for ?C = Some (rl_interval_ns l')" for l'
    using that ok j by (simp add: global_ok_def c3)
  define e where "e = (if MAX_BASELINE_LOSS < global_loss c then Some (c3, l)
    else case ac_global_limit c of None \<Rightarrow> Some (c3, l)
      | Some x \<Rightarrow>
          if ?C \<le> f64_mul x GROWTH then map_option (Pair (c3\<lparr>ac_global_limit := None\<rparr>)) (set_rate l ?C)
          else map_option (Pair (c3\<lparr>ac_global_limit := Some (f64_mul x GROWTH)\<rparr>)) (set_rate l (f64_mul x GROWTH)))"
  have grown: "?m \<le> f64_mul x GROWTH" if "ac_global_limit c = Some x" for x
    using growth_keeps_floor [OF m] assms that by (simp add: global_ok_def)
  have e: "\<exists>c' l'. e = Some (c', l') \<and> global_ok (c', l') \<and> ac_slots c' = ac_slots c
    \<and> ac_attempts c' = ac_attempts c \<and> ac_global_ceiling c' = ?C"
    using same set [of ?C] top c3 set [OF grown] lim [OF grown]
    by (cases "ac_global_limit c") (auto simp: e_def)
  show ?thesis
  proof (cases "fst ?vj")
    case (Congested b)
    then have "global_decide (c, l) = map_option (Pair (c3\<lparr>ac_global_limit := Some t\<rparr>)) (set_rate l t)"
      by (simp add: global_decide_def Let_def c3_def t_def)
    then show ?thesis using set [OF t(1)] lim [OF t] c3 by auto
  next
    case Clear
    then have "global_decide (c, l) = e"
      by (cases "ac_global_limit c") (simp_all add: global_decide_def Let_def c3_def e_def)
    then show ?thesis using e by simp
  next
    case Baseline
    then have "global_decide (c, l) = e"
      by (cases "ac_global_limit c") (simp_all add: global_decide_def Let_def c3_def e_def)
    then show ?thesis using e by simp
  qed
qed

lemma adjust_global_ok:
  assumes "global_ok (c, l)"
  shows "\<exists>c' l'. adjust_global s a k f (c, l) = Some (c', l') \<and> global_ok (c', l') \<and> ac_slots c' = ac_slots c
    \<and> ac_attempts c' = ac_attempts c \<and> ac_global_ceiling c' = ac_global_ceiling c"
proof -
  have g: "global_ok (global_gather s a k f c, l)"
    using assms by (cases "ac_global_limit c") (simp_all add: global_ok_def)
  show ?thesis using global_decide_ok [OF g] g by (auto simp: adjust_global_def Let_def)
qed

text \<open>The ceiling is a hard cap: the interval in force is never shorter than the ceiling's.\<close>

lemma global_ok_cap:
  assumes "global_ok (c, l)" and "interval_for (ac_global_ceiling c) = Some i"
  shows "i \<le> rl_interval_ns l"
proof (cases "ac_global_limit c")
  case None
  then show ?thesis using assms by (simp add: global_ok_def)
next
  case (Some x)
  then have x: "min 1 (ac_global_ceiling c) \<le> x" "x \<le> ac_global_ceiling c" "0 < ac_global_ceiling c"
    and i: "interval_for x = Some (rl_interval_ns l)" using assms(1) by (simp_all add: global_ok_def)
  then have "0 < x" by (simp add: min_def split: if_splits)
  then show ?thesis using interval_for_antimono [OF _ x(2) i assms(2)] by simp
qed

section \<open>The controller\<close>

definition ctl_ok :: "AdaptiveController \<times> 's shared \<Rightarrow> bool" where
  "ctl_ok cs \<longleftrightarrow>
     (case cs of (c, s) \<Rightarrow>
        length (ac_slots c) = length (rp_resolvers (sh_pool s))
        \<and> list_all slot_ok (zip (ac_slots c) (rp_resolvers (sh_pool s)))
        \<and> global_ok (c, sh_limiter s) \<and> brake_ok (ac_attempts c, sh_pacer s))"

lemma those_map2_ok:
  assumes "length xs = length ys" "list_all P (zip xs ys)"
    and "\<And>x y. P (x, y) \<Longrightarrow> \<exists>x' y'. f x y = Some (x', y') \<and> P (x', y')"
  shows "\<exists>rs. those (map2 f xs ys) = Some rs \<and> length rs = length xs \<and> list_all P rs"
  using assms(1,2)
proof (induction xs ys rule: list_induct2)
  case (Cons x xs y ys)
  then obtain rs where rs: "those (map2 f xs ys) = Some rs" "length rs = length xs" "list_all P rs" by auto
  moreover obtain x' y' where "f x y = Some (x', y')" "P (x', y')" using assms(3) [of x y] Cons.prems by auto
  ultimately show ?case by simp
qed simp

lemma tick_resolvers_ok:
  assumes "ctl_ok (c, s)"
  shows "\<exists>c' s'. tick_resolvers seconds now (c, s) = Some (c', s') \<and> ctl_ok (c', s')
    \<and> sh_limiter s' = sh_limiter s \<and> ac_global_ceiling c' = ac_global_ceiling c"
proof -
  let ?hs = "rp_resolvers (sh_pool s)"
  have len: "length (ac_slots c) = length ?hs" and ok: "list_all slot_ok (zip (ac_slots c) ?hs)"
    using assms by (simp_all add: ctl_ok_def)
  obtain rs where rs: "those (map2 (slot_tick seconds now) (ac_slots c) ?hs) = Some rs"
    "length rs = length (ac_slots c)" "list_all slot_ok rs"
    using those_map2_ok [OF len ok, of "slot_tick seconds now"] slot_tick_ok by blast
  have g: "global_ok (c, sh_limiter s)" using assms by (simp add: ctl_ok_def)
  have "global_ok (c\<lparr>ac_slots := xs\<rparr>, sh_limiter s)" for xs
    using g by (cases "ac_global_limit c") (simp_all add: global_ok_def)
  then show ?thesis using rs len assms
    by (simp add: tick_resolvers_def Let_def ctl_ok_def zip_map_fst_snd)
qed

lemma tick_attempts_ok:
  assumes "ctl_ok (c, s)"
  shows "ctl_ok (tick_attempts seconds t now (c, s))"
proof -
  have b: "brake_ok (ac_attempts c, sh_pacer s)" and g: "global_ok (c, sh_limiter s)"
    using assms by (simp_all add: ctl_ok_def)
  have "brake_ok (set_limit None (ac_attempts c, sh_pacer s))"
    using b by (intro set_limit_ok) (auto simp: brake_ok_def probe_ok_def)
  moreover have "global_ok (c\<lparr>ac_attempts := x\<rparr>, sh_limiter s)" for x
    using g by (cases "ac_global_limit c") (simp_all add: global_ok_def)
  ultimately show ?thesis using assms b brake_tick_ok [OF b]
    by (simp add: tick_attempts_def Let_def ctl_ok_def)
qed

lemma controller_tick_ok:
  assumes "ctl_ok (c, s)"
  shows "\<exists>c' s'. controller_tick elapsed now (c, s) = Some (c', s') \<and> ctl_ok (c', s')
    \<and> ac_global_ceiling c' = ac_global_ceiling c"
proof -
  let ?sec = "max (as_secs_f64 elapsed) MIN_SECONDS"
  define t where "t = fold tally (zip (ac_slots c) (rp_resolvers (sh_pool s))) totals_start"
  obtain c1 s1 where r: "tick_resolvers ?sec now (c, s) = Some (c1, s1)" "ctl_ok (c1, s1)"
    "sh_limiter s1 = sh_limiter s" "ac_global_ceiling c1 = ac_global_ceiling c"
    using tick_resolvers_ok [OF assms, of ?sec now] by blast
  have "global_ok (c1, sh_limiter s1)" using r(2) by (simp add: ctl_ok_def)
  from adjust_global_ok [OF this, of ?sec "tt_attempted t" "sh_completed s1" "sh_failed s1"] obtain c2 l2 where
    a: "adjust_global ?sec (tt_attempted t) (sh_completed s1) (sh_failed s1) (c1, sh_limiter s1) = Some (c2, l2)"
    "global_ok (c2, l2)" "ac_slots c2 = ac_slots c1" "ac_attempts c2 = ac_attempts c1"
    "ac_global_ceiling c2 = ac_global_ceiling c1" by blast
  define c3 where "c3 = (if rate l2 \<noteq> rate (sh_limiter s1)
      then c2\<lparr>ac_attempts := (ac_attempts c2)\<lparr>ab_settling := True\<rparr>\<rparr> else c2)"
  have "brake_ok (ac_attempts c3, sh_pacer s1)"
    using r(2) a(4) by (auto simp: ctl_ok_def c3_def brake_ok_def probe_ok_def references_ok_def)
  moreover have "global_ok (c3, l2)"
    using a(2) by (cases "ac_global_limit c2") (simp_all add: global_ok_def c3_def)
  ultimately have "ctl_ok (c3, s1\<lparr>sh_limiter := l2\<rparr>)"
    using r(2) a(3) by (simp add: ctl_ok_def c3_def)
  then have "ctl_ok (tick_attempts ?sec t now (c3, s1\<lparr>sh_limiter := l2\<rparr>))" by (rule tick_attempts_ok)
  moreover have "controller_tick elapsed now (c, s) = Some (tick_attempts ?sec t now (c3, s1\<lparr>sh_limiter := l2\<rparr>))"
    using r(1) a(1) by (simp add: controller_tick_def Let_def t_def [symmetric] c3_def)
  moreover have "ac_global_ceiling (fst (tick_attempts ?sec t now (c3, s1\<lparr>sh_limiter := l2\<rparr>))) = ac_global_ceiling c"
    using r(4) a(5) by (simp add: tick_attempts_def Let_def c3_def)
  ultimately show ?thesis by (cases "tick_attempts ?sec t now (c3, s1\<lparr>sh_limiter := l2\<rparr>)") auto
qed

text \<open>
  Between ticks the workers use what is shared: counters, permits, cursors, tokens. They never
  touch a pacing interval or the pacer's rate.
\<close>

definition env_ok :: "'s shared \<Rightarrow> 's shared \<Rightarrow> bool" where
  "env_ok s s' \<longleftrightarrow>
     map (rl_interval_ns \<circ> rh_limiter) (rp_resolvers (sh_pool s')) = map (rl_interval_ns \<circ> rh_limiter) (rp_resolvers (sh_pool s))
     \<and> rl_interval_ns (sh_limiter s') = rl_interval_ns (sh_limiter s)
     \<and> ap_rate (sh_pacer s') = ap_rate (sh_pacer s) \<and> pacer_ok (sh_pacer s')"

inductive ctl_reachable :: "AdaptiveController \<Rightarrow> 's shared \<Rightarrow> AdaptiveController \<Rightarrow> 's shared \<Rightarrow> bool" for c0 s0 where
  ctl_start: "ctl_reachable c0 s0 c0 s0"
| ctl_env: "ctl_reachable c0 s0 c s \<Longrightarrow> env_ok s s' \<Longrightarrow> ctl_reachable c0 s0 c s'"
| ctl_tick: "ctl_reachable c0 s0 c s \<Longrightarrow> controller_tick elapsed now (c, s) = Some (c', s') \<Longrightarrow> ctl_reachable c0 s0 c' s'"

text \<open>
  The task \<open>spawn\<close> starts: after each sleep, as long as the pool is alive, a tick over the time since
  the last one. Each wake-up comes with its time and with what the other tasks did in the meantime.
\<close>

fun controller_loop ::
  "instant \<Rightarrow> (instant \<times> ('s shared \<Rightarrow> 's shared)) list \<Rightarrow> AdaptiveController \<times> 's shared \<Rightarrow> (AdaptiveController \<times> 's shared) option" where
  "controller_loop previous [] cs = Some cs"
| "controller_loop previous ((now, others) # wakes) cs =
     Option.bind (controller_tick (now - previous) now (fst cs, others (snd cs))) (controller_loop now wakes)"

lemma list_all_slot_ok_iff:
  assumes "length sls = length hs"
  shows "list_all slot_ok (zip sls hs) \<longleftrightarrow> (\<forall>i < length hs. slot_ok (sls ! i, hs ! i))"
  using assms by (simp add: list_all_length)

lemma ctl_ok_slot:
  assumes "ctl_ok (c, s)" and "i < length (rp_resolvers (sh_pool s))"
  shows "slot_ok (ac_slots c ! i, rp_resolvers (sh_pool s) ! i)"
  using assms list_all_slot_ok_iff [of "ac_slots c" "rp_resolvers (sh_pool s)"] by (simp add: ctl_ok_def)

lemma env_ok_ctl:
  assumes "env_ok s s'" and "ctl_ok (c, s)"
  shows "ctl_ok (c, s')"
proof -
  let ?hs = "rp_resolvers (sh_pool s)" and ?hs' = "rp_resolvers (sh_pool s')"
  have m: "map (rl_interval_ns \<circ> rh_limiter) ?hs' = map (rl_interval_ns \<circ> rh_limiter) ?hs"
    using assms(1) by (simp add: env_ok_def)
  then have len: "length ?hs' = length ?hs" by (metis length_map)
  have "rl_interval_ns (rh_limiter (?hs' ! i)) = rl_interval_ns (rh_limiter (?hs ! i))" if "i < length ?hs" for i
    using arg_cong [OF m, of "\<lambda>xs. xs ! i"] that len by simp
  moreover have l: "length (ac_slots c) = length ?hs" using assms(2) by (simp add: ctl_ok_def)
  ultimately have "list_all slot_ok (zip (ac_slots c) ?hs')"
    using assms(2) len by (simp add: ctl_ok_def list_all_slot_ok_iff) (simp add: slot_ok_def)
  moreover have "global_ok (c, sh_limiter s')"
    using assms by (cases "ac_global_limit c") (simp_all add: ctl_ok_def global_ok_def env_ok_def)
  moreover have "brake_ok (ac_attempts c, sh_pacer s')"
    using assms by (simp add: ctl_ok_def brake_ok_def env_ok_def)
  ultimately show ?thesis using l len by (simp add: ctl_ok_def)
qed

lemma ctl_reachable_ok: "ctl_reachable c0 s0 c s \<Longrightarrow> ctl_ok (c0, s0) \<Longrightarrow> ctl_ok (c, s)"
proof (induction rule: ctl_reachable.induct)
  case (ctl_tick c s elapsed now c' s')
  then show ?case using controller_tick_ok [of c s elapsed now] by auto
qed (auto intro: env_ok_ctl)

text \<open>The state a client starts its controller in.\<close>

definition shared_fresh :: "'s sem_ops \<Rightarrow> f64 \<Rightarrow> 's shared \<Rightarrow> bool" where
  "shared_fresh S cap s \<longleftrightarrow>
     (\<forall>h \<in> set (rp_resolvers (sh_pool s)). rl_interval_ns (rh_limiter h) = 1)
     \<and> interval_for cap = Some (rl_interval_ns (sh_limiter s)) \<and> sh_pacer s = AttemptPacer_new S"

lemma ctl_ok_new:
  assumes "shared_fresh S cap s" and "is_f64 cap"
  shows "ctl_ok (AdaptiveController_new (length (rp_resolvers (sh_pool s))) cap, s)"
proof -
  let ?hs = "rp_resolvers (sh_pool s)"
  have "slot_ok (slot_new, h)" if "h \<in> set ?hs" for h
    using assms(1) that by (simp add: shared_fresh_def slot_ok_def slot_new_def edge_interval_def judge_ok_default)
  then have "list_all slot_ok (zip (replicate (length ?hs) slot_new) ?hs)"
    by (auto simp: list_all_length)
  moreover have "0 < cap" using assms(1) interval_for_Some by (auto simp: shared_fresh_def)
  ultimately show ?thesis using assms brake_ok_new [of S]
    by (simp add: ctl_ok_def AdaptiveController_new_def global_ok_def judge_ok_default shared_fresh_def)
qed

lemma ctl_reachable_capped:
  assumes "shared_fresh S cap s0" and "is_f64 cap"
    and "ctl_reachable (AdaptiveController_new (length (rp_resolvers (sh_pool s0))) cap) s0 c s"
  shows "rl_interval_ns (sh_limiter s0) \<le> rl_interval_ns (sh_limiter s)"
proof -
  have ok: "ctl_ok (c, s)" by (rule ctl_reachable_ok [OF assms(3) ctl_ok_new [OF assms(1,2)]])
  have "ac_global_ceiling c = cap"
    using assms(3)
  proof (induction rule: ctl_reachable.induct)
    case (ctl_tick c s e n c' s')
    have "ctl_ok (c, s)" by (rule ctl_reachable_ok [OF ctl_tick.hyps(1) ctl_ok_new [OF assms(1,2)]])
    from controller_tick_ok [OF this, of e n] ctl_tick show ?case by auto
  qed (simp_all add: AdaptiveController_new_def)
  then show ?thesis using global_ok_cap [of c "sh_limiter s"] ok assms(1) by (simp add: ctl_ok_def shared_fresh_def)
qed

text \<open>The loop never ends by a panic, whatever happens between its ticks.\<close>

lemma controller_loop_runs:
  assumes "\<forall>w \<in> set wakes. \<forall>s. pacer_ok (sh_pacer s) \<longrightarrow> env_ok s (snd w s)" and "ctl_ok cs" and "ctl_reachable c0 s0 (fst cs) (snd cs)"
  shows "\<exists>c s. controller_loop previous wakes cs = Some (c, s) \<and> ctl_ok (c, s) \<and> ctl_reachable c0 s0 c s"
  using assms
proof (induction wakes arbitrary: previous cs)
  case (Cons w wakes)
  obtain now others where w: "w = (now, others)" by (cases w)
  obtain c s where cs: "cs = (c, s)" by (cases cs)
  have "pacer_ok (sh_pacer s)" using Cons.prems(2) by (simp add: cs ctl_ok_def brake_ok_def)
  then have env: "env_ok s (others s)" using Cons.prems(1) by (simp add: w)
  from controller_tick_ok [OF env_ok_ctl [OF env], of c "now - previous" now] Cons.prems(2)
  obtain c' s' where t: "controller_tick (now - previous) now (c, others s) = Some (c', s')" "ctl_ok (c', s')" by (auto simp: cs)
  have "ctl_reachable c0 s0 c' s'" using ctl_tick [OF ctl_env [OF _ env] t(1)] Cons.prems(3) by (simp add: cs)
  from Cons.IH [of "(c', s')" now] Cons.prems(1) t(2) this show ?case by (simp add: w cs t(1))
qed (auto simp: split_pairs)

section \<open>Recovery of the global rate\<close>

text \<open>Ticks that each close a window, with a failure count that stands still.\<close>

fun clean_ticks :: "u64 \<Rightarrow> (f64 \<times> u64 \<times> u64) list \<Rightarrow> bool" where
  "clean_ticks prev [] = True"
| "clean_ticks prev ((s, a, k) # ts) = (unat prev + 100 \<le> unat k \<and> clean_ticks k ts)"

definition global_run ::
  "u64 \<Rightarrow> (f64 \<times> u64 \<times> u64) list \<Rightarrow> AdaptiveController \<times> RateLimiter \<Rightarrow> (AdaptiveController \<times> RateLimiter) option" where
  "global_run failed ts cl = foldM (\<lambda>(s, a, k). adjust_global s a k failed) ts cl"

definition closed_at :: "u64 \<Rightarrow> u64 \<Rightarrow> AdaptiveController \<Rightarrow> bool" where
  "closed_at k f c \<longleftrightarrow> ac_global_window c = Observation_default
     \<and> ob_attempted (ac_previous_outcomes c) = k \<and> ob_lost (ac_previous_outcomes c) = f"

lemma adjust_global_clean:
  assumes "closed_at prev f c" and "unat prev + 100 \<le> unat k" and "global_ok (c, l)"
  obtains c' l' where "adjust_global s a k f (c, l) = Some (c', l')" "closed_at k f c'" "global_ok (c', l')"
    "ac_global_ceiling c' = ac_global_ceiling c"
    "case ac_global_limit c of
       None \<Rightarrow> ac_global_limit c' = None
     | Some x \<Rightarrow> if ac_global_ceiling c \<le> f64_mul x GROWTH then ac_global_limit c' = None
                 else ac_global_limit c' = Some (f64_mul x GROWTH)"
proof -
  let ?g = "global_gather s a k f c"
  have w: "ob_attempted (ac_global_window ?g) = saturating_sub k prev" "ob_lost (ac_global_window ?g) = 0"
    "ac_previous_outcomes ?g = \<lparr>ob_attempted = k, ob_lost = f, ob_responded = 0\<rparr>"
    using assms(1) by (simp_all add: closed_at_def global_gather_def Let_def Observation_default_def since_def
        saturating_sub_def)
  have full: "\<not> ob_attempted (ac_global_window ?g) < MIN_AGGREGATE_SAMPLES"
    using assms(2) by (simp add: w MIN_AGGREGATE_SAMPLES_def word_less_nat_alt u64_simps)
  have loss: "global_loss ?g = 0" by (simp add: global_loss_def w f64_div_def)
  have "judge_ok (ac_global_judge c)" using assms(3) by (simp add: global_ok_def)
  then have clear: "fst (judge (ac_global_judge ?g) (global_loss ?g) d) = Clear" for d
    by (simp add: loss judge_no_loss)
  have d: "adjust_global s a k f (c, l) = global_decide (?g, l)" using full by (simp add: adjust_global_def)
  obtain c' l' where r: "adjust_global s a k f (c, l) = Some (c', l')" "global_ok (c', l')"
    "ac_global_ceiling c' = ac_global_ceiling c"
    using adjust_global_ok [OF assms(3), of s a k f] by blast
  have "global_decide (?g, l) = Some (c', l')" using d r(1) by simp
  then have "closed_at k f c'" and "case ac_global_limit c of
       None \<Rightarrow> ac_global_limit c' = None
     | Some x \<Rightarrow> if ac_global_ceiling c \<le> f64_mul x GROWTH then ac_global_limit c' = None
                 else ac_global_limit c' = Some (f64_mul x GROWTH)"
    using clear judge_constants(10) loss
    by (auto simp: global_decide_def Let_def closed_at_def w split: option.splits if_splits)
  then show thesis using that r by blast
qed

lemma growth_ge:
  assumes "1 \<le> x"
  shows "x * (124 / 100) \<le> f64_mul x GROWTH"
proof -
  let ?y = "x * (5 / 4)"
  have "1 / 2 \<le> ?y" using assms by linarith
  then have "?y - ?y / 2 ^ 53 \<le> f64_round ?y" by (rule b64.rnd_lower)
  moreover have "?y / 2 ^ 53 \<le> ?y / 1000" using assms by (intro divide_left_mono) auto
  ultimately have "?y - ?y / 1000 \<le> f64_mul x GROWTH" unfolding f64_mul_def judge_constants(9) by linarith
  then show ?thesis using assms by linarith
qed

text \<open>After \<open>n\<close> clean windows: recovered, or at least \<open>1.24 ^ n\<close> times as fast as at the start.\<close>

lemma global_run_grows:
  assumes "closed_at prev f c" and "clean_ticks prev ts" and "global_ok (c, l)"
    and "ac_global_limit c = None \<or> (\<exists>x. ac_global_limit c = Some x \<and> (124 / 100) ^ n \<le> x)"
  shows "\<exists>c' l'. global_run f ts (c, l) = Some (c', l') \<and> global_ok (c', l')
    \<and> ac_global_ceiling c' = ac_global_ceiling c
    \<and> (ac_global_limit c' = None \<or> (\<exists>x. ac_global_limit c' = Some x \<and> (124 / 100) ^ (n + length ts) \<le> x))"
  using assms
proof (induction ts arbitrary: prev c l n)
  case Nil
  then show ?case by (simp add: global_run_def)
next
  case (Cons t ts)
  obtain s a k where t: "t = (s, a, k)" by (cases t) auto
  have k: "unat prev + 100 \<le> unat k" "clean_ticks k ts" using Cons.prems(2) by (simp_all add: t)
  obtain c1 l1 where r: "adjust_global s a k f (c, l) = Some (c1, l1)" "closed_at k f c1" "global_ok (c1, l1)"
    "ac_global_ceiling c1 = ac_global_ceiling c"
    "case ac_global_limit c of
       None \<Rightarrow> ac_global_limit c1 = None
     | Some x \<Rightarrow> if ac_global_ceiling c \<le> f64_mul x GROWTH then ac_global_limit c1 = None
                 else ac_global_limit c1 = Some (f64_mul x GROWTH)"
    by (rule adjust_global_clean [OF Cons.prems(1) k(1) Cons.prems(3)])
  have "ac_global_limit c1 = None \<or> (\<exists>x. ac_global_limit c1 = Some x \<and> (124 / 100) ^ Suc n \<le> x)"
  proof (cases "ac_global_limit c")
    case None
    then show ?thesis using r(5) by simp
  next
    case (Some x)
    have x: "(124 / 100) ^ n \<le> x" using Cons.prems(4) Some by simp
    then have "1 \<le> x" using one_le_power [of "124 / 100 :: rat" n] by linarith
    then have "(124 / 100) ^ Suc n \<le> f64_mul x GROWTH" using growth_ge [of x] x by simp
    then show ?thesis using r(5) Some by (auto split: if_splits)
  qed
  from Cons.IH [OF r(2) k(2) r(3) this] r(1,4) show ?case by (simp add: global_run_def t)
qed

lemma power_124_100: "(1000000000 :: rat) < (124 / 100) ^ 100"
proof -
  have "(85 / 10 :: rat) \<le> (124 / 100) ^ 10" by (simp add: power_divide)
  then have "(85 / 10 :: rat) ^ 10 \<le> ((124 / 100) ^ 10) ^ 10" by (rule power_mono) simp
  moreover have "(1000000000 :: rat) < (85 / 10) ^ 10" by (simp add: power_divide)
  moreover have "((124 / 100 :: rat) ^ 10) ^ 10 = (124 / 100) ^ 100" by (simp only: power_mult [symmetric]) simp
  ultimately show ?thesis by linarith
qed

section \<open>One resolver's part of a tick\<close>

lemma tick_resolvers_nth:
  assumes "tick_resolvers seconds now (c, s) = Some (c', s')" and "i < length (rp_resolvers (sh_pool s))"
  shows "slot_tick seconds now (ac_slots c ! i) (rp_resolvers (sh_pool s) ! i)
      = Some (ac_slots c' ! i, rp_resolvers (sh_pool s') ! i)"
proof -
  let ?hs = "rp_resolvers (sh_pool s)"
  let ?f = "\<lambda>(sl, h). slot_tick seconds now sl h"
  obtain rs where rs: "those (map ?f (zip (take (length ?hs) (ac_slots c)) ?hs)) = Some rs"
    "ac_slots c' = map fst rs @ drop (length ?hs) (ac_slots c)" "rp_resolvers (sh_pool s') = map snd rs"
    "length ?hs \<le> length (ac_slots c)"
    using assms(1) by (auto simp: tick_resolvers_def Let_def split: if_splits)
  from those_map_Some_nth [OF rs(1)] have len: "length rs = length ?hs"
    and nth: "slot_tick seconds now (ac_slots c ! i) (?hs ! i) = Some (rs ! i)"
    using rs(4) assms(2) by auto
  then show ?thesis using assms(2) rs(2,3) by (simp add: nth_append)
qed

lemma controller_tick_nth:
  assumes "ctl_ok (c, s)" and "controller_tick elapsed now (c, s) = Some (c', s')"
    and "i < length (rp_resolvers (sh_pool s))"
  shows "\<exists>sl h. slot_tick (max (as_secs_f64 elapsed) MIN_SECONDS) now (ac_slots c ! i) (rp_resolvers (sh_pool s) ! i)
      = Some (sl, h) \<and> ac_slots c' ! i = sl \<and> rp_resolvers (sh_pool s') ! i = h"
proof -
  let ?sec = "max (as_secs_f64 elapsed) MIN_SECONDS"
  obtain c1 s1 where r: "tick_resolvers ?sec now (c, s) = Some (c1, s1)" "ctl_ok (c1, s1)"
    using tick_resolvers_ok [OF assms(1), of ?sec now] by blast
  have g: "global_ok (c1, sh_limiter s1)" using r(2) by (simp add: ctl_ok_def)
  have slots: "ac_slots c2 = ac_slots c1" if "adjust_global x a k f (c1, sh_limiter s1) = Some (c2, l2)" for x a k f c2 l2
    using adjust_global_ok [OF g, of x a k f] that by auto
  have "ac_slots c' = ac_slots c1 \<and> sh_pool s' = sh_pool s1"
    using assms(2) r(1) slots
    by (auto simp: controller_tick_def Let_def tick_attempts_def split: option.splits if_splits)
  then show ?thesis using tick_resolvers_nth [OF r(1) assms(3)] by auto
qed

section \<open>Properties\<close>

definition one_resolver :: "nat shared" where
  "one_resolver =
     \<lparr>sh_pool = \<lparr>rp_resolvers = [sample_health], rp_cursor = 0, rp_start = 0\<rparr>,
      sh_limiter = \<lparr>rl_interval_ns = 1, rl_start = 0, rl_next_ns = 0\<rparr>,
      sh_pacer = AttemptPacer_new counting_sem, sh_completed = 0, sh_failed = 0\<rparr>"

lemma one_resolver_fresh: "shared_fresh counting_sem UNLIMITED_QPS one_resolver" "is_f64 UNLIMITED_QPS"
  using interval_for_unlimited
  by (simp_all add: shared_fresh_def one_resolver_def sample_health_simps UNLIMITED_QPS_def)

lemma one_resolver_simps:
  "length (rp_resolvers (sh_pool one_resolver)) = 1" "rl_interval_ns (sh_limiter one_resolver) = 1"
  by (simp_all add: one_resolver_def)

lemma sample_health_outcomes:
  "rh_timeout sample_health = 0" "rh_error sample_health = 0" "rh_answered sample_health = 0" "rh_empty sample_health = 0"
  by code_simp+

lemma one_resolver_ok: "ctl_ok (AdaptiveController_new 1 UNLIMITED_QPS, one_resolver)"
  using ctl_ok_new [OF one_resolver_fresh] by (simp only: one_resolver_simps)

text \<open>
  The control loop never panics and never loses its grip. From the start of a client, through
  any interleaving of ticks with whatever the workers do in between, a tick always succeeds, and
  in every state it leaves: each resolver's pacing interval is exactly the one its recorded edge
  asks for (none, if it has no edge), so no resolver is ever throttled without an edge that will
  expire; the global limiter runs at the standing limit or at the ceiling; and the pacer runs at
  the brake's limit.
\<close>

theorem controller_never_panics:
  assumes "shared_fresh S cap s0" and "is_f64 cap"
    and "ctl_reachable (AdaptiveController_new (length (rp_resolvers (sh_pool s0))) cap) s0 c s"
  shows "\<exists>c' s'. controller_tick elapsed now (c, s) = Some (c', s') \<and> ctl_ok (c', s')"
  using controller_tick_ok [OF ctl_reachable_ok [OF assms(3) ctl_ok_new [OF assms(1,2)]]] by blast

theorem controller_never_panics_witness:
  "\<exists>c' s'. controller_tick 500000000 500000000 (AdaptiveController_new 1 UNLIMITED_QPS, one_resolver) = Some (c', s')
     \<and> ctl_ok (c', s')"
  using controller_never_panics [OF one_resolver_fresh ctl_start, of 500000000 500000000]
  by (simp only: one_resolver_simps)

text \<open>
  The configured rate limit is a hard cap on the controller: in every state it can reach, the
  interval the global limiter paces at is at least the interval of the configured ceiling.
\<close>

theorem global_rate_capped:
  assumes "shared_fresh S cap s0" and "is_f64 cap"
    and "ctl_reachable (AdaptiveController_new (length (rp_resolvers (sh_pool s0))) cap) s0 c s"
  shows "rl_interval_ns (sh_limiter s0) \<le> rl_interval_ns (sh_limiter s)"
  by (rule ctl_reachable_capped [OF assms])

theorem global_rate_capped_witness:
  "\<exists>c s. ctl_reachable (AdaptiveController_new 1 UNLIMITED_QPS) one_resolver c s
     \<and> rl_interval_ns (sh_limiter one_resolver) \<le> rl_interval_ns (sh_limiter s)"
proof -
  let ?c = "AdaptiveController_new (length (rp_resolvers (sh_pool one_resolver))) UNLIMITED_QPS"
  have r: "ctl_reachable ?c one_resolver ?c one_resolver" by (rule ctl_start)
  from global_rate_capped [OF one_resolver_fresh r] r show ?thesis unfolding one_resolver_simps(1) by blast
qed

lemma global_run_lifts_high:
  assumes "global_ok (c, l)" and "ac_global_ceiling c \<le> UNLIMITED_QPS" and "closed_at prev failed c"
    and "clean_ticks prev ts" and "100 \<le> length ts" and high: "1 \<le> ac_global_ceiling c"
  shows "\<exists>c' l'. global_run failed ts (c, l) = Some (c', l') \<and> global_ok (c', l')
    \<and> ac_global_ceiling c' = ac_global_ceiling c \<and> ac_global_limit c' = None"
proof -
  have "ac_global_limit c = None \<or> (\<exists>x. ac_global_limit c = Some x \<and> (124 / 100) ^ 0 \<le> x)"
    using assms(1) high by (cases "ac_global_limit c") (auto simp: global_ok_def)
  from global_run_grows [OF assms(3,4,1) this] obtain c' l' where
    r: "global_run failed ts (c, l) = Some (c', l')" "global_ok (c', l')" "ac_global_ceiling c' = ac_global_ceiling c"
    "ac_global_limit c' = None \<or> (\<exists>x. ac_global_limit c' = Some x \<and> (124 / 100) ^ length ts \<le> x)" by auto
  have "(124 / 100 :: rat) ^ 100 \<le> (124 / 100) ^ length ts" using assms(5) by (intro power_increasing) auto
  then have big: "(1000000000 :: rat) < (124 / 100) ^ length ts" using power_124_100 by linarith
  have "x \<le> 1000000000" if "ac_global_limit c' = Some x" for x
    using r(2,3) assms(2) that by (auto simp: global_ok_def UNLIMITED_QPS_def)
  then have "ac_global_limit c' = None" using r(4) big by fastforce
  then show ?thesis using r by blast
qed

text \<open>A ceiling below the floor is reached by the first clean window.\<close>

lemma global_run_lifts_low:
  assumes "global_ok (c, l)" and low: "\<not> 1 \<le> ac_global_ceiling c" and "closed_at prev failed c"
    and "clean_ticks prev ts" and "100 \<le> length ts"
  shows "\<exists>c' l'. global_run failed ts (c, l) = Some (c', l') \<and> global_ok (c', l')
    \<and> ac_global_ceiling c' = ac_global_ceiling c \<and> ac_global_limit c' = None"
proof -
  obtain s a k ts' where ts: "ts = (s, a, k) # ts'" using assms(5) by (cases ts) auto
  have k: "unat prev + 100 \<le> unat k" "clean_ticks k ts'" using assms(4) by (simp_all add: ts)
  obtain c1 l1 where r: "adjust_global s a k failed (c, l) = Some (c1, l1)" "closed_at k failed c1" "global_ok (c1, l1)"
    "ac_global_ceiling c1 = ac_global_ceiling c"
    "case ac_global_limit c of
       None \<Rightarrow> ac_global_limit c1 = None
     | Some x \<Rightarrow> if ac_global_ceiling c \<le> f64_mul x GROWTH then ac_global_limit c1 = None
                 else ac_global_limit c1 = Some (f64_mul x GROWTH)"
    by (rule adjust_global_clean [OF assms(3) k(1) assms(1)])
  have "ac_global_limit c1 = None"
  proof (cases "ac_global_limit c")
    case (Some x)
    then have "ac_global_ceiling c \<le> f64_mul x GROWTH"
      using assms(1) low by (intro growth_keeps_floor) (auto simp: global_ok_def)
    then show ?thesis using r(5) Some by simp
  qed (use r(5) in simp)
  then have "ac_global_limit c1 = None \<or> (\<exists>x. ac_global_limit c1 = Some x \<and> (124 / 100) ^ 0 \<le> x)" by simp
  from global_run_grows [OF r(2) k(2) r(3) this] obtain c' l' where
    q: "global_run failed ts' (c1, l1) = Some (c', l')" "global_ok (c', l')" "ac_global_ceiling c' = ac_global_ceiling c1"
    "ac_global_limit c' = None \<or> (\<exists>x. ac_global_limit c' = Some x \<and> (124 / 100) ^ length ts' \<le> x)" by auto
  have "\<not> (124 / 100) ^ length ts' \<le> x" if "ac_global_limit c' = Some x" for x
  proof -
    have "x < 1" using q(2,3) r(4) low that by (auto simp: global_ok_def)
    then show ?thesis using one_le_power [of "124 / 100 :: rat" "length ts'"] by linarith
  qed
  then have "ac_global_limit c' = None" using q(4) by auto
  then show ?thesis using q r(1,4) by (simp add: global_run_def ts)
qed

text \<open>
  C22. The global rate comes back. Once queries stop failing, at most a hundred closed windows
  later the limit is gone and the limiter paces at the configured ceiling again, from whatever
  limit it had been driven down to.
\<close>

theorem global_rate_recovers:
  assumes "global_ok (c, l)" and "ac_global_ceiling c \<le> UNLIMITED_QPS" and "closed_at prev failed c"
    and "clean_ticks prev ts" and "100 \<le> length ts"
  shows "\<exists>c' l'. global_run failed ts (c, l) = Some (c', l') \<and> ac_global_limit c' = None
    \<and> interval_for (ac_global_ceiling c) = Some (rl_interval_ns l')"
proof -
  obtain c' l' where "global_run failed ts (c, l) = Some (c', l')" "global_ok (c', l')"
    "ac_global_ceiling c' = ac_global_ceiling c" "ac_global_limit c' = None"
    using global_run_lifts_high [OF assms] global_run_lifts_low [OF assms(1) _ assms(3-5)]
    by (cases "1 \<le> ac_global_ceiling c") blast+
  then show ?thesis by (auto simp: global_ok_def)
qed

theorem global_rate_recovers_witness:
  "\<exists>c' l'. global_run 0 (map (\<lambda>i. (1, 0, of_nat (100 * i + 100))) [0..<100])
      ((AdaptiveController_new 1 UNLIMITED_QPS)\<lparr>ac_global_limit := Some 1\<rparr>,
       \<lparr>rl_interval_ns = 1000000000, rl_start = 0, rl_next_ns = 0\<rparr>) = Some (c', l')
    \<and> ac_global_limit c' = None \<and> rl_interval_ns l' = 1"
proof -
  let ?c = "(AdaptiveController_new 1 UNLIMITED_QPS)\<lparr>ac_global_limit := Some 1\<rparr>"
  let ?l = "\<lparr>rl_interval_ns = 1000000000, rl_start = 0, rl_next_ns = 0\<rparr> :: RateLimiter"
  have clean: "clean_ticks (of_nat (100 * i)) (map (\<lambda>i. (1, 0, of_nat (100 * i + 100))) [i..<i + n])"
    if "100 * (i + n) < 2 ^ 64" for i n
    using that
  proof (induction n arbitrary: i)
    case (Suc n)
    have "unat (of_nat (100 * i) :: u64) = 100 * i" by (rule unat_of_nat_u64) (use Suc.prems in simp)
    moreover have "unat (of_nat (100 * i + 100) :: u64) = 100 * i + 100"
      by (rule unat_of_nat_u64) (use Suc.prems in simp)
    moreover have "clean_ticks (of_nat (100 * i + 100)) (map (\<lambda>i. (1, 0, of_nat (100 * i + 100))) [Suc i..<Suc i + n])"
      using Suc.IH [of "Suc i"] Suc.prems by (simp only: mult_Suc_right add.commute add_Suc_right add_Suc)
    moreover have "[i..<i + Suc n] = i # [Suc i..<Suc i + n]" by (simp add: upt_conv_Cons del: upt_Suc)
    ultimately show ?case by (simp only: list.map clean_ticks.simps) simp
  qed simp
  have "interval_for 1 = Some 1000000000" by code_simp
  then have "global_ok (?c, ?l)"
    by (simp add: global_ok_def AdaptiveController_new_def judge_ok_default UNLIMITED_QPS_def)
  moreover have "closed_at (of_nat (100 * 0)) 0 ?c"
    by (simp add: closed_at_def AdaptiveController_new_def Observation_default_def)
  moreover have "ac_global_ceiling ?c \<le> UNLIMITED_QPS" "ac_global_ceiling ?c = UNLIMITED_QPS"
    by (simp_all add: AdaptiveController_new_def)
  ultimately show ?thesis
    using global_rate_recovers [of ?c ?l "of_nat (100 * 0)" 0 "map (\<lambda>i. (1, 0, of_nat (100 * i + 100))) [0..<0 + 100]"]
      clean [of 0 100] interval_for_unlimited by auto
qed

text \<open>
  C23. Loss is charged to the resolver that shows it, and to no other. Whatever the rest of the
  pool does, a tick never slows down a resolver whose own open window holds no loss.
\<close>

theorem clean_resolver_not_slowed:
  assumes "ctl_ok (c, s)" and "controller_tick elapsed now (c, s) = Some (c', s')"
    and "i < length (rp_resolvers (sh_pool s))"
    and "ob_lost (sl_window (slot_gather (max (as_secs_f64 elapsed) MIN_SECONDS)
           (rp_resolvers (sh_pool s) ! i) (ac_slots c ! i))) = 0"
  shows "rl_interval_ns (rh_limiter (rp_resolvers (sh_pool s') ! i))
      \<le> rl_interval_ns (rh_limiter (rp_resolvers (sh_pool s) ! i))"
proof -
  obtain sl h where t: "slot_tick (max (as_secs_f64 elapsed) MIN_SECONDS) now (ac_slots c ! i)
      (rp_resolvers (sh_pool s) ! i) = Some (sl, h)" "rp_resolvers (sh_pool s') ! i = h"
    using controller_tick_nth [OF assms(1-3)] by blast
  have "slot_ok (ac_slots c ! i, rp_resolvers (sh_pool s) ! i)"
    using assms(1,3) by (rule ctl_ok_slot)
  from slot_tick_clean [OF this assms(4) t(1)] t(2) show ?thesis by simp
qed

theorem clean_resolver_not_slowed_witness:
  "\<exists>c' s'. controller_tick 500000000 500000000 (AdaptiveController_new 1 UNLIMITED_QPS, one_resolver) = Some (c', s')
     \<and> rl_interval_ns (rh_limiter (rp_resolvers (sh_pool s') ! 0)) \<le> 1"
proof -
  let ?c = "AdaptiveController_new 1 UNLIMITED_QPS"
  obtain c' s' where t: "controller_tick 500000000 500000000 (?c, one_resolver) = Some (c', s')"
    using controller_tick_ok [OF one_resolver_ok] by blast
  have "ob_lost (observe sample_health) = 0"
    using sample_health_outcomes by (simp add: observe_def health_stats_def Let_def)
  then have "ob_lost (sl_window (slot_gather x (rp_resolvers (sh_pool one_resolver) ! 0) (ac_slots ?c ! 0))) = 0" for x
    by (simp add: slot_gather_def Let_def one_resolver_def AdaptiveController_new_def slot_new_def
        Observation_default_def since_def saturating_sub_def)
  from clean_resolver_not_slowed [OF one_resolver_ok t _ this] t show ?thesis
    by (auto simp: one_resolver_def sample_health_simps)
qed

text \<open>
  A resolver's rate goes up for two reasons only. If a tick shortens a resolver's interval,
  then either its edge has expired, and it is not paced at all afterwards, or its loss has just
  been taken as the baseline and the last step down is undone. In particular a congested window
  never speeds a resolver up.
\<close>

theorem resolver_speedup_reasons:
  assumes "slot_ok (sl, h)" and "slot_tick seconds now sl h = Some (sl', h')"
    and "rl_interval_ns (rh_limiter h') < rl_interval_ns (rh_limiter h)"
  shows "(\<exists>e. sl_edge sl = Some e \<and> EDGE_TTL \<le> now - ed_seen_at e \<and> sl_edge sl' = None
            \<and> rl_interval_ns (rh_limiter h') = 1)
    \<or> (\<exists>d. fst (judge (sl_judge sl) (slot_loss (slot_gather seconds h sl)) d) = Baseline)"
  using assms(1)
proof (cases rule: slot_tick_cases [of sl h seconds now])
  case (relaxed sl1)
  show ?thesis
  proof (cases "sl_edge sl")
    case None
    then show ?thesis using relaxed assms(2,3) by (simp add: relax_def)
  next
    case (Some e)
    show ?thesis
    proof (cases "EDGE_TTL \<le> now - ed_seen_at e")
      case True
      then show ?thesis using relax_expired [of sl1 e now h] relaxed assms(2) Some by auto
    next
      case False
      then show ?thesis using relax_live [of h e sl1 now] relaxed assms Some by (simp add: slot_ok_def)
    qed
  qed
next
  case (undone sl1 d)
  then show ?thesis by blast
next
  case (retreated sl1 c q d)
  then show ?thesis using retreat_ok [OF retreated(2), of now c q] assms(2,3) by auto
qed

definition throttled :: "slot \<times> nat ResolverHealth" where
  "throttled =
     (slot_new\<lparr>sl_edge := Some \<lparr>ed_qps = 100, ed_seen_at = 0\<rparr>\<rparr>,
      sample_health\<lparr>rh_limiter := \<lparr>rl_interval_ns = edge_interval (Some \<lparr>ed_qps = 100, ed_seen_at = 0\<rparr>), rl_start = 0, rl_next_ns = 0\<rparr>\<rparr>)"

lemma throttled_ok: "slot_ok throttled"
  by (simp add: throttled_def slot_ok_def slot_new_def judge_ok_default)

lemma throttled_window: "ob_lost (sl_window (slot_gather x (snd throttled) (fst throttled))) = 0"
  using sample_health_outcomes
  by (simp add: throttled_def slot_gather_def Let_def slot_new_def Observation_default_def since_def
      saturating_sub_def observe_def health_stats_def)

theorem resolver_speedup_reasons_witness:
  "\<exists>sl h. slot_tick 1 40000000000 (fst throttled) (snd throttled) = Some (sl, h) \<and> rl_interval_ns (rh_limiter h) = 1"
proof -
  let ?e = "\<lparr>ed_qps = 100, ed_seen_at = 0\<rparr>"
  have e: "sl_edge (fst throttled) = Some ?e" "slot_ok (fst throttled, snd throttled)"
    using throttled_ok by (simp_all add: throttled_def)
  obtain sl1 where "slot_tick 1 40000000000 (fst throttled) (snd throttled) = relax 40000000000 (sl1, snd throttled)"
    "sl_edge sl1 = Some ?e"
    using slot_tick_no_loss [OF e(2) throttled_window, of 1 40000000000] e(1) by auto
  then obtain sl h where t: "slot_tick 1 40000000000 (fst throttled) (snd throttled) = Some (sl, h)"
    "rl_interval_ns (rh_limiter h) = 1"
    using relax_expired [of sl1 ?e 40000000000 "snd throttled"] by (auto simp: EDGE_TTL_def)
  have "interval_for (edge_target 100) = Some 11764706" by code_simp
  then have "rl_interval_ns (rh_limiter (snd throttled)) = 11764706"
    using interval_for_target [of ?e] by (simp add: throttled_def)
  then have "rl_interval_ns (rh_limiter h) < rl_interval_ns (rh_limiter (snd throttled))" using t(2) by simp
  from resolver_speedup_reasons [OF e(2) t(1) this] t show ?thesis by blast
qed

text \<open>
  Throttling wears off. Once an edge is older than its time to live, the first tick at which
  the resolver's open window holds no loss removes it and stops pacing the resolver.
\<close>

theorem edge_expires:
  assumes "slot_ok (sl, h)" and "sl_edge sl = Some e" and "EDGE_TTL \<le> now - ed_seen_at e"
    and "ob_lost (sl_window (slot_gather seconds h sl)) = 0"
  shows "\<exists>sl' h'. slot_tick seconds now sl h = Some (sl', h') \<and> sl_edge sl' = None
    \<and> rl_interval_ns (rh_limiter h') = 1"
proof -
  obtain sl1 where "slot_tick seconds now sl h = relax now (sl1, h)" "sl_edge sl1 = sl_edge sl"
    using slot_tick_no_loss [OF assms(1,4)] by blast
  then show ?thesis using relax_expired [of sl1 e now h] assms(2,3) by simp
qed

theorem edge_expires_witness:
  "\<exists>sl h. slot_tick 1 40000000000 (fst throttled) (snd throttled) = Some (sl, h) \<and> sl_edge sl = None"
  using edge_expires [of "fst throttled" "snd throttled" "\<lparr>ed_qps = 100, ed_seen_at = 0\<rparr>" 40000000000 1]
    throttled_ok throttled_window by (auto simp: throttled_def EDGE_TTL_def)

text \<open>
  While an edge is live, \<open>relax\<close> changes nothing at all: the resolver already runs at the
  rate its edge asks for, so the climb towards the target by \<open>GROWTH\<close> per tick has nothing to
  climb.
\<close>

theorem relax_has_nothing_to_climb:
  assumes "slot_ok (sl, h)" and "sl_edge sl = Some e" and "now - ed_seen_at e < EDGE_TTL"
  shows "relax now (sl, h) = Some (sl, h)"
  using assms by (intro relax_live) (simp_all add: slot_ok_def)

theorem relax_has_nothing_to_climb_witness: "relax 5 throttled = Some throttled"
  using relax_has_nothing_to_climb [of "fst throttled" "snd throttled" "\<lparr>ed_qps = 100, ed_seen_at = 0\<rparr>" 5] throttled_ok
  by (simp add: EDGE_TTL_def) (simp add: throttled_def)

end
