(* ===== verification/Worker.thy ===== *)
theory Worker
  imports Controller
begin

text \<open>
  \<open>src/worker.rs\<close>: the worker that takes queries off the shared queue. \<open>run\<close> suspends at every
  \<open>await\<close>, and workers interleave there, so its loop is a step function on the phase a worker is
  in; each step is what runs between two suspension points. \<open>query\<close> is split the same way, at the
  end of the UDP query and at the end of the TCP refetch, and \<open>worker_query\<close> is the three parts run
  through. Parsing of host names is the DNS library's and a parameter. The one-shot channel an
  answer goes back through is a number.
\<close>

section \<open>One query against one resolver\<close>

record QuerySpec =
  qs_host :: string
  qs_record_type :: RecordType

record WorkItem =
  wi_query :: QuerySpec
  wi_responder :: nat

definition refetch_over_tcp ::
  "connector \<Rightarrow> ClientErrorKind + DnsResponse \<Rightarrow> 's ResolverHealth \<Rightarrow> DnsResponse option \<times> 's ResolverHealth" where
  "refetch_over_tcp cn reply h =
     (case tcp_client cn h of
        (Inl err, h') \<Rightarrow> (None, h')
      | (Inr tcp, h') \<Rightarrow> (case reply of Inr response \<Rightarrow> (Some response, h') | Inl err \<Rightarrow> (None, h')))"

text \<open>The UDP query has ended: a truncated response goes on to TCP, everything else is recorded.\<close>

definition query_replied ::
  "connector \<Rightarrow> query_end \<Rightarrow> instant \<Rightarrow> instant \<Rightarrow> 's ResolverHealth \<Rightarrow> (DnsResponse + result) \<times> 's ResolverHealth" where
  "query_replied cn outcome started now h =
     (case query_bounded cn h outcome of
        (Inr response, h1) \<Rightarrow>
          if dr_truncated response then (Inl response, record_truncated h1)
          else (Inr (Inr response), record_response h1 (now - started) (dr_answers response \<noteq> []) now)
      | (Inl err, h1) \<Rightarrow> (Inr (Inl err), record_error h1 (is_timeout err) now))"

definition query_refetched ::
  "connector \<Rightarrow> ClientErrorKind + DnsResponse \<Rightarrow> instant \<Rightarrow> instant \<Rightarrow> DnsResponse \<Rightarrow> 's ResolverHealth
     \<Rightarrow> DnsResponse \<times> 's ResolverHealth" where
  "query_refetched cn tcp_reply started now partial h =
     (case refetch_over_tcp cn tcp_reply h of (full, h1) \<Rightarrow>
        let response = (case full of Some r \<Rightarrow> r | None \<Rightarrow> partial)
        in (response, record_response h1 (now - started) (dr_answers response \<noteq> []) now))"

definition worker_query ::
  "connector \<Rightarrow> query_end \<Rightarrow> ClientErrorKind + DnsResponse \<Rightarrow> instant \<Rightarrow> instant \<Rightarrow> instant \<Rightarrow> 's ResolverHealth
     \<Rightarrow> result \<times> 's ResolverHealth" where
  "worker_query cn outcome tcp_reply started replied refetched h =
     (case query_replied cn outcome started replied (record_dispatch h) of
        (Inr result, h1) \<Rightarrow> (result, h1)
      | (Inl partial, h1) \<Rightarrow>
          (case query_refetched cn tcp_reply started refetched partial h1 of (response, h2) \<Rightarrow> (Inr response, h2)))"

section \<open>The worker loop\<close>

datatype phase =
    Idle
  | Pacing WorkItem Name
  | Selecting WorkItem Name
  | AwaitingPermit WorkItem Name nat
  | Reserved WorkItem Name nat
  | PacingAttempt WorkItem Name nat
  | AwaitingToken WorkItem Name nat
  | Sending WorkItem Name nat
  | InFlight WorkItem Name nat instant
  | Refetching WorkItem Name nat instant DnsResponse

text \<open>What the outside decides when a worker moves: the time, and how its query ends.\<close>

record input =
  in_now :: instant
  in_reply :: query_end
  in_tcp_reply :: "ClientErrorKind + DnsResponse"

record 's env =
  ev_sem :: "'s sem_ops"
  ev_connector :: connector
  ev_name_from_ascii :: "string \<Rightarrow> ProtoErrorKind + Name"

record 's outcome =
  oc_phase :: phase
  oc_shared :: "'s shared"
  oc_queue :: "WorkItem list"
  oc_answer :: "(nat \<times> result) option"

definition on_resolver :: "nat \<Rightarrow> 's ResolverHealth \<Rightarrow> 's shared \<Rightarrow> 's shared" where
  "on_resolver k h s = s\<lparr>sh_pool := pool_update k (\<lambda>_. h) (sh_pool s)\<rparr>"

definition moves :: "phase \<Rightarrow> 's shared \<Rightarrow> WorkItem list \<Rightarrow> 's outcome" where
  "moves p s q = \<lparr>oc_phase = p, oc_shared = s, oc_queue = q, oc_answer = None\<rparr>"

text \<open>The end of an iteration: the answer goes out and the reservation, if any, is dropped.\<close>

definition responds :: "WorkItem \<Rightarrow> result \<Rightarrow> 's shared \<Rightarrow> WorkItem list \<Rightarrow> 's outcome" where
  "responds item r s q = \<lparr>oc_phase = Idle, oc_shared = s, oc_queue = q, oc_answer = Some (wi_responder item, r)\<rparr>"

fun worker_step :: "'s env \<Rightarrow> input \<Rightarrow> phase \<Rightarrow> 's shared \<Rightarrow> WorkItem list \<Rightarrow> 's outcome option" where
  "worker_step e i Idle s [] = None"
| "worker_step e i Idle s (item # q) =
     (let host = qs_host (wi_query item)
      in case ev_name_from_ascii e host of
           Inr name \<Rightarrow> Some (moves (Pacing item name) s q)
         | Inl source \<Rightarrow> Some (responds item (Inl (InvalidHostname host source)) s q))"
| "worker_step e i (Pacing item name) s q =
     (case acquire (sh_limiter s) (in_now i) of (_, _, l) \<Rightarrow>
        Some (moves (Selecting item name) (s\<lparr>sh_limiter := l\<rparr>) q))"
| "worker_step e i (Selecting item name) s q =
     (case reserve_pass (ev_sem e) (in_now i) (sh_pool s) of
        (Inl k, pool) \<Rightarrow> Some (moves (Reserved item name k) (s\<lparr>sh_pool := pool\<rparr>) q)
      | (Inr d, pool) \<Rightarrow>
          (case d of
             GiveUp \<Rightarrow> Some (responds item (Inl NoResolvers) (s\<lparr>sh_pool := pool\<rparr>) q)
           | WaitOn k \<Rightarrow> Some (moves (AwaitingPermit item name k) (s\<lparr>sh_pool := pool\<rparr>) q)
           | _ \<Rightarrow> Some (moves (Selecting item name) (s\<lparr>sh_pool := pool\<rparr>) q)))"
| "worker_step e i (AwaitingPermit item name k) s q =
     (case permit_arrived (ev_sem e) (in_now i) k (sh_pool s) of
        None \<Rightarrow> None
      | Some (kept, pool) \<Rightarrow>
          Some (moves (if kept then Reserved item name k else Selecting item name) (s\<lparr>sh_pool := pool\<rparr>) q))"
| "worker_step e i (Reserved item name k) s q =
     (case acquire_rate (rp_resolvers (sh_pool s) ! k) (in_now i) of (_, h) \<Rightarrow>
        Some (moves (PacingAttempt item name k) (on_resolver k h s) q))"
| "worker_step e i (PacingAttempt item name k) s q =
     (case pacer_enter (sh_pacer s) of (passed, p) \<Rightarrow>
        Some (moves (if passed then Sending item name k else AwaitingToken item name k) (s\<lparr>sh_pacer := p\<rparr>) q))"
| "worker_step e i (AwaitingToken item name k) s q =
     (case pacer_take (ev_sem e) (sh_pacer s) of
        None \<Rightarrow> None
      | Some p \<Rightarrow> Some (moves (Sending item name k) (s\<lparr>sh_pacer := p\<rparr>) q))"
| "worker_step e i (Sending item name k) s q =
     Some (moves (InFlight item name k (in_now i)) (on_resolver k (record_dispatch (rp_resolvers (sh_pool s) ! k)) s) q)"
| "worker_step e i (InFlight item name k started) s q =
     (case query_replied (ev_connector e) (in_reply i) started (in_now i) (rp_resolvers (sh_pool s) ! k) of
        (Inl partial, h) \<Rightarrow> Some (moves (Refetching item name k started partial) (on_resolver k h s) q)
      | (Inr r, h) \<Rightarrow> Some (responds item r (on_resolver k (drop_permit (ev_sem e) h) s) q))"
| "worker_step e i (Refetching item name k started partial) s q =
     (case query_refetched (ev_connector e) (in_tcp_reply i) started (in_now i) partial (rp_resolvers (sh_pool s) ! k) of
        (response, h) \<Rightarrow> Some (responds item (Inr response) (on_resolver k (drop_permit (ev_sem e) h) s) q))"

section \<open>What a query does to its resolver\<close>

lemma client_field_frame [frame]:
  "rh_inflight (h\<lparr>rh_client := c\<rparr>) = rh_inflight h" "outcomes_of (h\<lparr>rh_client := c\<rparr>) = outcomes_of h"
  "outcomes_of (h\<lparr>rh_tcp_client := c\<rparr>) = outcomes_of h" "outcomes_of (record_truncated h) = outcomes_of h"
  "outcomes_of (drop_permit S h) = outcomes_of h" "outcomes_of (h\<lparr>rh_inflight := p\<rparr>) = outcomes_of h"
  "outcomes_of (h\<lparr>rh_limiter := l\<rparr>) = outcomes_of h"
  by (simp_all add: outcomes_of_def record_truncated_def drop_permit_def)

lemma record_truncated_frame [frame]:
  "rh_inflight (record_truncated h) = rh_inflight h" "rh_limiter (record_truncated h) = rh_limiter h"
  "rh_attempted (record_truncated h) = rh_attempted h"
  "rh_truncated (record_truncated h) = rh_truncated h + 1" "rh_truncated (record_dispatch h) = rh_truncated h"
  "rh_truncated (record_response h rtt a now) = rh_truncated h"
  by (simp_all add: record_truncated_def record_dispatch_def record_response_def record_rtt_def decay_errors_def Let_def)

lemma record_resolver [frame]:
  "rh_resolver (record_response h rtt a now) = rh_resolver h" "rh_resolver (record_error h b now) = rh_resolver h"
  by (simp_all add: record_response_def record_rtt_def record_error_def decay_errors_def Let_def)

lemma query_replied_cases:
  assumes "query_replied cn out st now h = (r, h')"
  obtains (partial) c resp where "r = Inl resp" "dr_truncated resp" "h' = record_truncated (h\<lparr>rh_client := c\<rparr>)"
      "query_bounded cn h out = (Inr resp, h\<lparr>rh_client := c\<rparr>)"
  | (full) c resp where "r = Inr (Inr resp)" "\<not> dr_truncated resp"
      "h' = record_response (h\<lparr>rh_client := c\<rparr>) (now - st) (dr_answers resp \<noteq> []) now"
      "query_bounded cn h out = (Inr resp, h\<lparr>rh_client := c\<rparr>)"
  | (failed) c err where "r = Inr (Inl err)" "h' = record_error (h\<lparr>rh_client := c\<rparr>) (is_timeout err) now"
      "query_bounded cn h out = (Inl err, h\<lparr>rh_client := c\<rparr>)"
proof -
  obtain q h1 where q: "query_bounded cn h out = (q, h1)" by force
  then obtain c where "h1 = h\<lparr>rh_client := c\<rparr>" using query_within_frame by (fastforce simp: query_bounded_def)
  then show ?thesis using assms q that
    by (cases q) (auto simp: query_replied_def split: if_splits)
qed

lemma query_refetched_cases:
  assumes "query_refetched cn tcp st now partial h = (resp, h')"
  obtains c where "h' = record_response (h\<lparr>rh_tcp_client := c\<rparr>) (now - st) (dr_answers resp \<noteq> []) now"
    "resp = partial \<or> tcp = Inr resp"
proof -
  obtain f h1 where f: "refetch_over_tcp cn tcp h = (f, h1)" by force
  have "\<exists>c. h1 = h\<lparr>rh_tcp_client := c\<rparr> \<and> (f = None \<or> f = (case tcp of Inr r \<Rightarrow> Some r | Inl _ \<Rightarrow> None))"
    using f by (auto simp: refetch_over_tcp_def tcp_client_def split: option.splits sum.splits)
      (metis ResolverHealth.surjective ResolverHealth.update_convs(7))+
  then obtain c where "h1 = h\<lparr>rh_tcp_client := c\<rparr>" "f = None \<or> f = (case tcp of Inr r \<Rightarrow> Some r | Inl _ \<Rightarrow> None)"
    by blast
  then show ?thesis using assms f that [of c]
    by (cases f; cases tcp) (auto simp: query_refetched_def Let_def)
qed

text \<open>What each part leaves alone, and what it adds to the outcome counters.\<close>

lemma query_replied_frame:
  assumes "query_replied cn out st now h = (r, h')"
  shows "rh_inflight h' = rh_inflight h" "rh_limiter h' = rh_limiter h" "rh_attempted h' = rh_attempted h"
    "outcomes_of h' = outcomes_of h + (case r of Inl _ \<Rightarrow> 0 | Inr _ \<Rightarrow> 1)"
  by (use assms in \<open>cases rule: query_replied_cases; simp add: frame outcomes_record_response outcomes_record_error\<close>)+

lemma query_refetched_frame:
  assumes "query_refetched cn tcp st now partial h = (resp, h')"
  shows "rh_inflight h' = rh_inflight h" "rh_limiter h' = rh_limiter h" "rh_attempted h' = rh_attempted h"
    "outcomes_of h' = outcomes_of h + 1"
  by (use assms in \<open>cases rule: query_refetched_cases; simp add: frame outcomes_record_response\<close>)+

section \<open>Properties\<close>

definition counters :: "'s ResolverHealth \<Rightarrow> u64 list" where
  "counters h = [rh_answered h, rh_empty h, rh_timeout h, rh_error h]"

text \<open>The counter a result belongs to, by its place in the list.\<close>

definition counter_of :: "result \<Rightarrow> nat" where
  "counter_of r =
     (case r of Inr response \<Rightarrow> if dr_answers response \<noteq> [] then 0 else 1
      | Inl err \<Rightarrow> if is_timeout err then 2 else 3)"

definition bump :: "nat \<Rightarrow> u64 list \<Rightarrow> u64 list" where
  "bump i cs = cs[i := cs ! i + 1]"

lemma counters_frame [frame]:
  "counters (h\<lparr>rh_client := c\<rparr>) = counters h" "counters (h\<lparr>rh_tcp_client := c\<rparr>) = counters h"
  "counters (record_truncated h) = counters h" "counters (record_dispatch h) = counters h"
  by (simp_all add: counters_def record_truncated_def record_dispatch_def)

lemma counters_response:
  "counters (record_response h rtt (dr_answers resp \<noteq> []) now) = bump (counter_of (Inr resp)) (counters h)"
  by (simp add: counters_def bump_def counter_of_def record_response_def decay_errors_def frame Let_def)

lemma counters_error: "counters (record_error h (is_timeout err) now) = bump (counter_of (Inl err)) (counters h)"
  by (simp add: counters_def bump_def counter_of_def record_error_def Let_def)

text \<open>
  Every query is accounted for once and under the right heading: it adds one to \<open>attempted\<close>
  and one to exactly that one of \<open>answered\<close>, \<open>empty\<close>, \<open>timeout\<close> and \<open>error\<close> which its result,
  after any refetch over TCP, belongs to. The permit it runs under and the resolver's pacing are
  not touched.
\<close>

theorem worker_query_accounts:
  "case worker_query cn out tcp st t1 t2 h of (r, h') \<Rightarrow>
     rh_attempted h' = rh_attempted h + 1 \<and> counters h' = bump (counter_of r) (counters h)
     \<and> rh_inflight h' = rh_inflight h \<and> rh_limiter h' = rh_limiter h"
proof -
  let ?h = "record_dispatch h"
  have d: "rh_attempted ?h = rh_attempted h + 1" "rh_inflight ?h = rh_inflight h" "rh_limiter ?h = rh_limiter h"
    by (simp_all add: record_dispatch_def)
  obtain q h1 where q: "query_replied cn out st t1 ?h = (q, h1)" by force
  note fr = query_replied_frame(1-3) [OF q]
  show ?thesis
  proof (cases q)
    case (Inl partial)
    obtain resp h2 where r: "query_refetched cn tcp st t2 partial h1 = (resp, h2)" by force
    then obtain c where "h2 = record_response (h1\<lparr>rh_tcp_client := c\<rparr>) (t2 - st) (dr_answers resp \<noteq> []) t2"
      by (rule query_refetched_cases)
    then have "counters h2 = bump (counter_of (Inr resp)) (counters h1)" by (simp only: counters_response frame)
    moreover have "counters h1 = counters h" using q Inl by (cases rule: query_replied_cases) (simp_all add: frame)
    ultimately show ?thesis using q Inl r fr d query_refetched_frame(1-3) [OF r] by (simp add: worker_query_def)
  next
    case (Inr res)
    have "counters h1 = bump (counter_of res) (counters h)"
      using q by (cases rule: query_replied_cases) (use Inr in \<open>simp_all only: counters_response counters_error frame sum.inject sum.distinct\<close>)
    then show ?thesis using q Inr fr d by (simp add: worker_query_def)
  qed
qed

text \<open>
  A truncated answer is not passed off as a whole one. When the UDP response is truncated and
  the resolver answers over TCP, the result is the TCP response; only if TCP cannot be set up or
  fails is it the partial one. Either way the truncation is counted, once.
\<close>

theorem worker_query_truncated:
  assumes "query_bounded cn (record_dispatch h) out = (Inr partial, h0)" and "dr_truncated partial"
  shows "case worker_query cn out tcp st t1 t2 h of (r, h') \<Rightarrow>
     rh_truncated h' = rh_truncated h + 1
     \<and> r = Inr (case (fst (tcp_client cn h), tcp) of (Inr _, Inr full) \<Rightarrow> full | _ \<Rightarrow> partial)"
proof -
  let ?h = "record_dispatch h"
  have "query_replied cn out st t1 ?h = (Inl partial, record_truncated h0)"
    using assms by (simp add: query_replied_def)
  moreover from this obtain c where h0: "record_truncated h0 = record_truncated (?h\<lparr>rh_client := c\<rparr>)"
    by (cases rule: query_replied_cases) auto
  moreover obtain resp h2 where r: "query_refetched cn tcp st t2 partial (record_truncated h0) = (resp, h2)" by force
  moreover have "fst (tcp_client cn (record_truncated h0)) = fst (tcp_client cn h)"
    unfolding h0 by (simp add: tcp_client_def record_truncated_def record_dispatch_def setup_failed_def split: option.splits sum.splits)
  then have "resp = (case (fst (tcp_client cn h), tcp) of (Inr _, Inr full) \<Rightarrow> full | _ \<Rightarrow> partial)"
    using r by (auto simp: query_refetched_def refetch_over_tcp_def Let_def split: prod.splits sum.splits)
  moreover have "rh_truncated h2 = rh_truncated h + 1"
  proof -
    from r obtain c' where "h2 = record_response (record_truncated h0\<lparr>rh_tcp_client := c'\<rparr>) (t2 - st) (dr_answers resp \<noteq> []) t2"
      by (rule query_refetched_cases)
    moreover have "rh_truncated (record_truncated h0) = rh_truncated h + 1" unfolding h0 by (simp add: frame)
    ultimately show ?thesis by (simp add: record_truncated_frame(6))
  qed
  ultimately show ?thesis by (simp add: worker_query_def)
qed

definition truncated_answer :: DnsResponse where
  "truncated_answer = (plain_response NoError [])\<lparr>dr_truncated := True\<rparr>"

theorem worker_query_truncated_witness:
  "fst (worker_query sample_connector (Ends (Inr truncated_answer) 5) (Inr (plain_response NXDomain [])) 0 5 9 sample_health)
     = Inr (plain_response NXDomain [])"
proof -
  have "query_bounded sample_connector (record_dispatch sample_health) (Ends (Inr truncated_answer) 5)
      = (Inr truncated_answer, snd (query_bounded sample_connector (record_dispatch sample_health) (Ends (Inr truncated_answer) 5)))"
    "dr_truncated truncated_answer" "fst (tcp_client sample_connector sample_health) = Inr 8"
    by code_simp+
  from worker_query_truncated [OF this(1,2), of "Inr (plain_response NXDomain [])" 0 5 9] this(3)
  show ?thesis by auto
qed

end
