(* ===== verification/System.thy ===== *)
theory System
  imports Worker "HOL-Library.Multiset"
begin

text \<open>
  The running client as a whole: the workers of \<open>src/worker.rs\<close> over the bounded queue, the
  callers that fill it and count their outcomes (\<open>src/client.rs\<close>), the ticker of the attempt
  pacer (\<open>src/limiter.rs\<close>) and the control loop (\<open>src/controller.rs\<close>), all interleaving on what
  they share. A step is what one task does between two suspension points. The invariants relate
  permits, counters and answers to where the workers are.
\<close>

section \<open>State and steps\<close>

record 's sys =
  sy_shared :: "'s shared"
  sy_controller :: "AdaptiveController option"
  sy_queue :: "WorkItem list"
  sy_capacity :: nat
  sy_workers :: "phase list"
  sy_issued :: nat
  sy_answers :: "(nat \<times> result) list"

definition submit :: "QuerySpec \<Rightarrow> 's sys \<Rightarrow> 's sys option" where
  "submit spec y =
     (if length (sy_queue y) < sy_capacity y
      then Some (y\<lparr>sy_queue := sy_queue y @ [\<lparr>wi_query = spec, wi_responder = sy_issued y\<rparr>],
                   sy_issued := Suc (sy_issued y)\<rparr>)
      else None)"

text \<open>\<open>ResolverWorker::spawn\<close>: one more worker, waiting for its first item.\<close>

definition worker_spawn :: "'s sys \<Rightarrow> 's sys" where
  "worker_spawn y = y\<lparr>sy_workers := sy_workers y @ [Idle]\<rparr>"

lemma worker_spawn_many: "(worker_spawn ^^ n) y = y\<lparr>sy_workers := sy_workers y @ replicate n Idle\<rparr>"
  by (induction n) (simp_all add: worker_spawn_def replicate_append_same)

text \<open>The two ways a lookup that reached the path is counted when it ends.\<close>

definition count_completed :: "'s shared \<Rightarrow> 's shared" where
  "count_completed s = s\<lparr>sh_completed := sh_completed s + 1\<rparr>"

definition count_failed :: "'s shared \<Rightarrow> 's shared" where
  "count_failed s = s\<lparr>sh_completed := sh_completed s + 1, sh_failed := sh_failed s + 1\<rparr>"

definition work :: "'s env \<Rightarrow> input \<Rightarrow> nat \<Rightarrow> 's sys \<Rightarrow> 's sys option" where
  "work e i w y =
     (if w < length (sy_workers y)
      then map_option (\<lambda>oc. y\<lparr>sy_shared := oc_shared oc, sy_queue := oc_queue oc,
                              sy_workers := (sy_workers y)[w := oc_phase oc],
                              sy_answers := (case oc_answer oc of None \<Rightarrow> sy_answers y | Some a \<Rightarrow> a # sy_answers y)\<rparr>)
             (worker_step e i (sy_workers y ! w) (sy_shared y) (sy_queue y))
      else None)"

definition pacer_refill :: "'s env \<Rightarrow> f64 \<Rightarrow> 's sys \<Rightarrow> 's sys" where
  "pacer_refill e seconds y =
     y\<lparr>sy_shared := (sy_shared y)\<lparr>sh_pacer := refill (ev_sem e) seconds (sh_pacer (sy_shared y))\<rparr>\<rparr>"

text \<open>The ticker of the pacer is started by the controller, so a refill needs one.\<close>

inductive sys_step :: "'s env \<Rightarrow> 's sys \<Rightarrow> 's sys \<Rightarrow> bool" for e where
  step_submit: "submit spec y = Some y' \<Longrightarrow> sys_step e y y'"
| step_work: "work e i w y = Some y' \<Longrightarrow> sys_step e y y'"
| step_completed: "sys_step e y (y\<lparr>sy_shared := count_completed (sy_shared y)\<rparr>)"
| step_failed: "sys_step e y (y\<lparr>sy_shared := count_failed (sy_shared y)\<rparr>)"
| step_refill: "sy_controller y \<noteq> None \<Longrightarrow> 0 \<le> seconds \<Longrightarrow> sys_step e y (pacer_refill e seconds y)"
| step_tick: "sy_controller y = Some c \<Longrightarrow> controller_tick elapsed now (c, sy_shared y) = Some (c', s)
    \<Longrightarrow> sys_step e y (y\<lparr>sy_controller := Some c', sy_shared := s\<rparr>)"

inductive sys_reachable :: "'s env \<Rightarrow> 's sys \<Rightarrow> 's sys \<Rightarrow> bool" for e y0 where
  sys_start: "sys_reachable e y0 y0"
| sys_run: "sys_reachable e y0 y \<Longrightarrow> sys_step e y y' \<Longrightarrow> sys_reachable e y0 y'"

inductive_cases sys_stepE: "sys_step e y y'"

abbreviation resolvers_of :: "'s sys \<Rightarrow> 's ResolverHealth list" where
  "resolvers_of y \<equiv> rp_resolvers (sh_pool (sy_shared y))"

section \<open>What a worker holds\<close>

text \<open>The resolver a worker holds a permit of, and whether its query is counted as dispatched.\<close>

fun site :: "phase \<Rightarrow> nat option" where
  "site (Reserved _ _ k) = Some k"
| "site (PacingAttempt _ _ k) = Some k"
| "site (AwaitingToken _ _ k) = Some k"
| "site (Sending _ _ k) = Some k"
| "site (InFlight _ _ k _) = Some k"
| "site (Refetching _ _ k _ _) = Some k"
| "site _ = None"

fun dispatched :: "phase \<Rightarrow> bool" where
  "dispatched (InFlight _ _ _ _) = True"
| "dispatched (Refetching _ _ _ _ _) = True"
| "dispatched _ = False"

fun awaits_permit :: "phase \<Rightarrow> nat option" where
  "awaits_permit (AwaitingPermit _ _ k) = Some k"
| "awaits_permit _ = None"

fun awaits_token :: "phase \<Rightarrow> bool" where
  "awaits_token (AwaitingToken _ _ _) = True"
| "awaits_token _ = False"

fun item_of :: "phase \<Rightarrow> WorkItem option" where
  "item_of Idle = None"
| "item_of (Pacing it _) = Some it"
| "item_of (Selecting it _) = Some it"
| "item_of (AwaitingPermit it _ _) = Some it"
| "item_of (Reserved it _ _) = Some it"
| "item_of (PacingAttempt it _ _) = Some it"
| "item_of (AwaitingToken it _ _) = Some it"
| "item_of (Sending it _ _) = Some it"
| "item_of (InFlight it _ _ _) = Some it"
| "item_of (Refetching it _ _ _ _) = Some it"

definition holds :: "nat \<Rightarrow> phase \<Rightarrow> bool" where
  "holds k p \<longleftrightarrow> site p = Some k"

definition in_flight :: "nat \<Rightarrow> phase \<Rightarrow> bool" where
  "in_flight k p \<longleftrightarrow> site p = Some k \<and> dispatched p"

definition phase_ok :: "nat \<Rightarrow> phase \<Rightarrow> bool" where
  "phase_ok n p \<longleftrightarrow> (\<forall>k. site p = Some k \<or> awaits_permit p = Some k \<longrightarrow> k < n)"

definition free_permits :: "'s sem_ops \<Rightarrow> 's ResolverHealth \<Rightarrow> nat" where
  "free_permits S h = sem_available S (rh_inflight h)"

text \<open>Queries dispatched whose outcome is not counted yet.\<close>

definition outstanding :: "'s ResolverHealth \<Rightarrow> u64" where
  "outstanding h = rh_attempted h - outcomes_of h"

section \<open>One step of one worker\<close>

definition resolver_step :: "'s sem_ops \<Rightarrow> nat \<Rightarrow> phase \<Rightarrow> phase \<Rightarrow> 's ResolverHealth \<Rightarrow> 's ResolverHealth \<Rightarrow> bool" where
  "resolver_step S k p p' h h' \<longleftrightarrow>
     free_permits S h' + of_bool (holds k p') = free_permits S h + of_bool (holds k p)
     \<and> outstanding h' + of_bool (in_flight k p) = outstanding h + of_bool (in_flight k p')
     \<and> rl_interval_ns (rh_limiter h') = rl_interval_ns (rh_limiter h)"

definition resolvers_step :: "'s sem_ops \<Rightarrow> phase \<Rightarrow> phase \<Rightarrow> 's ResolverHealth list \<Rightarrow> 's ResolverHealth list \<Rightarrow> bool" where
  "resolvers_step S p p' hs hs' \<longleftrightarrow>
     length hs' = length hs \<and> (\<forall>k < length hs. resolver_step S k p p' (hs ! k) (hs' ! k))"

lemma resolvers_step_same:
  assumes "site p' = site p" and "dispatched p' = dispatched p"
  shows "resolvers_step S p p' hs hs"
  using assms by (simp add: resolvers_step_def resolver_step_def holds_def in_flight_def)

lemma resolvers_step_at:
  assumes "resolver_step S j p p' (hs ! j) h'" and "site p \<in> {None, Some j}" "site p' \<in> {None, Some j}"
  shows "resolvers_step S p p' hs (hs[j := h'])"
  unfolding resolvers_step_def
proof (intro conjI allI impI)
  fix k assume "k < length hs"
  then show "resolver_step S k p p' (hs ! k) (hs[j := h'] ! k)"
    using assms by (cases "k = j") (auto simp: resolver_step_def holds_def in_flight_def nth_list_update)
qed simp

lemma acquire_interval: "acquire l now = (slot, d, l') \<Longrightarrow> rl_interval_ns l' = rl_interval_ns l"
  by (auto simp: acquire_def Let_def)

text \<open>What selection does to the pool, whatever the cursor holds.\<close>

lemma scan_from_takes:
  "scan_from S now ks sc pool = Inl (k, pool') \<Longrightarrow> k \<in> set ks
     \<and> (\<exists>p. sem_try_acquire S (rh_inflight (rp_resolvers pool ! k)) = Some p
          \<and> pool' = pool_update k (\<lambda>h. h\<lparr>rh_inflight := p\<rparr>) pool)"
proof (induction ks arbitrary: sc)
  case (Cons j ks)
  show ?case
  proof (cases "scan_visit S now j sc pool")
    case (Inl p')
    then show ?thesis using Cons.prems
      by (auto simp: scan_visit_def Let_def try_acquire_def pool_update_def split: if_splits option.splits)
  qed (use Cons in auto)
qed simp

lemma scan_from_waits:
  "scan_from S now ks sc pool = Inr sc' \<Longrightarrow> sc_waitable sc' = Some k \<Longrightarrow> sc_waitable sc = Some k \<or> k \<in> set ks"
proof (induction ks arbitrary: sc)
  case (Cons j ks)
  then show ?case
    by (fastforce simp: scan_visit_def Let_def split: if_splits option.splits sum.splits)
qed simp

lemma scan_index_less: "0 < n \<Longrightarrow> scan_index offset n i < n"
  by (simp add: scan_index_def)

lemma reserve_pass_takes:
  assumes "reserve_pass S now pool = (Inl k, pool')"
  shows "k < length (rp_resolvers pool)
    \<and> (\<exists>p. sem_try_acquire S (rh_inflight (rp_resolvers pool ! k)) = Some p
         \<and> rp_resolvers pool' = (rp_resolvers pool)[k := (rp_resolvers pool ! k)\<lparr>rh_inflight := p\<rparr>])"
proof -
  let ?n = "length (rp_resolvers pool)" and ?p1 = "pool\<lparr>rp_cursor := rp_cursor pool + 1\<rparr>"
  let ?ks = "map (scan_index (rp_cursor pool) ?n) [0..<?n]"
  have n: "0 < ?n" and sc: "scan_from S now ?ks scan_start ?p1 = Inl (k, pool')"
    using assms by (auto simp: reserve_pass_def Let_def split: if_splits sum.splits prod.splits)
  have "k < ?n" using scan_from_takes [OF sc] scan_index_less [OF n] by auto
  then show ?thesis using scan_from_takes [OF sc] by (auto simp: pool_update_def)
qed

lemma reserve_pass_leaves:
  assumes "reserve_pass S now pool = (Inr d, pool')"
  shows "rp_resolvers pool' = rp_resolvers pool" and "d = WaitOn k \<Longrightarrow> k < length (rp_resolvers pool)"
proof -
  let ?n = "length (rp_resolvers pool)" and ?p1 = "pool\<lparr>rp_cursor := rp_cursor pool + 1\<rparr>"
  let ?ks = "map (scan_index (rp_cursor pool) ?n) [0..<?n]"
  show "rp_resolvers pool' = rp_resolvers pool"
    using assms by (auto simp: reserve_pass_def Let_def split: if_splits sum.splits prod.splits)
  assume d: "d = WaitOn k"
  then have n: "0 < ?n" using assms by (auto simp: reserve_pass_def)
  then obtain sc where sc: "scan_from S now ?ks scan_start ?p1 = Inr sc" and a: "after_scan sc ?p1 now = WaitOn k"
    using assms d by (auto simp: reserve_pass_def Let_def split: if_splits sum.splits prod.splits)
  then have "sc_waitable sc = Some k" by (auto simp: after_scan_def split: if_splits option.splits)
  with scan_from_waits [OF sc] have "k \<in> set ?ks" by (auto simp: scan_start_def)
  then show "k < ?n" using scan_index_less [OF n] by auto
qed

text \<open>Updates of one resolver that keep, take or give back a permit.\<close>

lemma free_permits_taken:
  assumes "semaphore S" and "sem_try_acquire S (rh_inflight h) = Some p"
  shows "Suc (free_permits S (h\<lparr>rh_inflight := p\<rparr>)) = free_permits S h"
  using semaphore.try_acquire_Some [OF assms] by (simp add: free_permits_def)

lemma free_permits_dropped: "semaphore S \<Longrightarrow> free_permits S (drop_permit S h) = Suc (free_permits S h)"
  by (simp add: free_permits_def drop_permit_def semaphore.available_add)

lemma drop_permit_frame [frame]:
  "outstanding (drop_permit S h) = outstanding h" "rh_limiter (drop_permit S h) = rh_limiter h"
  "outstanding (h\<lparr>rh_inflight := p\<rparr>) = outstanding h" "outstanding (h\<lparr>rh_limiter := l\<rparr>) = outstanding h"
  by (simp_all add: outstanding_def frame) (simp_all add: drop_permit_def)

lemma resolver_step_same:
  assumes "free_permits S h' = free_permits S h" "outstanding h' = outstanding h"
    "rl_interval_ns (rh_limiter h') = rl_interval_ns (rh_limiter h)" "site p' = site p" "dispatched p' = dispatched p"
  shows "resolver_step S k p p' h h'"
  using assms by (simp add: resolver_step_def holds_def in_flight_def)

lemma permit_arrived_cases:
  assumes "semaphore S" and "permit_arrived S now k pool = Some (kept, pool')"
  shows "\<exists>h'. rp_resolvers pool' = (rp_resolvers pool)[k := h'] \<and> outstanding h' = outstanding (rp_resolvers pool ! k)
    \<and> rh_limiter h' = rh_limiter (rp_resolvers pool ! k)
    \<and> free_permits S h' + of_bool kept = free_permits S (rp_resolvers pool ! k)"
proof -
  let ?h = "rp_resolvers pool ! k"
  obtain p where p: "sem_try_acquire S (rh_inflight ?h) = Some p"
    using assms(2) by (auto simp: permit_arrived_def try_acquire_def split: option.splits)
  let ?h1 = "?h\<lparr>rh_inflight := p\<rparr>"
  have "rp_resolvers pool' = (rp_resolvers pool)[k := if kept then ?h1 else drop_permit S ?h1]"
    using assms(2) p by (auto simp: permit_arrived_def try_acquire_def pool_update_def split: if_splits)
  then show ?thesis using free_permits_taken [OF assms(1) p] free_permits_dropped [OF assms(1), of ?h1]
    by (intro exI [of _ "if kept then ?h1 else drop_permit S ?h1"]) (simp add: frame)
qed

lemma on_resolver_resolvers [simp]:
  "rp_resolvers (sh_pool (on_resolver k h s)) = (rp_resolvers (sh_pool s))[k := h]"
  "sh_pacer (on_resolver k h s) = sh_pacer s" "sh_limiter (on_resolver k h s) = sh_limiter s"
  by (simp_all add: on_resolver_def pool_update_def)

lemma moves_simps [simp]:
  "oc_phase (moves p s q) = p" "oc_shared (moves p s q) = s" "oc_queue (moves p s q) = q" "oc_answer (moves p s q) = None"
  "oc_phase (responds it r s q) = Idle" "oc_shared (responds it r s q) = s" "oc_queue (responds it r s q) = q"
  "oc_answer (responds it r s q) = Some (wi_responder it, r)"
  by (simp_all add: moves_def responds_def)

lemma selecting_resolvers:
  assumes S: "semaphore (ev_sem e)" and st: "worker_step e i (Selecting it nm) s q = Some oc"
  shows "resolvers_step (ev_sem e) (Selecting it nm) (oc_phase oc) (rp_resolvers (sh_pool s))
    (rp_resolvers (sh_pool (oc_shared oc)))"
proof -
  obtain r pool where r: "reserve_pass (ev_sem e) (in_now i) (sh_pool s) = (r, pool)" by force
  show ?thesis
  proof (cases r)
    case (Inl k)
    from reserve_pass_takes [OF r [unfolded Inl]] obtain t where
      t: "sem_try_acquire (ev_sem e) (rh_inflight (rp_resolvers (sh_pool s) ! k)) = Some t"
        "rp_resolvers pool = (rp_resolvers (sh_pool s))[k := (rp_resolvers (sh_pool s) ! k)\<lparr>rh_inflight := t\<rparr>]" by blast
    then show ?thesis using st r Inl free_permits_taken [OF S t(1)]
      by (auto intro!: resolvers_step_at simp: resolver_step_def holds_def in_flight_def frame)
  next
    case (Inr d)
    then show ?thesis using st r reserve_pass_leaves(1) [OF r [unfolded Inr]]
      by (cases d) (auto intro!: resolvers_step_same)
  qed
qed

lemma query_end_resolvers:
  assumes S: "semaphore (ev_sem e)" and st: "worker_step e i p s q = Some oc"
    and p: "p = InFlight it nm k t0 \<or> p = Refetching it nm k t0 partial"
  shows "resolvers_step (ev_sem e) p (oc_phase oc) (rp_resolvers (sh_pool s)) (rp_resolvers (sh_pool (oc_shared oc)))"
  using p
proof
  let ?h = "rp_resolvers (sh_pool s) ! k"
  assume p: "p = InFlight it nm k t0"
  obtain r h' where r: "query_replied (ev_connector e) (in_reply i) t0 (in_now i) ?h = (r, h')" by force
  then show ?thesis using st p query_replied_frame [OF r] free_permits_dropped [OF S, of h']
    by (cases r)
      (auto intro!: resolvers_step_at simp: resolver_step_def holds_def in_flight_def free_permits_def frame
        outstanding_def drop_permit_def)
next
  let ?h = "rp_resolvers (sh_pool s) ! k"
  assume p: "p = Refetching it nm k t0 partial"
  obtain r h' where r: "query_refetched (ev_connector e) (in_tcp_reply i) t0 (in_now i) partial ?h = (r, h')" by force
  then show ?thesis using st p query_refetched_frame [OF r] free_permits_dropped [OF S, of h']
    by (auto intro!: resolvers_step_at simp: resolver_step_def holds_def in_flight_def free_permits_def frame
        outstanding_def drop_permit_def)
qed

lemma worker_step_resolvers:
  assumes S: "semaphore (ev_sem e)" and st: "worker_step e i p s q = Some oc"
  shows "resolvers_step (ev_sem e) p (oc_phase oc) (rp_resolvers (sh_pool s)) (rp_resolvers (sh_pool (oc_shared oc)))"
proof (cases p)
  case Idle
  then show ?thesis using st by (cases q) (auto simp: Let_def intro!: resolvers_step_same split: sum.splits)
next
  case (Pacing it nm)
  then show ?thesis using st by (auto intro!: resolvers_step_same split: prod.splits)
next
  case (Selecting it nm)
  then show ?thesis using selecting_resolvers [OF S] st by blast
next
  case (AwaitingPermit it nm k)
  then obtain kept pool where pa: "permit_arrived (ev_sem e) (in_now i) k (sh_pool s) = Some (kept, pool)"
    using st by (auto split: option.splits)
  from permit_arrived_cases [OF S pa] show ?thesis using st AwaitingPermit pa
    by (auto intro!: resolvers_step_at simp: resolver_step_def holds_def in_flight_def frame)
next
  case (Reserved it nm k)
  let ?h = "rp_resolvers (sh_pool s) ! k"
  obtain slot d l where a: "acquire (rh_limiter ?h) (in_now i) = (slot, d, l)" by (cases "acquire (rh_limiter ?h) (in_now i)") auto
  then show ?thesis using st Reserved acquire_interval [OF a]
    by (auto simp: acquire_rate_def frame free_permits_def intro!: resolvers_step_at resolver_step_same)
next
  case (PacingAttempt it nm k)
  then show ?thesis using st by (auto intro!: resolvers_step_same split: prod.splits)
next
  case (AwaitingToken it nm k)
  then show ?thesis using st by (auto intro!: resolvers_step_same split: option.splits)
next
  case (Sending it nm k)
  then show ?thesis using st
    by (auto intro!: resolvers_step_at simp: resolver_step_def holds_def in_flight_def free_permits_def
        outstanding_def record_dispatch_def outcomes_of_def)
next
  case (InFlight it nm k t0)
  then show ?thesis using query_end_resolvers [OF S st] by blast
next
  case (Refetching it nm k t0 partial)
  then show ?thesis using query_end_resolvers [OF S st] by blast
qed

text \<open>The other things a step does: where it goes, what it answers and what it may not touch.\<close>

lemma worker_step_phase_ok:
  assumes "worker_step e i p s q = Some oc" and "phase_ok (length (rp_resolvers (sh_pool s))) p"
  shows "phase_ok (length (rp_resolvers (sh_pool s))) (oc_phase oc)"
proof (cases p)
  case Idle
  then show ?thesis using assms(1) by (cases q) (auto simp: phase_ok_def Let_def split: sum.splits)
next
  case (Selecting it nm)
  then show ?thesis using assms(1)
    by (auto simp: phase_ok_def dest: reserve_pass_takes reserve_pass_leaves(2) split: prod.splits sum.splits decision.splits)
qed (use assms in \<open>auto simp: phase_ok_def split: prod.splits option.splits sum.splits if_splits\<close>)

definition ids_of :: "phase \<Rightarrow> nat multiset" where
  "ids_of p = (case item_of p of None \<Rightarrow> {#} | Some it \<Rightarrow> {#wi_responder it#})"

definition answer_ids :: "(nat \<times> result) option \<Rightarrow> nat multiset" where
  "answer_ids a = (case a of None \<Rightarrow> {#} | Some (i, _) \<Rightarrow> {#i#})"

lemma worker_step_ids:
  assumes "worker_step e i p s q = Some oc"
  shows "mset (map wi_responder (oc_queue oc)) + ids_of (oc_phase oc) + answer_ids (oc_answer oc)
    = mset (map wi_responder q) + ids_of p"
proof (cases p)
  case Idle
  then show ?thesis using assms by (cases q) (auto simp: ids_of_def answer_ids_def Let_def split: sum.splits)
qed (use assms in \<open>auto simp: ids_of_def answer_ids_def split: prod.splits option.splits sum.splits decision.splits if_splits\<close>)

lemma worker_step_pacing:
  assumes "worker_step e i p s q = Some oc"
  shows "rl_interval_ns (sh_limiter (oc_shared oc)) = rl_interval_ns (sh_limiter s)"
    and "ap_rate (sh_pacer (oc_shared oc)) = ap_rate (sh_pacer s)"
    and "ap_carry (sh_pacer (oc_shared oc)) = ap_carry (sh_pacer s)"
    and "ap_waiting (sh_pacer (oc_shared oc)) + of_bool (awaits_token p) = ap_waiting (sh_pacer s) + of_bool (awaits_token (oc_phase oc))"
proof -
  have "rl_interval_ns (sh_limiter (oc_shared oc)) = rl_interval_ns (sh_limiter s)
    \<and> ap_rate (sh_pacer (oc_shared oc)) = ap_rate (sh_pacer s) \<and> ap_carry (sh_pacer (oc_shared oc)) = ap_carry (sh_pacer s)
    \<and> ap_waiting (sh_pacer (oc_shared oc)) + of_bool (awaits_token p) = ap_waiting (sh_pacer s) + of_bool (awaits_token (oc_phase oc))"
  proof (cases p)
    case Idle
    then show ?thesis using assms by (cases q) (auto simp: Let_def split: sum.splits)
  next
    case (Pacing it nm)
    then show ?thesis using assms by (auto intro: acquire_interval split: prod.splits)
  qed (use assms in \<open>auto simp: pacer_enter_def pacer_take_def split: prod.splits option.splits sum.splits decision.splits if_splits\<close>)
  then show "rl_interval_ns (sh_limiter (oc_shared oc)) = rl_interval_ns (sh_limiter s)"
    "ap_rate (sh_pacer (oc_shared oc)) = ap_rate (sh_pacer s)" "ap_carry (sh_pacer (oc_shared oc)) = ap_carry (sh_pacer s)"
    "ap_waiting (sh_pacer (oc_shared oc)) + of_bool (awaits_token p) = ap_waiting (sh_pacer s) + of_bool (awaits_token (oc_phase oc))"
    by simp_all
qed

section \<open>What the controller leaves alone\<close>

lemma health_set_rate_frame: "health_set_rate h q = Some h' \<Longrightarrow> \<exists>l. h' = h\<lparr>rh_limiter := l\<rparr>"
  by (auto simp: health_set_rate_def)

lemma update_limiter_self: "\<exists>l. h = h\<lparr>rh_limiter := l\<rparr>" for h :: "'s ResolverHealth"
  by (rule exI [of _ "rh_limiter h"]) simp

lemma slot_tick_frame:
  assumes "slot_tick seconds now sl h = Some (sl', h')"
  shows "\<exists>l. h' = h\<lparr>rh_limiter := l\<rparr>"
proof -
  have "relax now (x, h) = Some (sl', h') \<Longrightarrow> ?thesis" for x
    using update_limiter_self [of h]
    by (auto simp: relax_def Let_def dest: health_set_rate_frame split: option.splits if_splits)
  moreover have "undo_retreat (x, h) = Some (sl', h') \<Longrightarrow> ?thesis" for x
    using update_limiter_self [of h]
    by (auto simp: undo_retreat_def Let_def dest: health_set_rate_frame split: option.splits if_splits)
  moreover have "retreat now b q (x, h) = Some (sl', h') \<Longrightarrow> ?thesis" for x b q
    by (auto simp: retreat_def Let_def dest: health_set_rate_frame)
  ultimately show ?thesis using assms
    by (auto simp: slot_tick_def Let_def split: if_splits Verdict.splits)
qed

lemma set_limit_queue [simp]:
  "ap_waiting (snd (set_limit l bp)) = ap_waiting (snd bp)" "ap_tokens (snd (set_limit l bp)) = ap_tokens (snd bp)"
  by (cases bp; simp add: set_limit_def Let_def pacer_set_rate_def)+

lemma brake_judge_queue [simp]:
  "ap_waiting (snd (brake_judge now r x d sh bp)) = ap_waiting (snd bp)"
  by (cases bp) (simp add: brake_judge_def Let_def split: option.split)

lemma brake_tick_queue [simp]: "ap_waiting (snd (brake_tick s a l r t now bp)) = ap_waiting (snd bp)"
  by (simp add: brake_tick_def brake_idle_def brake_gather_def brake_wake_def brake_window_def brake_probe_def Let_def
      split: option.split)

lemma tick_resolvers_length:
  "tick_resolvers seconds now (c, s) = Some (c', s') \<Longrightarrow> length (rp_resolvers (sh_pool s')) = length (rp_resolvers (sh_pool s))"
  by (auto simp: tick_resolvers_def Let_def dest!: those_map_Some_nth split: if_splits)

lemma controller_tick_frame:
  assumes "controller_tick elapsed now (c, s) = Some (c', s')"
  shows "length (rp_resolvers (sh_pool s')) = length (rp_resolvers (sh_pool s))"
    and "k < length (rp_resolvers (sh_pool s)) \<Longrightarrow> \<exists>l. rp_resolvers (sh_pool s') ! k = (rp_resolvers (sh_pool s) ! k)\<lparr>rh_limiter := l\<rparr>"
    and "ap_waiting (sh_pacer s') = ap_waiting (sh_pacer s)"
proof -
  let ?sec = "max (as_secs_f64 elapsed) MIN_SECONDS"
  obtain c1 s1 where r: "tick_resolvers ?sec now (c, s) = Some (c1, s1)"
    and pool: "sh_pool s' = sh_pool s1" and w: "ap_waiting (sh_pacer s') = ap_waiting (sh_pacer s1)"
    using assms by (auto simp: controller_tick_def Let_def tick_attempts_def split: option.splits if_splits)
  then show "length (rp_resolvers (sh_pool s')) = length (rp_resolvers (sh_pool s))" by (simp add: tick_resolvers_length)
  show "ap_waiting (sh_pacer s') = ap_waiting (sh_pacer s)"
    using w r by (auto simp: tick_resolvers_def Let_def split: if_splits)
  show "\<exists>l. rp_resolvers (sh_pool s') ! k = (rp_resolvers (sh_pool s) ! k)\<lparr>rh_limiter := l\<rparr>"
    if "k < length (rp_resolvers (sh_pool s))"
    using slot_tick_frame [OF tick_resolvers_nth [OF r that]] pool by simp
qed

section \<open>The invariant of the system\<close>

definition sys_inv :: "'s env \<Rightarrow> nat \<Rightarrow> 's sys \<Rightarrow> bool" where
  "sys_inv e cap y \<longleftrightarrow>
     (let hs = resolvers_of y; ws = sy_workers y
      in (\<forall>k < length hs. free_permits (ev_sem e) (hs ! k) + length (filter (holds k) ws) = cap
            \<and> outstanding (hs ! k) = of_nat (length (filter (in_flight k) ws)))
         \<and> (\<forall>p \<in> set ws. phase_ok (length hs) p)
         \<and> ap_waiting (sh_pacer (sy_shared y)) = of_nat (length (filter awaits_token ws)))"

definition ids_inv :: "'s sys \<Rightarrow> bool" where
  "ids_inv y \<longleftrightarrow>
     mset (map wi_responder (sy_queue y)) + sum_list (map ids_of (sy_workers y)) + mset (map fst (sy_answers y))
       = mset [0..<sy_issued y]"

lemma sum_list_update_add:
  "w < length xs \<Longrightarrow> sum_list (xs[w := x]) + xs ! w = sum_list xs + (x :: 'a::comm_monoid_add)"
proof (induction xs arbitrary: w)
  case (Cons a xs)
  show ?case
  proof (cases w)
    case (Suc v)
    then have "sum_list (xs[v := x]) + xs ! v = sum_list xs + x" using Cons by simp
    then show ?thesis using Suc by (simp add: add.assoc)
  qed (simp add: ac_simps)
qed simp

lemma filter_length_sum: "length (filter P xs) = sum_list (map (\<lambda>x. of_bool (P x)) xs)"
  by (induction xs) auto

lemma filter_length_update:
  assumes "w < length xs"
  shows "length (filter P (xs[w := x])) + of_bool (P (xs ! w)) = length (filter P xs) + of_bool (P x)"
  using sum_list_update_add [of w "map (\<lambda>x. of_bool (P x) :: nat) xs" "of_bool (P x)"] assms
  by (simp add: filter_length_sum map_update)

lemma of_nat_filter_update:
  assumes "w < length xs"
  shows "(of_nat (length (filter P (xs[w := x]))) :: u64) + of_bool (P (xs ! w)) = of_nat (length (filter P xs)) + of_bool (P x)"
  using arg_cong [OF filter_length_update [OF assms, of P x], of "of_nat :: nat \<Rightarrow> u64"] by simp

lemma moved_alike: "x' + p = x + q \<Longrightarrow> n' + p = n + q \<Longrightarrow> x = n \<Longrightarrow> x' = (n' :: u64)"
  by (metis add_right_cancel)

lemma sys_inv_work:
  assumes "semaphore (ev_sem e)" and "sys_inv e cap y" and "work e i w y = Some y'"
  shows "sys_inv e cap y'"
proof -
  let ?ws = "sy_workers y" and ?hs = "resolvers_of y"
  from assms(3) obtain oc where w: "w < length ?ws" and st: "worker_step e i (?ws ! w) (sy_shared y) (sy_queue y) = Some oc"
    and y': "sy_shared y' = oc_shared oc" "sy_workers y' = ?ws[w := oc_phase oc]"
    by (auto simp: work_def split: if_splits)
  have rs: "resolvers_step (ev_sem e) (?ws ! w) (oc_phase oc) ?hs (resolvers_of y')"
    using worker_step_resolvers [OF assms(1) st] y' by simp
  then have len: "length (resolvers_of y') = length ?hs" by (simp add: resolvers_step_def)
  have "phase_ok (length ?hs) (oc_phase oc)"
    using worker_step_phase_ok [OF st] assms(2) w by (simp add: sys_inv_def Let_def)
  then have ph: "\<forall>p \<in> set (sy_workers y'). phase_ok (length ?hs) p"
    using assms(2) y' set_update_subset_insert [of ?ws w "oc_phase oc"] by (auto simp: sys_inv_def Let_def)
  have "free_permits (ev_sem e) (resolvers_of y' ! k) + length (filter (holds k) (sy_workers y')) = cap
      \<and> outstanding (resolvers_of y' ! k) = of_nat (length (filter (in_flight k) (sy_workers y')))" if k: "k < length ?hs" for k
  proof -
    have step: "resolver_step (ev_sem e) k (?ws ! w) (oc_phase oc) (?hs ! k) (resolvers_of y' ! k)"
      using rs k by (simp add: resolvers_step_def)
    have inv: "free_permits (ev_sem e) (?hs ! k) + length (filter (holds k) ?ws) = cap"
      "outstanding (?hs ! k) = of_nat (length (filter (in_flight k) ?ws))" using assms(2) k by (simp_all add: sys_inv_def Let_def)
    have "free_permits (ev_sem e) (resolvers_of y' ! k) + length (filter (holds k) (sy_workers y')) = cap"
      using filter_length_update [OF w, of "holds k" "oc_phase oc"] step inv(1) by (simp add: resolver_step_def y')
    moreover have "outstanding (resolvers_of y' ! k) = of_nat (length (filter (in_flight k) (sy_workers y')))"
      unfolding y' by (rule moved_alike [OF _ of_nat_filter_update [OF w] inv(2)])
        (use step in \<open>simp add: resolver_step_def y'\<close>)
    ultimately show ?thesis by simp
  qed
  moreover have "ap_waiting (sh_pacer (sy_shared y')) = of_nat (length (filter awaits_token (sy_workers y')))"
    unfolding y' by (rule moved_alike [OF worker_step_pacing(4) [OF st] of_nat_filter_update [OF w]])
      (use assms(2) in \<open>simp add: sys_inv_def Let_def\<close>)
  ultimately show ?thesis using ph len by (simp add: sys_inv_def Let_def)
qed

lemma sys_inv_frame:
  assumes "sys_inv e cap y" and "sy_workers y' = sy_workers y" and "length (resolvers_of y') = length (resolvers_of y)"
    and "\<And>k. k < length (resolvers_of y) \<Longrightarrow> \<exists>l. resolvers_of y' ! k = (resolvers_of y ! k)\<lparr>rh_limiter := l\<rparr>"
    and "ap_waiting (sh_pacer (sy_shared y')) = ap_waiting (sh_pacer (sy_shared y))"
  shows "sys_inv e cap y'"
proof -
  have "free_permits (ev_sem e) (resolvers_of y' ! k) = free_permits (ev_sem e) (resolvers_of y ! k)
      \<and> outstanding (resolvers_of y' ! k) = outstanding (resolvers_of y ! k)" if "k < length (resolvers_of y)" for k
    using assms(4) [OF that] by (auto simp: free_permits_def frame)
  then show ?thesis using assms(1-3,5) by (simp add: sys_inv_def Let_def)
qed

lemma refill_waiting [simp]: "ap_waiting (refill S seconds p) = ap_waiting p"
  by (simp add: refill_def Let_def split: option.split)

lemma sys_inv_step:
  assumes "semaphore (ev_sem e)" and "sys_inv e cap y" and "sys_step e y y'"
  shows "sys_inv e cap y'"
  using assms(3)
proof (cases rule: sys_step.cases)
  case (step_work i w)
  then show ?thesis using sys_inv_work [OF assms(1,2)] by blast
next
  case (step_tick c elapsed now c' s)
  from controller_tick_frame [OF step_tick(3)] show ?thesis
    by (intro sys_inv_frame [OF assms(2)]) (simp_all add: step_tick(1))
qed (rule sys_inv_frame [OF assms(2)];
    auto simp: submit_def count_completed_def count_failed_def pacer_refill_def update_limiter_self split: if_splits)+

lemma ids_inv_step:
  assumes "ids_inv y" and "sys_step e y y'"
  shows "ids_inv y'"
  using assms(2)
proof (cases rule: sys_step.cases)
  case (step_work i w)
  from step_work obtain oc where w: "w < length (sy_workers y)"
    and st: "worker_step e i (sy_workers y ! w) (sy_shared y) (sy_queue y) = Some oc"
    and y': "sy_queue y' = oc_queue oc" "sy_workers y' = (sy_workers y)[w := oc_phase oc]" "sy_issued y' = sy_issued y"
      "sy_answers y' = (case oc_answer oc of None \<Rightarrow> sy_answers y | Some a \<Rightarrow> a # sy_answers y)"
    by (auto simp: work_def split: if_splits)
  let ?I = "\<lambda>ws. sum_list (map ids_of ws)"
  have u: "?I (sy_workers y') + ids_of (sy_workers y ! w) = ?I (sy_workers y) + ids_of (oc_phase oc)"
    using sum_list_update_add [of w "map ids_of (sy_workers y)"] w by (simp add: y' map_update)
  have a: "mset (map fst (sy_answers y')) = mset (map fst (sy_answers y)) + answer_ids (oc_answer oc)"
    by (simp add: y' answer_ids_def split: option.split)
  have "mset (map wi_responder (sy_queue y')) + ?I (sy_workers y') + mset (map fst (sy_answers y')) + ids_of (sy_workers y ! w)
      = (mset (map wi_responder (oc_queue oc)) + ids_of (oc_phase oc) + answer_ids (oc_answer oc)) + ?I (sy_workers y)
        + mset (map fst (sy_answers y))" using u unfolding a y'(1) by (simp add: ac_simps)
  also have "\<dots> = mset (map wi_responder (sy_queue y)) + ?I (sy_workers y) + mset (map fst (sy_answers y)) + ids_of (sy_workers y ! w)"
    unfolding worker_step_ids [OF st] by (simp add: ac_simps)
  finally show ?thesis using assms(1) y'(3) by (simp add: ids_inv_def)
qed (use assms(1) in \<open>auto simp: ids_inv_def submit_def pacer_refill_def atLeast0_lessThan_Suc split: if_splits\<close>)

text \<open>Channels are answered at most once, and all of them once no work is left.\<close>

definition quiescent :: "'s sys \<Rightarrow> bool" where
  "quiescent y \<longleftrightarrow> sy_queue y = [] \<and> (\<forall>p \<in> set (sy_workers y). p = Idle)"

lemma ids_inv_distinct:
  assumes "ids_inv y"
  shows "distinct (map fst (sy_answers y))"
proof -
  obtain zs where "mset zs = mset (map wi_responder (sy_queue y)) + sum_list (map ids_of (sy_workers y))"
    using ex_mset by blast
  then have "mset (zs @ map fst (sy_answers y)) = mset [0..<sy_issued y]" using assms by (simp add: ids_inv_def)
  then have "distinct (zs @ map fst (sy_answers y))" by (metis mset_eq_imp_distinct_iff distinct_upt)
  then show ?thesis by simp
qed

lemma ids_of_idle: "\<forall>p \<in> set ws. p = Idle \<Longrightarrow> sum_list (map ids_of ws) = {#}"
  by (induction ws) (auto simp: ids_of_def)

lemma ids_inv_rest:
  assumes "ids_inv y" and "quiescent y"
  shows "set (map fst (sy_answers y)) = {0..<sy_issued y}"
proof -
  have "mset (map fst (sy_answers y)) = mset [0..<sy_issued y]"
    using assms ids_of_idle [of "sy_workers y"] by (simp add: ids_inv_def quiescent_def)
  then have "set (map fst (sy_answers y)) = set [0..<sy_issued y]" by (rule mset_eq_setD)
  then show ?thesis by simp
qed

text \<open>The state in which a client spawns its workers.\<close>

definition sys_fresh :: "'s env \<Rightarrow> nat \<Rightarrow> 's sys \<Rightarrow> bool" where
  "sys_fresh e cap y \<longleftrightarrow>
     (\<forall>h \<in> set (resolvers_of y). free_permits (ev_sem e) h = cap \<and> outstanding h = 0)
     \<and> (\<forall>p \<in> set (sy_workers y). p = Idle) \<and> ap_waiting (sh_pacer (sy_shared y)) = 0
     \<and> sy_queue y = [] \<and> sy_issued y = 0 \<and> sy_answers y = []"

lemma sys_fresh_inv:
  assumes "sys_fresh e cap y"
  shows "sys_inv e cap y" and "ids_inv y"
proof -
  have "filter (holds k) (sy_workers y) = []" "filter (in_flight k) (sy_workers y) = []" for k
    using assms by (auto simp: sys_fresh_def filter_empty_conv holds_def in_flight_def)
  moreover have "filter awaits_token (sy_workers y) = []" using assms by (auto simp: sys_fresh_def filter_empty_conv)
  moreover have "\<forall>p \<in> set (sy_workers y). phase_ok (length (resolvers_of y)) p"
    using assms by (auto simp: sys_fresh_def phase_ok_def)
  ultimately show "sys_inv e cap y" using assms by (auto simp: sys_inv_def Let_def sys_fresh_def)
  show "ids_inv y" using assms ids_of_idle [of "sy_workers y"] by (simp add: ids_inv_def sys_fresh_def)
qed

lemma sys_reachable_inv:
  assumes "sys_reachable e y0 y" and "semaphore (ev_sem e)" and "sys_fresh e cap y0"
  shows "sys_inv e cap y" and "ids_inv y"
  using assms(1)
  by (induction, auto intro: sys_inv_step [OF assms(2)] ids_inv_step sys_fresh_inv [OF assms(3)])

section \<open>The controller in the running system\<close>

text \<open>What the other tasks do between two ticks is what the controller's analysis allows for.\<close>

lemma env_ok_refl: "pacer_ok (sh_pacer s) \<Longrightarrow> env_ok s s"
  by (simp add: env_ok_def)

lemma worker_step_env_ok:
  assumes "semaphore (ev_sem e)" and "worker_step e i p s q = Some oc" and "pacer_ok (sh_pacer s)"
  shows "env_ok s (oc_shared oc)"
proof -
  let ?hs = "rp_resolvers (sh_pool s)" and ?hs' = "rp_resolvers (sh_pool (oc_shared oc))"
  have rs: "resolvers_step (ev_sem e) p (oc_phase oc) ?hs ?hs'" by (rule worker_step_resolvers [OF assms(1,2)])
  then have "map (rl_interval_ns \<circ> rh_limiter) ?hs' = map (rl_interval_ns \<circ> rh_limiter) ?hs"
    by (intro nth_equalityI) (auto simp: resolvers_step_def resolver_step_def)
  then show ?thesis using worker_step_pacing(1-3) [OF assms(2)] assms(3)
    by (simp add: env_ok_def pacer_ok_def)
qed

lemma sys_step_env:
  assumes "semaphore (ev_sem e)" and "sys_step e y y'" and "pacer_ok (sh_pacer (sy_shared y))"
  shows "sy_controller y' = sy_controller y \<and> env_ok (sy_shared y) (sy_shared y')
    \<or> (\<exists>c c' elapsed now. sy_controller y = Some c \<and> sy_controller y' = Some c'
         \<and> controller_tick elapsed now (c, sy_shared y) = Some (c', sy_shared y'))"
  using assms(2)
proof (cases rule: sys_step.cases)
  case (step_work i w)
  then obtain oc where "worker_step e i (sy_workers y ! w) (sy_shared y) (sy_queue y) = Some oc"
    "sy_shared y' = oc_shared oc" "sy_controller y' = sy_controller y" by (auto simp: work_def split: if_splits)
  then show ?thesis using worker_step_env_ok [OF assms(1) _ assms(3)] by simp
next
  case (step_refill seconds)
  then show ?thesis using refill_ok [OF assms(3)] by (simp add: pacer_refill_def env_ok_def)
next
  case (step_tick c elapsed now c' s)
  then show ?thesis by auto
qed (use assms(3) in \<open>auto simp: submit_def count_completed_def count_failed_def env_ok_def split: if_splits\<close>)

definition sys_ctl_ok :: "'s sys \<Rightarrow> bool" where
  "sys_ctl_ok y \<longleftrightarrow>
     (case sy_controller y of Some c \<Rightarrow> ctl_ok (c, sy_shared y) | None \<Rightarrow> pacer_ok (sh_pacer (sy_shared y)))"

lemma sys_ctl_ok_pacer: "sys_ctl_ok y \<Longrightarrow> pacer_ok (sh_pacer (sy_shared y))"
  by (auto simp: sys_ctl_ok_def ctl_ok_def brake_ok_def split: option.splits)

lemma sys_step_ctl_ok:
  assumes "semaphore (ev_sem e)" and "sys_step e y y'" and "sys_ctl_ok y"
  shows "sys_ctl_ok y'"
  using sys_step_env [OF assms(1,2) sys_ctl_ok_pacer [OF assms(3)]]
proof (elim disjE conjE exE)
  assume c: "sy_controller y' = sy_controller y" and env: "env_ok (sy_shared y) (sy_shared y')"
  show ?thesis
  proof (cases "sy_controller y")
    case None
    then show ?thesis using c env by (simp add: sys_ctl_ok_def env_ok_def)
  next
    case (Some c0)
    then show ?thesis using c env_ok_ctl [OF env] assms(3) by (simp add: sys_ctl_ok_def)
  qed
next
  fix c c' elapsed now
  assume t: "sy_controller y = Some c" "sy_controller y' = Some c'"
    "controller_tick elapsed now (c, sy_shared y) = Some (c', sy_shared y')"
  then have "ctl_ok (c, sy_shared y)" using assms(3) by (simp add: sys_ctl_ok_def)
  from controller_tick_ok [OF this, of elapsed now] t show ?thesis by (simp add: sys_ctl_ok_def)
qed

lemma sys_reachable_ctl_ok:
  assumes "sys_reachable e y0 y" and "semaphore (ev_sem e)" and "sys_ctl_ok y0"
  shows "sys_ctl_ok y"
  using assms(1) by induction (use assms(3) sys_step_ctl_ok [OF assms(2)] in auto)

lemma sys_reachable_ctl:
  assumes "sys_reachable e y0 y" and "semaphore (ev_sem e)" and "sys_ctl_ok y0" and c0: "sy_controller y0 = Some c0"
  shows "\<exists>c. sy_controller y = Some c \<and> ctl_reachable c0 (sy_shared y0) c (sy_shared y)"
  using assms(1)
proof induction
  case (sys_run y y')
  have "pacer_ok (sh_pacer (sy_shared y))"
    by (rule sys_ctl_ok_pacer [OF sys_reachable_ctl_ok [OF sys_run.hyps(1) assms(2,3)]])
  from sys_step_env [OF assms(2) sys_run.hyps(2) this] sys_run.IH show ?case
    by (auto intro: ctl_env ctl_tick)
qed (auto simp: c0 intro: ctl_start)

section \<open>Progress\<close>

definition can_move :: "'s env \<Rightarrow> nat \<Rightarrow> 's sys \<Rightarrow> bool" where
  "can_move e w y \<longleftrightarrow> (\<exists>i y'. work e i w y = Some y')"

lemma can_move_iff:
  "can_move e w y \<longleftrightarrow> w < length (sy_workers y)
     \<and> (\<exists>i. worker_step e i (sy_workers y ! w) (sy_shared y) (sy_queue y) \<noteq> None)"
  by (auto simp: can_move_def work_def)

text \<open>Only three phases can be stuck: without work, without a permit, without a token.\<close>

lemma worker_step_stuck:
  assumes "worker_step e i p s q = None"
  shows "p = Idle \<and> q = [] \<or> (\<exists>k. awaits_permit p = Some k \<and> permit_arrived (ev_sem e) (in_now i) k (sh_pool s) = None)
    \<or> awaits_token p \<and> pacer_take (ev_sem e) (sh_pacer s) = None"
proof (cases p)
  case Idle
  then show ?thesis using assms by (cases q) (auto simp: Let_def split: sum.splits)
next
  case (Selecting it nm)
  then show ?thesis using assms by (auto split: prod.splits sum.splits decision.splits)
qed (use assms in \<open>auto split: prod.splits sum.splits option.splits\<close>)

lemma filter_not_empty: "0 < length (filter P xs) \<Longrightarrow> \<exists>w < length xs. P (xs ! w)"
  by (metis filter_empty_conv in_set_conv_nth length_greater_0_conv)

lemma permit_arrived_None:
  assumes "semaphore S" and "permit_arrived S now k pool = None"
  shows "free_permits S (rp_resolvers pool ! k) = 0"
  using assms semaphore.try_acquire_None [OF assms(1)]
  by (auto simp: permit_arrived_def try_acquire_def free_permits_def split: option.splits if_splits)

lemma holder_exists:
  assumes "sys_inv e cap y" and "0 < cap" and "k < length (resolvers_of y)"
    and "free_permits (ev_sem e) (resolvers_of y ! k) = 0"
  shows "\<exists>w < length (sy_workers y). site (sy_workers y ! w) = Some k"
  using assms filter_not_empty [of "holds k" "sy_workers y"] by (auto simp: sys_inv_def Let_def holds_def)

lemma stuck_only_on_tokens:
  assumes S: "semaphore (ev_sem e)" and inv: "sys_inv e cap y" "0 < cap"
    and busy: "w < length (sy_workers y)" "sy_workers y ! w \<noteq> Idle" and none: "\<And>v. \<not> can_move e v y"
  shows "\<exists>v < length (sy_workers y). awaits_token (sy_workers y ! v)"
proof -
  let ?ws = "sy_workers y" and ?i = "undefined :: input"
  have stuck: "worker_step e ?i (?ws ! v) (sy_shared y) (sy_queue y) = None" if "v < length ?ws" for v
    using none [of v] that by (auto simp: can_move_iff)
  have on_token: "\<exists>v < length ?ws. awaits_token (?ws ! v)" if v: "v < length ?ws" and s: "site (?ws ! v) = Some k" for v k
    using worker_step_stuck [OF stuck [OF v]] s v by (cases "?ws ! v") auto
  from worker_step_stuck [OF stuck [OF busy(1)]] show ?thesis
  proof (elim disjE exE conjE)
    fix k assume k: "awaits_permit (?ws ! w) = Some k" "permit_arrived (ev_sem e) (in_now ?i) k (sh_pool (sy_shared y)) = None"
    have "k < length (resolvers_of y)" using inv(1) busy(1) k(1) by (auto simp: sys_inv_def Let_def phase_ok_def)
    from holder_exists [OF inv this permit_arrived_None [OF S k(2)]] on_token show ?thesis by blast
  qed (use busy in auto)
qed

text \<open>When a token is owed, one refill hands it out.\<close>

lemma unat_ge_1: "w \<noteq> 0 \<Longrightarrow> 1 \<le> unat w"
  by (simp add: word_eq_0_iff_unat)

lemmas u64_of_f64_ge_1 = unat_ge_1 [OF u64_of_f64_ne_0]

lemma pacer_burst_ge_1: "1 \<le> pacer_burst r"
  unfolding pacer_burst_def by (rule u64_of_f64_ge_1) simp

lemma refill_gives_token:
  assumes "semaphore S" and "pacer_ok p" and "ap_waiting p \<noteq> 0"
    and "\<And>r. ap_rate p = Some r \<Longrightarrow> 1 \<le> f64_mul r seconds"
  shows "pacer_take S (refill S seconds p) \<noteq> None"
proof -
  have "1 \<le> sem_available S (ap_tokens (refill S seconds p))"
  proof (cases "ap_rate p")
    case None
    then show ?thesis using semaphore.refill_releases_waiters [OF assms(1) None, of seconds] unat_ge_1 [OF assms(3)]
      by simp
  next
    case (Some r)
    let ?c = "f64_add (ap_carry p) (f64_mul r seconds)"
    have c: "1 \<le> ?c" unfolding f64_add_def
      using assms(2) assms(4) [OF Some] by (intro f64_le_round) (auto simp: pacer_ok_def)
    have "floor_f64 ?c = of_int \<lfloor>?c\<rfloor>" using c by (intro floor_f64_exact) auto
    then have "1 \<le> floor_f64 ?c" using c by (simp add: le_floor_iff)
    from u64_of_f64_ge_1 [OF this] show ?thesis
      using pacer_burst_ge_1 [of r] Some by (simp add: refill_def Let_def semaphore.available_add [OF assms(1)])
  qed
  then show ?thesis using semaphore.try_acquire_None [OF assms(1), of "ap_tokens (refill S seconds p)"]
    by (simp add: pacer_take_def)
qed

section \<open>Properties\<close>

definition sample_env :: "nat env" where
  "sample_env = \<lparr>ev_sem = counting_sem, ev_connector = sample_connector, ev_name_from_ascii = Inr\<rparr>"

definition sample_sys :: "nat sys" where
  "sample_sys =
     \<lparr>sy_shared = one_resolver, sy_controller = Some (AdaptiveController_new 1 UNLIMITED_QPS),
      sy_queue = [], sy_capacity = 4, sy_workers = [Idle, Idle], sy_issued = 0, sy_answers = []\<rparr>"

lemma sample_env_sem: "ev_sem sample_env = counting_sem" "semaphore (ev_sem sample_env)"
  by (simp_all add: sample_env_def counting.semaphore_axioms)

lemma sample_sys_fresh: "sys_fresh sample_env 2 sample_sys"
  by (simp add: sys_fresh_def sample_sys_def one_resolver_def sample_env_sem free_permits_def outstanding_def
      sample_health_simps outcomes_of_def sample_health_outcomes AttemptPacer_new_def)

text \<open>Two lookups are submitted; one worker has its query in flight, the other is about to choose.\<close>

definition sample_input :: input where
  "sample_input = \<lparr>in_now = 5, in_reply = Never, in_tcp_reply = Inl ClientTimeout\<rparr>"

definition sample_run :: "nat sys option" where
  "sample_run =
     Option.bind (foldM submit [\<lparr>qs_host = ''a.'', qs_record_type = RT_A\<rparr>, \<lparr>qs_host = ''b.'', qs_record_type = RT_A\<rparr>] sample_sys)
       (foldM (work sample_env sample_input) [0, 1, 0, 1, 0, 0, 0, 0])"

lemma foldM_reachable:
  assumes "foldM f xs y = Some y'" and "sys_reachable e y0 y" and "\<And>x y y'. f x y = Some y' \<Longrightarrow> sys_step e y y'"
  shows "sys_reachable e y0 y'"
  using assms(1,2) by (rule foldM_invariant) (use assms(3) in \<open>blast intro: sys_run\<close>)

lemma sample_run_reachable:
  assumes "sample_run = Some y"
  shows "sys_reachable sample_env sample_sys y"
proof -
  obtain y1 where y1: "foldM submit [\<lparr>qs_host = ''a.'', qs_record_type = RT_A\<rparr>, \<lparr>qs_host = ''b.'', qs_record_type = RT_A\<rparr>] sample_sys = Some y1"
    and y: "foldM (work sample_env sample_input) [0, 1, 0, 1, 0, 0, 0, 0] y1 = Some y"
    using assms unfolding sample_run_def Option.bind_eq_Some_conv by blast
  have "sys_reachable sample_env sample_sys y1" by (rule foldM_reachable [OF y1 sys_start]) (rule step_submit)
  from foldM_reachable [OF y this] show ?thesis by (blast intro: step_work)
qed

lemma sample_run_phases:
  "map_option (\<lambda>y. (map site (sy_workers y), map dispatched (sy_workers y), length (resolvers_of y),
       ap_rate (sh_pacer (sy_shared y)))) sample_run = Some ([Some 0, None], [True, False], 1, None)"
  by code_simp

lemma sample_run_ex:
  obtains y where "sample_run = Some y" "sys_reachable sample_env sample_sys y" "length (resolvers_of y) = 1"
    "map site (sy_workers y) = [Some 0, None]" "map dispatched (sy_workers y) = [True, False]"
    "ap_rate (sh_pacer (sy_shared y)) = None"
proof (cases sample_run)
  case None
  then show ?thesis using sample_run_phases by simp
next
  case (Some y)
  from sample_run_phases [unfolded Some] show ?thesis
    by (intro that [OF Some sample_run_reachable [OF Some]]) simp_all
qed

lemma permits_add_up:
  assumes "semaphore (ev_sem e)" and "sys_fresh e cap y0" and "sys_reachable e y0 y" and "k < length (resolvers_of y)"
  shows "free_permits (ev_sem e) (resolvers_of y ! k) + length (filter (holds k) (sy_workers y)) = cap"
  using sys_reachable_inv(1) [OF assms(3,1,2)] assms(4) by (simp add: sys_inv_def Let_def)

lemma inflight_le:
  assumes "semaphore (ev_sem e)" and "sys_fresh e cap y0" and "sys_reachable e y0 y" and "k < length (resolvers_of y)"
  shows "length (filter (in_flight k) (sy_workers y)) \<le> cap"
proof -
  have "length (filter (in_flight k) ws) \<le> length (filter (holds k) ws)" for ws
    by (induction ws) (auto simp: in_flight_def holds_def)
  then show ?thesis using permits_add_up [OF assms] by (metis le_add2 order_trans)
qed

text \<open>
  C8. The in-flight bound holds under every interleaving: at every resolver, the permits that are
  free and the workers that hold one add up to the configured number, so at most that many queries
  are ever outstanding there. No permit is lost or invented on any path: an answered query, an
  error, a refetch over TCP, a permit handed back because the resolver was benched meanwhile.
\<close>

theorem inflight_bounded:
  assumes "semaphore (ev_sem e)" and "sys_fresh e cap y0" and "sys_reachable e y0 y" and "k < length (resolvers_of y)"
  shows "free_permits (ev_sem e) (resolvers_of y ! k) + length (filter (holds k) (sy_workers y)) = cap
    \<and> length (filter (in_flight k) (sy_workers y)) \<le> cap"
  using permits_add_up [OF assms] inflight_le [OF assms] by simp

theorem inflight_bounded_witness:
  "\<exists>y. sys_reachable sample_env sample_sys y \<and> map site (sy_workers y) = [Some 0, None]
     \<and> free_permits counting_sem (resolvers_of y ! 0) + length (filter (holds 0) (sy_workers y)) = 2
     \<and> length (filter (in_flight 0) (sy_workers y)) \<le> 2"
proof -
  obtain y where y: "sample_run = Some y" "sys_reachable sample_env sample_sys y" "length (resolvers_of y) = 1"
    "map site (sy_workers y) = [Some 0, None]" "map dispatched (sy_workers y) = [True, False]"
    "ap_rate (sh_pacer (sy_shared y)) = None"
    by (rule sample_run_ex)
  then show ?thesis using inflight_bounded [OF sample_env_sem(2) sample_sys_fresh y(2), of 0]
    by (intro exI [of _ y]) (simp add: sample_env_sem(1))
qed

text \<open>
  C19. The counters of a resolver always add up: \<open>attempted\<close> is the sum of the four outcomes and of
  the queries in flight at that moment, so it equals the four outcomes exactly when none is.
\<close>

theorem attempts_accounted:
  assumes "semaphore (ev_sem e)" and "sys_fresh e cap y0" and "sys_reachable e y0 y" and "k < length (resolvers_of y)"
  shows "let h = resolvers_of y ! k in
    rh_attempted h = rh_answered h + rh_empty h + rh_timeout h + rh_error h + of_nat (length (filter (in_flight k) (sy_workers y)))"
proof -
  have "outstanding (resolvers_of y ! k) = of_nat (length (filter (in_flight k) (sy_workers y)))"
    using sys_reachable_inv(1) [OF assms(3,1,2)] assms(4) by (simp add: sys_inv_def Let_def)
  then show ?thesis by (simp add: Let_def outstanding_def outcomes_of_def algebra_simps)
qed

theorem attempts_accounted_witness:
  "\<exists>y. sys_reachable sample_env sample_sys y \<and> map dispatched (sy_workers y) = [True, False]
     \<and> (let h = resolvers_of y ! 0 in rh_attempted h = rh_answered h + rh_empty h + rh_timeout h + rh_error h
           + of_nat (length (filter (in_flight 0) (sy_workers y))))"
proof -
  obtain y where y: "sample_run = Some y" "sys_reachable sample_env sample_sys y" "length (resolvers_of y) = 1"
    "map site (sy_workers y) = [Some 0, None]" "map dispatched (sy_workers y) = [True, False]"
    "ap_rate (sh_pacer (sy_shared y)) = None"
    by (rule sample_run_ex)
  then show ?thesis using attempts_accounted [OF sample_env_sem(2) sample_sys_fresh y(2), of 0]
    by (intro exI [of _ y]) simp
qed

text \<open>
  C9. Every accepted lookup is answered exactly once. At any moment the reply channels handed out
  are, each exactly once, in the queue, with one worker, or answered; so none is answered twice,
  none is dropped, and once the queue is empty and the workers are idle all have been answered.
\<close>

theorem answered_exactly_once:
  assumes "semaphore (ev_sem e)" and "sys_fresh e cap y0" and "sys_reachable e y0 y"
  shows "mset (map wi_responder (sy_queue y)) + sum_list (map ids_of (sy_workers y)) + mset (map fst (sy_answers y))
      = mset [0..<sy_issued y]
    \<and> distinct (map fst (sy_answers y))
    \<and> (sy_queue y = [] \<and> (\<forall>p \<in> set (sy_workers y). p = Idle) \<longrightarrow> set (map fst (sy_answers y)) = {0..<sy_issued y})"
proof -
  note inv = sys_reachable_inv(2) [OF assms(3,1,2)]
  show ?thesis using inv ids_inv_distinct [OF inv] ids_inv_rest [OF inv] unfolding ids_inv_def quiescent_def by blast
qed

theorem answered_exactly_once_witness:
  "\<exists>y. sys_reachable sample_env sample_sys y \<and> map site (sy_workers y) = [Some 0, None]
     \<and> mset (map wi_responder (sy_queue y)) + sum_list (map ids_of (sy_workers y)) + mset (map fst (sy_answers y))
         = mset [0..<sy_issued y]"
proof -
  obtain y where y: "sample_run = Some y" "sys_reachable sample_env sample_sys y" "length (resolvers_of y) = 1"
    "map site (sy_workers y) = [Some 0, None]" "map dispatched (sy_workers y) = [True, False]"
    "ap_rate (sh_pacer (sy_shared y)) = None"
    by (rule sample_run_ex)
  then show ?thesis using answered_exactly_once [OF sample_env_sem(2) sample_sys_fresh y(2)]
    by (intro exI [of _ y] conjI) (elim conjE; assumption)+
qed

text \<open>
  The workers cannot deadlock. As long as resolvers have permits at all and some worker has a
  lookup in hand, some worker can move, or a worker waits for a token of the attempt pacer and can
  move as soon as the pacer's ticker has run for the time that one token takes, which is no time at
  all once the limit is lifted. So waiting for a permit always ends: its holders cannot be stuck.
\<close>

theorem workers_never_deadlock:
  assumes "semaphore (ev_sem e)" and "sys_fresh e cap y0" and "0 < cap" and "sys_ctl_ok y0"
    and "sys_reachable e y0 y" and "length (sy_workers y) < 2 ^ 64" and "\<exists>p \<in> set (sy_workers y). p \<noteq> Idle"
    and "\<And>r. ap_rate (sh_pacer (sy_shared y)) = Some r \<Longrightarrow> 1 \<le> f64_mul r seconds"
  shows "(\<exists>w. can_move e w y) \<or> (\<exists>w. can_move e w (pacer_refill e seconds y))"
proof (cases "\<exists>w. can_move e w y")
  case False
  note inv = sys_reachable_inv(1) [OF assms(5,1,2)]
  let ?p = "sh_pacer (sy_shared y)" and ?ws = "sy_workers y"
  obtain u where "u < length ?ws" "?ws ! u \<noteq> Idle" using assms(7) by (auto simp: in_set_conv_nth)
  from stuck_only_on_tokens [OF assms(1) inv assms(3) this] False
  obtain w where w: "w < length ?ws" "awaits_token (?ws ! w)" by blast
  then have "0 < length (filter awaits_token ?ws)" by (auto simp: filter_empty_conv)
  moreover have "length (filter awaits_token ?ws) < 2 ^ 64" using assms(6) length_filter_le le_less_trans by blast
  ultimately have "ap_waiting ?p \<noteq> 0"
    using inv by (simp add: sys_inv_def Let_def word_eq_0_iff_unat unat_of_nat_u64)
  moreover have "pacer_ok ?p"
    by (rule sys_ctl_ok_pacer [OF sys_reachable_ctl_ok [OF assms(5,1,4)]])
  ultimately have "pacer_take (ev_sem e) (refill (ev_sem e) seconds ?p) \<noteq> None"
    using refill_gives_token [OF assms(1)] assms(8) by blast
  then have "can_move e w (pacer_refill e seconds y)"
    using w by (cases "?ws ! w") (auto simp: can_move_iff pacer_refill_def)
  then show ?thesis by blast
qed blast

theorem workers_never_deadlock_witness:
  "\<exists>y. sys_reachable sample_env sample_sys y \<and> map dispatched (sy_workers y) = [True, False]
     \<and> ((\<exists>w. can_move sample_env w y) \<or> (\<exists>w. can_move sample_env w (pacer_refill sample_env 1 y)))"
proof -
  obtain y where y: "sample_run = Some y" "sys_reachable sample_env sample_sys y" "length (resolvers_of y) = 1"
    "map site (sy_workers y) = [Some 0, None]" "map dispatched (sy_workers y) = [True, False]"
    "ap_rate (sh_pacer (sy_shared y)) = None"
    by (rule sample_run_ex)
  have ctl: "sys_ctl_ok sample_sys" using one_resolver_ok by (simp add: sample_sys_def sys_ctl_ok_def)
  have busy: "\<exists>p \<in> set (sy_workers y). p \<noteq> Idle" using y(5) by (cases "sy_workers y") auto
  have "length (sy_workers y) = 2" using arg_cong [OF y(5), of length] by simp
  then have "length (sy_workers y) < 2 ^ 64" by simp
  from workers_never_deadlock [OF sample_env_sem(2) sample_sys_fresh _ ctl y(2) this busy, of 1] y(2,5,6)
  show ?thesis by (intro exI [of _ y]) simp
qed

text \<open>
  C11. The control loop is safe in the running client: whatever the callers, the workers and the
  pacer's ticker do between its ticks, every tick succeeds, and the global limiter never runs
  faster than the configured rate.
\<close>

theorem controller_safe_in_system:
  assumes "semaphore (ev_sem e)" and "shared_fresh (ev_sem e) cap (sy_shared y0)" and "is_f64 cap"
    and "sy_controller y0 = Some (AdaptiveController_new (length (resolvers_of y0)) cap)" and "sys_reachable e y0 y"
  shows "\<exists>c. sy_controller y = Some c \<and> (\<exists>r. controller_tick elapsed now (c, sy_shared y) = Some r)
    \<and> rl_interval_ns (sh_limiter (sy_shared y0)) \<le> rl_interval_ns (sh_limiter (sy_shared y))"
proof -
  note ok0 = ctl_ok_new [OF assms(2,3)]
  then have "sys_ctl_ok y0" using assms(4) by (simp add: sys_ctl_ok_def)
  from sys_reachable_ctl [OF assms(5,1) this assms(4)] obtain c where c: "sy_controller y = Some c"
    and r: "ctl_reachable (AdaptiveController_new (length (resolvers_of y0)) cap) (sy_shared y0) c (sy_shared y)" by blast
  from controller_tick_ok [OF ctl_reachable_ok [OF r ok0], of elapsed now] ctl_reachable_capped [OF assms(2,3) r]
  show ?thesis using c by blast
qed

theorem controller_safe_in_system_witness:
  "\<exists>y c r. sys_reachable sample_env sample_sys y \<and> map dispatched (sy_workers y) = [True, False]
     \<and> sy_controller y = Some c \<and> controller_tick 500000000 500000000 (c, sy_shared y) = Some r"
proof -
  obtain y where y: "sample_run = Some y" "sys_reachable sample_env sample_sys y" "length (resolvers_of y) = 1"
    "map site (sy_workers y) = [Some 0, None]" "map dispatched (sy_workers y) = [True, False]"
    "ap_rate (sh_pacer (sy_shared y)) = None"
    by (rule sample_run_ex)
  have "shared_fresh (ev_sem sample_env) UNLIMITED_QPS (sy_shared sample_sys)"
    "sy_controller sample_sys = Some (AdaptiveController_new (length (resolvers_of sample_sys)) UNLIMITED_QPS)"
    using one_resolver_fresh by (simp_all add: sample_sys_def sample_env_sem one_resolver_simps)
  from controller_safe_in_system [OF sample_env_sem(2) this(1) one_resolver_fresh(2) this(2) y(2), of 500000000 500000000]
  obtain c r where "sy_controller y = Some c" "controller_tick 500000000 500000000 (c, sy_shared y) = Some r" by blast
  then show ?thesis using y by (intro exI [of _ y] exI [of _ c] exI [of _ r]) simp
qed

end
