(* ===== verification/Cache.thy ===== *)
theory Cache
  imports Dns Config "HOL-Library.AList"
begin

text \<open>
  \<open>src/cache.rs\<close>: the response cache. The LRU map underneath is a library, so it is a
  parameter: a record of its operations, and the locale \<open>lru\<close> with what its documentation
  promises about the map it holds (\<open>lru_peek\<close>, which the crate never calls, reads it). A bounded
  list in order of use is an instance. The mutex is never poisoned, because no operation panics
  while it is held; the one panic there is, \<open>clamp\<close> with bounds the wrong way round, comes
  before it and is the value \<^term>\<open>None\<close>.
\<close>

section \<open>The LRU map\<close>

record ('k, 'v, 'c) lru_ops =
  lru_new :: "nat \<Rightarrow> 'c"
  lru_get :: "'k \<Rightarrow> 'c \<Rightarrow> 'v option \<times> 'c"
  lru_put :: "'k \<Rightarrow> 'v \<Rightarrow> 'c \<Rightarrow> 'c"
  lru_pop :: "'k \<Rightarrow> 'c \<Rightarrow> 'c"
  lru_peek :: "'c \<Rightarrow> 'k \<Rightarrow> 'v option"

locale lru =
  fixes L :: "('k, 'v, 'c) lru_ops"
  assumes peek_new: "lru_peek L (lru_new L n) k = None"
    and get_value: "fst (lru_get L k c) = lru_peek L c k"
    and peek_get: "lru_peek L (snd (lru_get L k c)) = lru_peek L c"
    and peek_pop: "lru_peek L (lru_pop L k c) = (lru_peek L c)(k := None)"
    and peek_put_same: "lru_peek L (lru_put L k v c) k = Some v"
    and peek_put_other: "j \<noteq> k \<Longrightarrow> lru_peek L (lru_put L k v c) j \<in> {lru_peek L c j, None}"

text \<open>Most recently used first, with the capacity in front.\<close>

type_synonym ('k, 'v) lru_list = "nat \<times> ('k \<times> 'v) list"

definition lru_list :: "('k, 'v, ('k, 'v) lru_list) lru_ops" where
  "lru_list =
     \<lparr>lru_new = (\<lambda>n. (n, [])),
      lru_get = (\<lambda>k (n, kvs). case map_of kvs k of
                   None \<Rightarrow> (None, (n, kvs))
                 | Some v \<Rightarrow> (Some v, (n, (k, v) # AList.delete k kvs))),
      lru_put = (\<lambda>k v (n, kvs). (n, take (max n 1) ((k, v) # AList.delete k kvs))),
      lru_pop = (\<lambda>k (n, kvs). (n, AList.delete k kvs)),
      lru_peek = (\<lambda>(n, kvs). map_of kvs)\<rparr>"

lemma map_of_take_subset: "map_of (take n xs) j \<in> {map_of xs j, None}"
proof (cases "map_of (take n xs) j")
  case (Some v)
  have "map_of (take n xs @ drop n xs) j = Some v" unfolding map_of_append using Some by (rule map_add_find_right)
  then show ?thesis using Some by simp
qed simp

interpretation ll: lru lru_list
proof unfold_locales
  fix j k :: 'a and v :: 'b and c :: "('a, 'b) lru_list"
  assume "j \<noteq> k"
  then have "map_of (AList.delete k (snd c)) j = map_of (snd c) j" by (simp add: delete_conv)
  then show "lru_peek lru_list (lru_put lru_list k v c) j \<in> {lru_peek lru_list c j, None}"
    using map_of_take_subset [of "max (fst c) 1 - 1" "AList.delete k (snd c)" j] \<open>j \<noteq> k\<close>
    by (cases c) (auto simp: lru_list_def take_Cons' split: if_splits)
qed (auto simp: lru_list_def delete_conv' map_of_delete fun_eq_iff delete_conv take_Cons' split: option.splits prod.splits)

section \<open>SimpleCache\<close>

record CacheEntry =
  ce_response :: DnsResponse
  ce_expire_at :: instant

record 'c SimpleCache =
  sc_inner :: 'c
  sc_min_ttl :: duration
  sc_max_ttl :: duration

type_synonym 'c cache_lru = "(Query, CacheEntry, 'c) lru_ops"

definition SimpleCache_new :: "'c cache_lru \<Rightarrow> usize \<Rightarrow> duration \<Rightarrow> duration \<Rightarrow> 'c SimpleCache" where
  "SimpleCache_new L capacity min_ttl max_ttl =
     \<lparr>sc_inner = lru_new L (unat (max capacity 1)), sc_min_ttl = min_ttl, sc_max_ttl = max_ttl\<rparr>"

definition cache_get :: "'c cache_lru \<Rightarrow> Query \<Rightarrow> instant \<Rightarrow> 'c SimpleCache \<Rightarrow> DnsResponse option \<times> 'c SimpleCache" where
  "cache_get L query now c =
     (case lru_get L query (sc_inner c) of (entry, inner) \<Rightarrow>
        (case entry of
           None \<Rightarrow> (None, c\<lparr>sc_inner := inner\<rparr>)
         | Some e \<Rightarrow>
             if now < ce_expire_at e then (Some (ce_response e), c\<lparr>sc_inner := inner\<rparr>)
             else (None, c\<lparr>sc_inner := lru_pop L query inner\<rparr>)))"

definition cache_contains :: "'c cache_lru \<Rightarrow> Query \<Rightarrow> instant \<Rightarrow> 'c SimpleCache \<Rightarrow> bool \<times> 'c SimpleCache" where
  "cache_contains L query now c =
     (case lru_get L query (sc_inner c) of (entry, inner) \<Rightarrow>
        (case entry of
           None \<Rightarrow> (False, c\<lparr>sc_inner := inner\<rparr>)
         | Some e \<Rightarrow>
             if now < ce_expire_at e then (True, c\<lparr>sc_inner := inner\<rparr>)
             else (False, c\<lparr>sc_inner := lru_pop L query inner\<rparr>)))"

definition clamp :: "duration \<Rightarrow> duration \<Rightarrow> duration \<Rightarrow> duration option" where
  "clamp lo hi x = (if lo \<le> hi then Some (max lo (min x hi)) else None)"

definition min_ttl_secs :: "DnsResponse \<Rightarrow> u32" where
  "min_ttl_secs response = (case min_list_opt (map r_ttl (dr_answers response)) of Some t \<Rightarrow> t | None \<Rightarrow> 0)"

definition cache_insert ::
  "'c cache_lru \<Rightarrow> Query \<Rightarrow> DnsResponse \<Rightarrow> instant \<Rightarrow> 'c SimpleCache \<Rightarrow> 'c SimpleCache option" where
  "cache_insert L query response now c =
     (let ttl_secs = min_ttl_secs response
      in if ttl_secs = 0 then Some c
         else case clamp (sc_min_ttl c) (sc_max_ttl c) (from_secs (ucast ttl_secs)) of
                None \<Rightarrow> None
              | Some ttl \<Rightarrow>
                  Some (c\<lparr>sc_inner := lru_put L query \<lparr>ce_response = response, ce_expire_at = now + ttl\<rparr> (sc_inner c)\<rparr>))"

section \<open>What the cache promises\<close>

text \<open>The map a cache holds, and the entry an insertion makes, if any.\<close>

definition cache_view :: "'c cache_lru \<Rightarrow> 'c SimpleCache \<Rightarrow> Query \<Rightarrow> CacheEntry option" where
  "cache_view L c = lru_peek L (sc_inner c)"

definition entry_for :: "'c SimpleCache \<Rightarrow> DnsResponse \<Rightarrow> instant \<Rightarrow> CacheEntry" where
  "entry_for c response now =
     \<lparr>ce_response = response,
      ce_expire_at = now + max (sc_min_ttl c) (min (from_secs (ucast (min_ttl_secs response))) (sc_max_ttl c))\<rparr>"

lemma cache_insert_cases:
  "cache_insert L q r now c =
     (if min_ttl_secs r = 0 then Some c
      else if sc_max_ttl c < sc_min_ttl c then None
      else Some (c\<lparr>sc_inner := lru_put L q (entry_for c r now) (sc_inner c)\<rparr>))"
  by (simp add: cache_insert_def Let_def clamp_def entry_for_def)

lemma min_ttl_zero: "min_ttl_secs r = 0 \<longleftrightarrow> dr_answers r = [] \<or> (\<exists>a \<in> set (dr_answers r). r_ttl a = 0)"
proof (cases "min_list_opt (map r_ttl (dr_answers r))")
  case (Some t)
  then have "t \<in> r_ttl ` set (dr_answers r)" "\<And>a. a \<in> set (dr_answers r) \<Longrightarrow> t \<le> r_ttl a"
    by (auto simp: min_list_opt_Some_iff)
  then show ?thesis using Some by (fastforce simp: min_ttl_secs_def)
qed (cases "dr_answers r"; simp add: min_ttl_secs_def min_list_opt_def)

lemma cache_ttls_frame [frame]:
  "cache_insert L q r now c = Some c' \<Longrightarrow> sc_min_ttl c' = sc_min_ttl c \<and> sc_max_ttl c' = sc_max_ttl c"
  "sc_min_ttl (snd (cache_get L q now c)) = sc_min_ttl c" "sc_max_ttl (snd (cache_get L q now c)) = sc_max_ttl c"
  "sc_min_ttl (snd (cache_contains L q now c)) = sc_min_ttl c" "sc_max_ttl (snd (cache_contains L q now c)) = sc_max_ttl c"
  by (auto simp: cache_insert_cases cache_get_def cache_contains_def split: if_splits option.splits prod.splits)

context lru
begin

lemma peek_subset: "lru_peek L (lru_put L k v c) j = Some w \<Longrightarrow> (j = k \<and> w = v) \<or> lru_peek L c j = Some w"
  using peek_put_same [of k v c] peek_put_other [of j k v c] by (cases "j = k") auto

end

locale cache = lru L for L :: "'c cache_lru"
begin

lemma cache_get_value:
  "fst (cache_get L q now c) =
     (case cache_view L c q of Some e \<Rightarrow> if now < ce_expire_at e then Some (ce_response e) else None | None \<Rightarrow> None)"
  using get_value [of q "sc_inner c"]
  by (auto simp: cache_get_def cache_view_def split: prod.splits option.splits)

lemma cache_get_view:
  "cache_view L (snd (cache_get L q now c)) =
     (if \<exists>e. cache_view L c q = Some e \<and> ce_expire_at e \<le> now then (cache_view L c)(q := None) else cache_view L c)"
  using get_value [of q "sc_inner c"] peek_get [of q "sc_inner c"]
  by (cases "lru_get L q (sc_inner c)"; cases "lru_peek L (sc_inner c) q")
    (auto simp: cache_get_def cache_view_def peek_pop)

lemma cache_contains_value: "fst (cache_contains L q now c) \<longleftrightarrow> fst (cache_get L q now c) \<noteq> None"
  by (auto simp: cache_get_def cache_contains_def split: prod.splits option.splits)

lemma cache_contains_same: "snd (cache_contains L q now c) = snd (cache_get L q now c)"
  by (auto simp: cache_get_def cache_contains_def split: prod.splits option.splits)

lemma cache_insert_view:
  assumes "cache_insert L q r now c = Some c'" and "cache_view L c' j = Some e"
  shows "cache_view L c j = Some e \<or> (j = q \<and> e = entry_for c r now \<and> min_ttl_secs r \<noteq> 0)"
  using assms peek_subset [of q "entry_for c r now" "sc_inner c" j e]
  by (auto simp: cache_insert_cases cache_view_def split: if_splits)

lemma cache_insert_same:
  assumes "cache_insert L q r now c = Some c'" and "min_ttl_secs r \<noteq> 0"
  shows "cache_view L c' q = Some (entry_for c r now)"
  using assms peek_put_same [of q] by (auto simp: cache_insert_cases cache_view_def split: if_splits)

end

text \<open>Runs of the cache, with a log of what was inserted and when it was to expire.\<close>

datatype cache_op = CGet Query instant | CContains Query instant | CInsert Query DnsResponse instant

fun cache_step ::
  "'c cache_lru \<Rightarrow> cache_op \<Rightarrow> 'c SimpleCache \<times> (Query \<times> CacheEntry) list \<Rightarrow> ('c SimpleCache \<times> (Query \<times> CacheEntry) list) option" where
  "cache_step L (CGet q now) cl = Some (snd (cache_get L q now (fst cl)), snd cl)"
| "cache_step L (CContains q now) cl = Some (snd (cache_contains L q now (fst cl)), snd cl)"
| "cache_step L (CInsert q r now) cl =
     map_option (\<lambda>c. (c, (q, entry_for (fst cl) r now) # snd cl)) (cache_insert L q r now (fst cl))"

context cache
begin

lemma cache_step_log:
  assumes "cache_step L op (c, lg) = Some (c', lg')"
    and "\<And>q e. cache_view L c q = Some e \<Longrightarrow> (q, e) \<in> set lg"
    and "cache_view L c' q = Some e"
  shows "(q, e) \<in> set lg'"
proof (cases op)
  case (CGet p now)
  then show ?thesis using assms cache_get_view [of p now c] by (auto split: if_splits)
next
  case (CContains p now)
  then show ?thesis using assms cache_get_view [of p now c] by (auto simp: cache_contains_same split: if_splits)
next
  case (CInsert p r now)
  then show ?thesis using assms(1,3) assms(2) [of q e] cache_insert_view [of p r now c c' q e] by auto
qed

lemma cache_run_log:
  assumes "foldM (cache_step L) ops (SimpleCache_new L n lo hi, []) = Some (c, lg)" and "cache_view L c q = Some e"
  shows "(q, e) \<in> set lg"
proof -
  have "\<forall>q e. cache_view L (fst (c, lg)) q = Some e \<longrightarrow> (q, e) \<in> set (snd (c, lg))"
    using assms(1)
  proof (rule foldM_invariant)
    show "\<forall>q e. cache_view L (fst (SimpleCache_new L n lo hi, [])) q = Some e \<longrightarrow> (q, e) \<in> set (snd (SimpleCache_new L n lo hi, []))"
      by (simp add: cache_view_def SimpleCache_new_def peek_new)
  next
    fix op and s t :: "'c SimpleCache \<times> (Query \<times> CacheEntry) list"
    assume "\<forall>q e. cache_view L (fst s) q = Some e \<longrightarrow> (q, e) \<in> set (snd s)" "cache_step L op s = Some t"
    then show "\<forall>q e. cache_view L (fst t) q = Some e \<longrightarrow> (q, e) \<in> set (snd t)"
      using cache_step_log [of op "fst s" "snd s" "fst t" "snd t"] by auto
  qed
  then show ?thesis using assms(2) unfolding fst_conv snd_conv by blast
qed

end

interpretation list_cache: cache lru_list
  by unfold_locales

section \<open>Properties\<close>

text \<open>
  C27. The cache never invents and never serves stale. Whatever was done to it before, a hit for a
  query is a response that was inserted for exactly that query and whose lifetime, the smallest
  TTL of its answers clamped to the configured bounds, has not run out.
\<close>

theorem cache_hit_sound:
  assumes "cache L" and "foldM (cache_step L) ops (SimpleCache_new L n lo hi, []) = Some (c, lg)"
    and "fst (cache_get L q now c) = Some r"
  shows "\<exists>e. (q, e) \<in> set lg \<and> ce_response e = r \<and> now < ce_expire_at e"
proof -
  obtain e where "cache_view L c q = Some e" "now < ce_expire_at e" "ce_response e = r"
    using assms(3) cache.cache_get_value [OF assms(1), of q now c] by (auto split: option.splits if_splits)
  then show ?thesis using cache.cache_run_log [OF assms(1,2)] by blast
qed

definition cached_answer :: DnsResponse where
  "cached_answer = plain_response NoError [\<lparr>r_name = ''a.'', r_type = RT_A, r_ttl = 300, r_data = ''192.0.2.7''\<rparr>]"

theorem cache_hit_sound_witness:
  "\<exists>c lg e. foldM (cache_step lru_list) [CInsert (''a.'', RT_A) cached_answer 5]
       (SimpleCache_new lru_list 10 0 86400000000000, []) = Some (c, lg)
     \<and> fst (cache_get lru_list (''a.'', RT_A) 7 c) = Some cached_answer \<and> ((''a.'', RT_A), e) \<in> set lg \<and> 7 < ce_expire_at e"
proof -
  let ?c = "SimpleCache_new lru_list 10 0 86400000000000"
  let ?c' = "?c\<lparr>sc_inner := lru_put lru_list (''a.'', RT_A) (entry_for ?c cached_answer 5) (sc_inner ?c)\<rparr>"
  let ?lg = "[((''a.'', RT_A), entry_for ?c cached_answer 5)]"
  have ttl: "min_ttl_secs cached_answer = 300" by code_simp
  have run: "foldM (cache_step lru_list) [CInsert (''a.'', RT_A) cached_answer 5] (?c, []) = Some (?c', ?lg)"
    by (simp add: cache_insert_cases ttl) (simp add: SimpleCache_new_def)
  have hit: "fst (cache_get lru_list (''a.'', RT_A) 7 ?c') = Some cached_answer"
    by (simp add: list_cache.cache_get_value cache_view_def ll.peek_put_same entry_for_def ttl)
      (simp add: SimpleCache_new_def from_secs_def)
  from cache_hit_sound [OF list_cache.cache_axioms run hit] run hit show ?thesis by blast
qed

text \<open>
  What is inserted is found. With lifetime bounds the right way round, a response whose
  answers all have a positive TTL can be read back under its query at every moment before it
  expires, and it expires no earlier than the minimum and no later than the maximum lifetime.
\<close>

theorem cache_insert_get:
  assumes "cache L" and "sc_min_ttl c \<le> sc_max_ttl c" and "min_ttl_secs r \<noteq> 0"
  shows "\<exists>c'. cache_insert L q r now c = Some c'
    \<and> (\<forall>t < ce_expire_at (entry_for c r now). fst (cache_get L q t c') = Some r)
    \<and> now + sc_min_ttl c \<le> ce_expire_at (entry_for c r now) \<and> ce_expire_at (entry_for c r now) \<le> now + sc_max_ttl c"
proof -
  obtain c' where c': "cache_insert L q r now c = Some c'" using assms(2,3) by (simp add: cache_insert_cases)
  from cache.cache_insert_same [OF assms(1) c' assms(3)]
  have "\<forall>t < ce_expire_at (entry_for c r now). fst (cache_get L q t c') = Some r"
    by (simp add: cache.cache_get_value [OF assms(1)] entry_for_def)
  then show ?thesis using c' assms(2) by (auto simp: entry_for_def)
qed

theorem cache_insert_get_witness:
  "\<exists>c'. cache_insert lru_list (''a.'', RT_A) cached_answer 5 (SimpleCache_new lru_list 10 0 86400000000000) = Some c'
    \<and> fst (cache_get lru_list (''a.'', RT_A) 300000000004 c') = Some cached_answer"
proof -
  let ?c = "SimpleCache_new lru_list 10 0 86400000000000"
  have ttl: "min_ttl_secs cached_answer = 300" by code_simp
  have "300000000004 < ce_expire_at (entry_for ?c cached_answer 5)"
    by (simp add: entry_for_def ttl SimpleCache_new_def from_secs_def)
  moreover have "sc_min_ttl ?c \<le> sc_max_ttl ?c" by (simp add: SimpleCache_new_def)
  ultimately show ?thesis
    using cache_insert_get [OF list_cache.cache_axioms, of ?c cached_answer "(''a.'', RT_A)" 5] ttl by fastforce
qed



end
