(* ===== verification/Utils.thy ===== *)
theory Utils
  imports Errors
begin

text \<open>
  \<open>src/utils.rs\<close>: resolver address parsing, the file-descriptor budget, the system resolver
  list and the PTR query name. The operating system's \<open>getrlimit\<close>/\<open>setrlimit\<close>, the DNS
  library's \<open>read_system_conf\<close> and the iteration order of a \<open>HashSet\<close> are parameters.
\<close>

section \<open>Operations\<close>

definition parse_resolver :: "string \<Rightarrow> BlastDNSError + SocketAddr" where
  "parse_resolver input =
     (case SocketAddr_from_str input of
        Some addr \<Rightarrow> Inr addr
      | None \<Rightarrow>
          let trimmed = trim input;
              stripped = trim_matches (\<lambda>c. c = CHR ''['' \<or> c = CHR '']'') trimmed
          in case IpAddr_from_str stripped of
               Some ip \<Rightarrow> Inr (SocketAddr_new ip 53)
             | None \<Rightarrow> Inl (InvalidResolver input))"

definition required_fds :: "usize \<Rightarrow> usize \<Rightarrow> bool \<Rightarrow> usize" where
  "required_fds concurrency resolvers persistent =
     (let udp = (if persistent then resolvers else concurrency) in udp + concurrency + 100)"

text \<open>The two system calls on the process's \<open>NOFILE\<close> limit; \<^term>\<open>None\<close> is a failing call.\<close>

record rlimit =
  rlim_cur :: u64
  rlim_max :: u64

record 'os rlimit_ops =
  getrlimit :: "'os \<Rightarrow> rlimit option"
  setrlimit :: "rlimit \<Rightarrow> 'os \<Rightarrow> 'os option"

datatype ulimit_error = ReadFailed | RaiseFailed u64 u64 | RereadFailed | LimitTooLow u64 usize

definition check_ulimits ::
  "'os rlimit_ops \<Rightarrow> usize \<Rightarrow> usize \<Rightarrow> bool \<Rightarrow> 'os \<Rightarrow> (ulimit_error + unit) \<times> 'os" where
  "check_ulimits sys concurrency resolvers persistent os =
     (case getrlimit sys os of
        None \<Rightarrow> (Inl ReadFailed, os)
      | Some rl \<Rightarrow>
          let hard_limit = rlim_max rl;
              required = required_fds concurrency resolvers persistent;
              verdict = (\<lambda>current_limit. if current_limit < required
                                         then Inl (LimitTooLow current_limit required) else Inr ())
          in if rlim_cur rl < hard_limit
             then (case setrlimit sys \<lparr>rlim_cur = hard_limit, rlim_max = hard_limit\<rparr> os of
                     None \<Rightarrow> (Inl (RaiseFailed (rlim_cur rl) hard_limit), os)
                   | Some os' \<Rightarrow>
                       (case getrlimit sys os' of
                          None \<Rightarrow> (Inl RereadFailed, os')
                        | Some rl' \<Rightarrow> (verdict (rlim_cur rl'), os')))
             else (verdict (rlim_cur rl), os))"

definition get_system_resolvers ::
  "(string + SocketAddr list) \<Rightarrow> (IpAddr list \<Rightarrow> IpAddr list) \<Rightarrow> BlastDNSError + IpAddr list" where
  "get_system_resolvers system_conf hash_collect =
     (case system_conf of
        Inl e \<Rightarrow> Inl (Configuration (''Failed to read system DNS configuration: '' @ e))
      | Inr name_servers \<Rightarrow>
          let resolver_ips = hash_collect (map sa_ip name_servers)
          in if resolver_ips = [] then Inl (Configuration ''No system resolvers found'')
             else Inr resolver_ips)"

definition seg_nibbles :: "u16 \<Rightarrow> u16 list" where
  "seg_nibbles s = [take_bit 4 (drop_bit 12 s), take_bit 4 (drop_bit 8 s), take_bit 4 (drop_bit 4 s), take_bit 4 s]"

definition format_ptr_query :: "string \<Rightarrow> string" where
  "format_ptr_query host =
     (case IpAddr_from_str host of
        Some (V4 octets) \<Rightarrow>
          show_int 10 (uint (octets ! 3)) @ ''.'' @ show_int 10 (uint (octets ! 2)) @ ''.''
          @ show_int 10 (uint (octets ! 1)) @ ''.'' @ show_int 10 (uint (octets ! 0)) @ ''.in-addr.arpa''
      | Some (V6 segments) \<Rightarrow>
          join ''.'' (map (\<lambda>n. show_int 16 (uint n)) (rev (concat (map seg_nibbles segments)))) @ ''.ip6.arpa''
      | None \<Rightarrow> host)"

section \<open>The file-descriptor budget\<close>

text \<open>The contract of the two calls: what was set is what is read next.\<close>

locale nofile =
  fixes sys :: "'os rlimit_ops"
  assumes get_set: "setrlimit sys l os = Some os' \<Longrightarrow> getrlimit sys os' = Some l"
begin

lemma check_ulimits_sound:
  assumes "check_ulimits sys c r p os = (Inr (), os')"
  shows "\<exists>rl. getrlimit sys os' = Some rl \<and> required_fds c r p \<le> rlim_cur rl"
  using assms
  by (auto simp: check_ulimits_def Let_def get_set not_less split: option.splits if_splits)

end

text \<open>A process table with one limit, whose hard limit cannot be raised.\<close>

definition proc_sys :: "rlimit rlimit_ops" where
  "proc_sys =
     \<lparr>getrlimit = Some,
      setrlimit = (\<lambda>l cur. if rlim_max l \<le> rlim_max cur \<and> rlim_cur l \<le> rlim_max l then Some l else None)\<rparr>"

interpretation proc: nofile proc_sys
  by unfold_locales (auto simp: proc_sys_def split: if_splits)

lemma required_fds_exact:
  assumes "2 * unat c + unat r + 100 < 2 ^ 64"
  shows "unat (required_fds c r p) = (if p then unat r else unat c) + unat c + 100"
proof -
  let ?u = "if p then r else c"
  have "unat (?u + c) = unat ?u + unat c" using assms by (intro unat_add_no_wrap) auto
  moreover have "unat (?u + c + 100) = unat (?u + c) + unat (100 :: u64)"
    using assms calculation by (intro unat_add_no_wrap) auto
  ultimately show ?thesis by (simp add: required_fds_def Let_def)
qed

section \<open>System resolvers\<close>

text \<open>Collecting into a \<open>HashSet\<close> and back: every element once, in an unspecified order.\<close>

locale hash_set =
  fixes hash_collect :: "'a list \<Rightarrow> 'a list"
  assumes hash_set: "set (hash_collect xs) = set xs"
    and hash_distinct: "distinct (hash_collect xs)"
begin

lemma hash_empty [simp]: "hash_collect xs = [] \<longleftrightarrow> xs = []"
  by (metis hash_set set_empty)

end

interpretation dedup: hash_set remdups
  by unfold_locales simp_all

lemma get_system_resolvers_Inr:
  assumes "hash_set hc"
  shows "get_system_resolvers conf hc = Inr ips \<longleftrightarrow>
    (\<exists>ns. conf = Inr ns \<and> ns \<noteq> [] \<and> ips = hc (map sa_ip ns))"
proof -
  have "hc xs = [] \<longleftrightarrow> xs = []" for xs using assms by (rule hash_set.hash_empty)
  then show ?thesis by (auto simp: get_system_resolvers_def Let_def split: sum.splits)
qed

end
