(* ===== verification/Net_Roundtrip.thy ===== *)
theory Net_Roundtrip
  imports Utils
begin

text \<open>
  Printing an address and parsing it back gives the address, for every IP and socket address:
  the dotted quad, the IPv6 groups with their longest run of zeros left out, the IPv4-mapped form,
  scope and port. The lemmas follow the parser: a number is read back up to where it ends, then a
  run of octets or groups, then the address. What a parser returns is well formed.
\<close>

section \<open>Numbers round-trip\<close>

lemma to_digit_digit_char: "0 \<le> d \<Longrightarrow> d < radix \<Longrightarrow> radix \<le> 16 \<Longrightarrow> to_digit radix (digit_char d) = Some d"
proof -
  assume d: "0 \<le> d" "d < radix" "radix \<le> 16"
  then have "d = 0 \<or> d = 1 \<or> d = 2 \<or> d = 3 \<or> d = 4 \<or> d = 5 \<or> d = 6 \<or> d = 7 \<or> d = 8 \<or> d = 9 \<or> d = 10
    \<or> d = 11 \<or> d = 12 \<or> d = 13 \<or> d = 14 \<or> d = 15" by arith
  then show ?thesis using d(2) by (elim disjE) (simp_all add: to_digit_def digit_char_def Let_def)
qed

lemma digit_char_0: "digit_char 0 = CHR ''0''"
  by code_simp

text \<open>Input at which a number ends.\<close>

definition number_ends :: "int \<Rightarrow> string \<Rightarrow> bool" where
  "number_ends radix s \<longleftrightarrow> s = [] \<or> to_digit radix (hd s) = None"

lemma digits_max_end: "number_ends radix s \<Longrightarrow> digits_max radix m count acc s = Some ((acc, count), s)"
  by (cases s) (simp_all add: number_ends_def)

lemma digits_checked_end: "number_ends radix s \<Longrightarrow> digits_checked radix bound count acc s = Some ((acc, count), s)"
  by (cases s) (simp_all add: number_ends_def)

lemma show_int_not_Nil [simp]: "show_int radix n \<noteq> []"
  by (subst show_int.simps) simp

lemma digits_max_show:
  assumes "0 \<le> n" "2 \<le> radix" "radix \<le> 16" and "count + length (show_int radix n) \<le> m"
  shows "digits_max radix m count acc (show_int radix n @ rest)
    = digits_max radix m (count + length (show_int radix n)) (acc * radix ^ length (show_int radix n) + n) rest"
  using assms
proof (induction radix n arbitrary: rest rule: show_int.induct)
  case (1 radix n)
  show ?case
  proof (cases "n < radix")
    case True
    then have "show_int radix n = [digit_char n]" by (subst show_int.simps) simp
    then show ?thesis using 1 True by (simp add: to_digit_digit_char)
  next
    case False
    then have sh: "show_int radix n = show_int radix (n div radix) @ [digit_char (n mod radix)]"
      using "1.prems" by (subst show_int.simps) simp
    let ?l = "length (show_int radix (n div radix))"
    have "0 \<le> n div radix" "0 \<le> n mod radix" "n mod radix < radix" using "1.prems" by (simp_all add: pos_imp_zdiv_nonneg_iff)
    moreover have "(acc * radix ^ ?l + n div radix) * radix + n mod radix = acc * radix ^ Suc ?l + n"
      by (simp add: algebra_simps)
    ultimately show ?thesis
      using "1.IH" [of "digit_char (n mod radix) # rest"] "1.prems" False
      by (simp add: sh to_digit_digit_char)
  qed
qed

lemma digits_checked_show:
  assumes "0 \<le> n" "2 \<le> radix" "radix \<le> 16" and "0 \<le> acc" "acc * radix ^ length (show_int radix n) + n < bound"
  shows "digits_checked radix bound count acc (show_int radix n @ rest)
    = digits_checked radix bound (count + length (show_int radix n)) (acc * radix ^ length (show_int radix n) + n) rest"
  using assms
proof (induction radix n arbitrary: rest rule: show_int.induct)
  case (1 radix n)
  show ?case
  proof (cases "n < radix")
    case True
    then have "show_int radix n = [digit_char n]" by (subst show_int.simps) simp
    then show ?thesis using 1 True by (simp add: to_digit_digit_char)
  next
    case False
    then have sh: "show_int radix n = show_int radix (n div radix) @ [digit_char (n mod radix)]"
      using "1.prems" by (subst show_int.simps) simp
    let ?l = "length (show_int radix (n div radix))"
    have d: "0 \<le> n div radix" "0 \<le> n mod radix" "n mod radix < radix" using "1.prems" by (simp_all add: pos_imp_zdiv_nonneg_iff)
    have e: "(acc * radix ^ ?l + n div radix) * radix + n mod radix = acc * radix ^ Suc ?l + n"
      by (simp add: algebra_simps)
    define v where "v = acc * radix ^ ?l + n div radix"
    have "0 \<le> v" using d "1.prems" by (simp add: v_def)
    then have "v \<le> v * radix" using "1.prems" by (simp add: mult_le_cancel_left1)
    moreover have e': "v * radix + n mod radix = acc * radix ^ length (show_int radix n) + n" using e by (simp add: v_def sh)
    ultimately have b: "v < bound" "v * radix < bound" "v * radix + n mod radix < bound" using d "1.prems"(5) by linarith+
    have "digits_checked radix bound count acc (show_int radix (n div radix) @ digit_char (n mod radix) # rest)
        = digits_checked radix bound (count + ?l) v (digit_char (n mod radix) # rest)"
      unfolding v_def using "1.prems" False d b(1) by (intro "1.IH") (auto simp: v_def)
    also have "\<dots> = digits_checked radix bound (count + ?l + 1) (v * radix + n mod radix) rest"
      using b(2,3) to_digit_digit_char [OF d(2,3) "1.prems"(3)] unfolding digits_checked.simps not_le [symmetric] by simp
    finally show ?thesis unfolding e' [symmetric] by (simp add: sh)
  qed
qed

lemma show_int_leading:
  assumes "0 \<le> n" "2 \<le> radix" "radix \<le> 16" and "has_leading_zero (show_int radix n @ rest)"
  shows "n = 0"
  using assms
proof (induction radix n arbitrary: rest rule: show_int.induct)
  case (1 radix n)
  show ?case
  proof (cases "n < radix")
    case True
    then have "show_int radix n = [digit_char n]" by (subst show_int.simps) simp
    then have "digit_char n = digit_char 0" using "1.prems"(4) by (simp add: has_leading_zero_def digit_char_0)
    then show ?thesis using to_digit_digit_char [of n radix] to_digit_digit_char [of 0 radix] True "1.prems" by simp
  next
    case False
    then have "show_int radix n = show_int radix (n div radix) @ [digit_char (n mod radix)]"
      using "1.prems" by (subst show_int.simps) simp
    then have "n div radix = 0"
      using "1.IH" [of "digit_char (n mod radix) # rest"] "1.prems" False by (simp add: pos_imp_zdiv_nonneg_iff)
    then show ?thesis using False "1.prems" by (simp add: zdiv_eq_0_iff)
  qed
qed

lemma show_int_length:
  assumes "0 \<le> n" "2 \<le> radix" "n < radix ^ Suc k"
  shows "length (show_int radix n) \<le> Suc k"
  using assms
proof (induction k arbitrary: n)
  case 0
  then show ?case by (subst show_int.simps) simp
next
  case (Suc k)
  show ?case
  proof (cases "n < radix")
    case True
    then show ?thesis by (subst show_int.simps) simp
  next
    case False
    have "n div radix < radix ^ Suc k" 
    proof (rule ccontr)
      assume "\<not> n div radix < radix ^ Suc k"
      then have "radix ^ Suc k * radix \<le> n div radix * radix" using Suc.prems by (intro mult_right_mono) auto
      also have "\<dots> \<le> n" using div_mult_mod_eq [of n radix] pos_mod_sign [of radix n] Suc.prems by linarith
      finally show False using Suc.prems by (simp add: mult.commute)
    qed
    then have "length (show_int radix (n div radix)) \<le> Suc k" using Suc by (simp add: pos_imp_zdiv_nonneg_iff)
    then show ?thesis using False Suc.prems by (subst show_int.simps) simp
  qed
qed

lemma read_number_show_max:
  assumes "0 \<le> n" "n < bound" "2 \<le> radix" "radix \<le> 16" "length (show_int radix n) \<le> m" "number_ends radix rest"
  shows "read_number radix (Some m) zeros bound (show_int radix n @ rest) = Some (n, rest)"
proof -
  have "\<not> (has_leading_zero (show_int radix n @ rest) \<and> 1 < length (show_int radix n))"
  proof
    assume a: "has_leading_zero (show_int radix n @ rest) \<and> 1 < length (show_int radix n)"
    then have "n = 0" using show_int_leading assms by blast
    then have "length (show_int radix n) = 1" using assms by (subst show_int.simps) simp
    then show False using a by simp
  qed
  then show ?thesis
    using digits_max_show [OF assms(1,3,4), of 0 m 0 rest] digits_max_end [OF assms(6)] assms
    by (auto simp: read_number_def)
qed

lemma read_number_show_checked:
  assumes "0 \<le> n" "n < bound" "2 \<le> radix" "radix \<le> 16" "number_ends radix rest"
  shows "read_number radix None True bound (show_int radix n @ rest) = Some (n, rest)"
  using digits_checked_show [OF assms(1,3,4), of 0 bound 0 rest] digits_checked_end [OF assms(5)] assms
  by (auto simp: read_number_def)

section \<open>IPv4 addresses round-trip\<close>

lemma uint_less_exp: "uint (w :: 'a::len word) < 2 ^ LENGTH('a)" by simp

lemma read_octet_show:
  assumes "number_ends 10 rest"
  shows "read_number 10 (Some 3) False 256 (show_int 10 (uint (x :: u8)) @ rest) = Some (uint x, rest)"
proof -
  have "uint x < 256" using uint_less_exp [of x] by simp
  then show ?thesis using assms show_int_length [of "uint x" 10 2] by (intro read_number_show_max) auto
qed

lemma join_Cons: "join sep (x # xs) = x @ concat (map ((@) sep) xs)"
  by (induction xs arbitrary: x) simp_all

lemma number_ends_dot: "number_ends 10 (CHR ''.'' # s)" "number_ends 10 (CHR '':'' # s)" "number_ends 10 []"
  by (simp_all add: number_ends_def to_digit_def Let_def)

lemma read_octets_show:
  assumes "number_ends 10 rest"
  shows "read_octets (Suc i) (length os) (concat (map (\<lambda>x. ''.'' @ show_int 10 (uint x)) os) @ rest) = Some (os, rest)"
proof (induction os arbitrary: i)
  case (Cons x os)
  let ?t = "concat (map (\<lambda>x. ''.'' @ show_int 10 (uint x)) os) @ rest"
  have "number_ends 10 ?t" using assms number_ends_dot by (cases os) simp_all
  from read_octet_show [OF this, of x] show ?case
    using Cons.IH [of "Suc i"] by (simp add: read_separator_def)
qed simp

lemma read_ipv4_show:
  assumes "length os = 4" and "number_ends 10 rest"
  shows "read_ipv4_addr (show_ipv4 os @ rest) = Some (os, rest)"
proof (cases os)
  case (Cons x xs)
  let ?t = "concat (map (\<lambda>x. ''.'' @ show_int 10 (uint x)) xs) @ rest"
  have "number_ends 10 ?t" using assms number_ends_dot by (cases xs) simp_all
  from read_octet_show [OF this, of x] read_octets_show [OF assms(2), of 0 xs] show ?thesis
    using assms(1) Cons
    by (simp add: read_ipv4_addr_def show_ipv4_def join_Cons read_separator_def o_def numeral_eq_Suc)
qed (use assms in simp)

lemma read_port_show: "read_port (CHR '':'' # show_int 10 (uint (p :: u16))) = Some (uint p, [])"
  using read_number_show_checked [of "uint p" 65536 10 "[]"] number_ends_dot uint_less_exp [of p]
  by (simp add: read_port_def)

section \<open>IPv6 addresses round-trip\<close>

text \<open>Where there is no dot there is no dotted quad.\<close>

lemma read_number_suffix: "read_number radix m z bound s = Some (n, t) \<Longrightarrow> set t \<subseteq> set s"
proof -
  have "digits_max radix k c a s = Some (x, t) \<Longrightarrow> set t \<subseteq> set s" for k c a x
    by (induction radix k c a s rule: digits_max.induct) (auto split: option.splits if_splits)
  moreover have "digits_checked radix b c a s = Some (x, t) \<Longrightarrow> set t \<subseteq> set s" for b c a x
    by (induction radix b c a s rule: digits_checked.induct) (auto split: option.splits if_splits)
  moreover assume "read_number radix m z bound s = Some (n, t)"
  ultimately show ?thesis by (auto simp: read_number_def split: option.splits prod.splits if_splits)
qed

lemma read_ipv4_no_dot:
  assumes "CHR ''.'' \<notin> set s"
  shows "read_ipv4_addr s = None"
proof (cases "read_number 10 (Some 3) False 256 s")
  case (Some r)
  then obtain n t where r: "read_number 10 (Some 3) False 256 s = Some (n, t)" by (cases r) auto
  have "CHR ''.'' \<notin> set t" using read_number_suffix [OF r] assms by auto
  then have "read_given_char (CHR ''.'') t = None" by (cases t) auto
  then show ?thesis using r by (simp add: read_ipv4_addr_def numeral_eq_Suc read_separator_def)
qed (simp add: read_ipv4_addr_def numeral_eq_Suc read_separator_def)

lemma read_group_show:
  assumes "number_ends 16 rest"
  shows "read_number 16 (Some 4) True 65536 (show_int 16 (uint (g :: u16)) @ rest) = Some (uint g, rest)"
proof -
  have "uint g < 65536" using uint_less_exp [of g] by simp
  then show ?thesis using assms show_int_length [of "uint g" 16 3] by (intro read_number_show_max) auto
qed

abbreviation groups_text :: "u16 list \<Rightarrow> string" where
  "groups_text gs \<equiv> concat (map (\<lambda>g. '':'' @ show_int 16 (uint g)) gs)"

lemma show_groups_Cons: "show_groups (g # gs) = show_int 16 (uint g) @ groups_text gs"
  by (simp add: show_groups_def join_Cons o_def)

text \<open>Input at which a run of groups ends.\<close>

definition groups_end :: "string \<Rightarrow> bool" where
  "groups_end s \<longleftrightarrow> number_ends 16 s \<and> CHR ''.'' \<notin> set s
     \<and> (case s of c # t \<Rightarrow> c \<noteq> CHR '':'' \<or> read_number 16 (Some 4) True 65536 t = None | [] \<Rightarrow> True)"

lemma read_ipv4_after_colon:
  "CHR ''.'' \<notin> set s \<Longrightarrow> read_separator (CHR '':'') i read_ipv4_addr s = None"
  by (cases s) (auto simp: read_separator_def read_ipv4_no_dot)

lemma show_hex_no_dot:
  assumes "0 \<le> n"
  shows "CHR ''.'' \<notin> set (show_int 16 n)"
  using assms
proof (induction "16 :: int" n rule: show_int.induct)
  case (1 n)
  have "digit_char d \<noteq> CHR ''.''" if "0 \<le> d" "d < 16" for d
    using to_digit_digit_char [OF that, of] by (auto simp: to_digit_def Let_def)
  from this [of n] this [of "n mod 16"] show ?case
    using 1 by (subst show_int.simps) (auto simp: pos_imp_zdiv_nonneg_iff)
qed

lemma groups_text_no_dot: "CHR ''.'' \<notin> set (groups_text gs)"
  using show_hex_no_dot [of "uint g" for g] by (induction gs) auto

lemma groups_text_ends: "number_ends 16 rest \<Longrightarrow> number_ends 16 (groups_text gs @ rest)"
  by (cases gs) (simp_all add: number_ends_def to_digit_def Let_def)

lemma read_groups_show_Suc:
  assumes "groups_end rest" and "length gs \<le> n"
  shows "read_groups (Suc i) n (groups_text gs @ rest) = (gs, False, rest)"
  using assms(2)
proof (induction gs arbitrary: i n)
  case Nil
  have "CHR ''.'' \<notin> set rest" using assms(1) by (simp add: groups_end_def)
  moreover have "read_separator (CHR '':'') (Suc i) (read_number 16 (Some 4) True 65536) rest = None"
    using assms(1) by (cases rest) (auto simp: groups_end_def read_separator_def)
  ultimately show ?case by (cases n) (simp_all add: read_ipv4_after_colon)
next
  case (Cons g gs)
  then obtain m where n: "n = Suc m" "length gs \<le> m" by (cases n) auto
  have "CHR ''.'' \<notin> set (groups_text (g # gs) @ rest)" using groups_text_no_dot [of "g # gs"] assms(1) by (auto simp: groups_end_def)
  then have v4: "read_separator (CHR '':'') (Suc i) read_ipv4_addr (groups_text (g # gs) @ rest) = None"
    by (rule read_ipv4_after_colon)
  have "number_ends 16 (groups_text gs @ rest)" using assms(1) by (intro groups_text_ends) (simp add: groups_end_def)
  then have "read_separator (CHR '':'') (Suc i) (read_number 16 (Some 4) True 65536) (groups_text (g # gs) @ rest)
      = Some (uint g, groups_text gs @ rest)" by (simp add: read_separator_def read_group_show)
  then show ?case using v4 Cons.IH [OF n(2), of "Suc i"] n(2) by (auto simp: n(1))
qed

lemma read_groups_show:
  assumes "groups_end rest" and "length gs \<le> n" and "gs = [] \<Longrightarrow> read_number 16 (Some 4) True 65536 rest = None"
  shows "read_groups 0 n (show_groups gs @ rest) = (gs, False, rest)"
proof (cases gs)
  case Nil
  then show ?thesis using assms
    by (cases n) (simp_all add: show_groups_def read_ipv4_after_colon groups_end_def, simp add: read_separator_def)
next
  case (Cons g hs)
  then obtain m where n: "n = Suc m" "length hs \<le> m" using assms(2) by (cases n) auto
  have "CHR ''.'' \<notin> set (show_groups gs @ rest)"
    using groups_text_no_dot [of hs] show_hex_no_dot [of "uint g"] assms(1) by (auto simp: Cons show_groups_Cons groups_end_def)
  then have v4: "read_separator (CHR '':'') 0 read_ipv4_addr (show_groups gs @ rest) = None"
    by (simp add: read_separator_def read_ipv4_no_dot)
  have "number_ends 16 (groups_text hs @ rest)" using assms(1) by (intro groups_text_ends) (simp add: groups_end_def)
  then have "read_separator (CHR '':'') 0 (read_number 16 (Some 4) True 65536) (show_groups gs @ rest)
      = Some (uint g, groups_text hs @ rest)" by (simp add: read_separator_def read_group_show Cons show_groups_Cons)
  then show ?thesis using v4 read_groups_show_Suc [OF assms(1) n(2), of 0] n(2) by (auto simp: n(1) Cons)
qed

text \<open>The run that is left out consists of zeros.\<close>

definition zero_run :: "u16 list \<Rightarrow> nat \<times> nat \<Rightarrow> bool" where
  "zero_run ss r \<longleftrightarrow> fst r + snd r \<le> length ss \<and> (\<forall>k. fst r \<le> k \<and> k < fst r + snd r \<longrightarrow> ss ! k = 0)"

lemma zero_run_append: "zero_run ss r \<Longrightarrow> zero_run (ss @ ts) r"
  by (auto simp: zero_run_def nth_append)

lemma zero_span_run:
  assumes "zero_run ss longest" and "zero_run ss current" and "snd current \<noteq> 0 \<Longrightarrow> fst current + snd current = length ss"
  shows "zero_run (ss @ gs) (zero_span (length ss) longest current gs)"
  using assms
proof (induction gs arbitrary: ss longest current)
  case (Cons g gs)
  define cur where "cur = (if snd current = 0 then length ss else fst current, snd current + 1)"
  define best where "best = (if snd longest < snd cur then cur else longest)"
  show ?case
  proof (cases "g = 0")
    case True
    have cur: "zero_run (ss @ [g]) cur" "fst cur + snd cur = length (ss @ [g])"
      using Cons.prems(2,3) True by (auto simp: cur_def zero_run_def nth_append)
    moreover have "zero_run (ss @ [g]) best" using cur(1) zero_run_append [OF Cons.prems(1)] by (simp add: best_def)
    moreover have "zero_span (length ss) longest current (g # gs) = zero_span (length (ss @ [g])) best cur gs"
      using True by (simp add: cur_def best_def Let_def)
    ultimately show ?thesis using Cons.IH [of "ss @ [g]" best cur] by simp
  next
    case False
    have "zero_run (ss @ [g]) (0, 0)" by (simp add: zero_run_def)
    then show ?thesis
      using Cons.IH [of "ss @ [g]" longest "(0, 0)"] zero_run_append [OF Cons.prems(1), of "[g]"] False by simp
  qed
qed (simp add: zero_run_append)

lemma zero_run_split:
  assumes "zero_run ss (st, len)"
  shows "take st ss @ replicate len 0 @ drop (st + len) ss = ss"
proof -
  have "take len (drop st ss) = replicate len 0"
    using assms by (intro nth_equalityI) (auto simp: zero_run_def)
  then show ?thesis by (metis append_take_drop_id drop_drop add.commute)
qed

text \<open>The mapped form ends in a dotted quad.\<close>

definition octets_of :: "u16 \<Rightarrow> u8 list" where
  "octets_of g = [of_int (uint g div 256), of_int (uint g mod 256)]"

lemma uint_octets:
  "uint (of_int (uint (g :: u16) div 256) :: u8) = uint g div 256" "uint (of_int (uint (g :: u16) mod 256) :: u8) = uint g mod 256"
proof -
  have "uint g < 65536" using uint_less_exp [of g] by simp
  then have "uint g div 256 < 256" by presburger
  moreover have "0 \<le> uint g div 256" by (simp add: pos_imp_zdiv_nonneg_iff)
  ultimately show "uint (of_int (uint g div 256) :: u8) = uint g div 256"
    by (simp only: uint_word_of_int_eq) (simp add: take_bit_int_eq_self)
  show "uint (of_int (uint g mod 256) :: u8) = uint g mod 256"
    by (simp only: uint_word_of_int_eq) (simp add: take_bit_int_eq_self)
qed

lemma u16_be_octets: "u16_be (of_int (uint g div 256)) (of_int (uint g mod 256)) = g"
  by (simp add: u16_be_def uint_octets mult.commute)

lemma groups_end_cases:
  assumes "CHR ''.'' \<notin> set s" and "s = [] \<or> (\<exists>c t. s = c # t \<and> c \<in> {CHR '']'', CHR ''%''})"
  shows "groups_end s" and "read_number 16 (Some 4) True 65536 s = None" and "number_ends 10 s"
  using assms
  by (auto simp: groups_end_def number_ends_def to_digit_def Let_def read_number_def)

lemma groups_end_colons: "CHR ''.'' \<notin> set s \<Longrightarrow> groups_end (CHR '':'' # CHR '':'' # s)"
  by (simp add: groups_end_def number_ends_def to_digit_def Let_def read_number_def)

lemma read_number_colon: "read_number 16 (Some 4) True 65536 (CHR '':'' # s) = None" "read_ipv4_addr (CHR '':'' # s) = None"
  by (simp_all add: read_number_def to_digit_def Let_def read_ipv4_addr_def numeral_eq_Suc read_separator_def)

lemma read_groups_none:
  "read_number 16 (Some 4) True 65536 s = None \<Longrightarrow> read_ipv4_addr s = None \<Longrightarrow> read_groups 0 (Suc n) s = ([], False, s)"
  by (simp add: read_separator_def)

lemma read_groups_quad:
  "read_ipv4_addr s = Some (os, t) \<Longrightarrow> 0 < n \<Longrightarrow> read_groups (Suc i) (Suc n) (CHR '':'' # s) = (octet_groups os, True, t)"
  by (simp add: read_separator_def)

lemma read_groups_first:
  "read_ipv4_addr s = None \<Longrightarrow> read_number 16 (Some 4) True 65536 s = Some (g, t) \<Longrightarrow> read_groups (Suc 0) n t = (gs, v4, u)
     \<Longrightarrow> read_groups 0 (Suc n) s = (of_int g # gs, v4, u)"
  by (cases n) (simp_all add: read_separator_def)

lemma read_mapped:
  assumes "number_ends 10 rest"
  shows "read_ipv6_addr (''::ffff:'' @ show_ipv4 (octets_of g @ octets_of h) @ rest) = Some ([0, 0, 0, 0, 0, 0xffff, g, h], rest)"
proof -
  let ?v4 = "show_ipv4 (octets_of g @ octets_of h) @ rest"
  have head: "read_groups 0 8 (''::ffff:'' @ ?v4) = ([], False, ''::ffff:'' @ ?v4)"
    using read_groups_none [where n = 7, OF read_number_colon, of "'':ffff:'' @ ?v4"] by simp
  have "read_ipv4_addr ?v4 = Some (octets_of g @ octets_of h, rest)"
    by (rule read_ipv4_show) (simp_all add: octets_of_def assms)
  from read_groups_quad [OF this, of 5 0]
  have v4: "read_groups (Suc 0) 6 (CHR '':'' # ?v4) = ([g, h], True, rest)" by (simp add: octets_of_def u16_be_octets)
  have ff: "''ffff'' = show_int 16 (uint (0xffff :: u16))" by code_simp
  have "number_ends 16 (CHR '':'' # ?v4)" by (simp add: number_ends_def to_digit_def Let_def)
  from read_group_show [OF this, of "0xffff", folded ff]
  have n: "read_number 16 (Some 4) True 65536 (''ffff:'' @ ?v4) = Some (0xffff, CHR '':'' # ?v4)" by simp
  have "read_number 10 (Some 3) False 256 (''ffff:'' @ ?v4) = None"
    by (simp add: read_number_def to_digit_def Let_def)
  then have "read_ipv4_addr (''ffff:'' @ ?v4) = None"
    unfolding read_ipv4_addr_def by (simp only: numeral_eq_Suc read_octets.simps read_separator_def) simp
  from read_groups_first [OF this n v4] have tail: "read_groups 0 7 (''ffff:'' @ ?v4) = ([0xffff, g, h], True, rest)" by simp
  have "replicate 5 (0 :: u16) = [0, 0, 0, 0, 0]" by (simp add: numeral_eq_Suc)
  then show ?thesis using head tail by (simp add: read_ipv6_addr_def)
qed

lemma show_mapped: "take 6 ss = [0, 0, 0, 0, 0, 0xffff] \<Longrightarrow> length ss = 8 \<Longrightarrow>
    show_ipv6 ss = ''::ffff:'' @ show_ipv4 (octets_of (ss ! 6) @ octets_of (ss ! 7)) \<and> ss = [0, 0, 0, 0, 0, 0xffff, ss ! 6, ss ! 7]"
proof -
  assume a: "take 6 ss = [0, 0, 0, 0, 0, 0xffff]" "length ss = 8"
  have "drop 6 ss = [ss ! 6, ss ! 7]" 
    using a(2) by (simp add: Cons_nth_drop_Suc [symmetric])
  then show ?thesis using a(1) append_take_drop_id [of 6 ss]
    by (simp add: show_ipv6_def show_ipv4_def octets_of_def uint_octets)
qed

lemma show_groups_no_dot: "CHR ''.'' \<notin> set (show_groups gs)"
proof (cases gs)
  case Nil
  then show ?thesis by (simp add: show_groups_def)
next
  case (Cons g hs)
  then show ?thesis using groups_text_no_dot [of hs] show_hex_no_dot [of "uint g"] by (simp add: show_groups_Cons)
qed

lemma read_compressed:
  assumes "length hs + length ts \<le> 6" and "groups_end rest" and "read_number 16 (Some 4) True 65536 rest = None"
  shows "read_ipv6_addr (show_groups hs @ ''::'' @ show_groups ts @ rest)
    = Some (hs @ replicate (8 - length hs - length ts) 0 @ ts, rest)"
proof -
  have nd: "CHR ''.'' \<notin> set (show_groups ts @ rest)" using assms(2) by (simp add: show_groups_no_dot groups_end_def)
  have "read_groups 0 8 (show_groups hs @ ''::'' @ show_groups ts @ rest) = (hs, False, ''::'' @ show_groups ts @ rest)"
    using groups_end_colons [OF nd] assms(1) read_number_colon by (intro read_groups_show) simp_all
  moreover have "read_groups 0 (8 - (length hs + 1)) (show_groups ts @ rest) = (ts, False, rest)"
    using assms by (intro read_groups_show) simp_all
  ultimately show ?thesis using assms(1) by (simp add: read_ipv6_addr_def)
qed

lemma read_ipv6_show:
  assumes "length ss = 8" and "CHR ''.'' \<notin> set rest" and "rest = [] \<or> (\<exists>c t. rest = c # t \<and> c \<in> {CHR '']'', CHR ''%''})"
  shows "read_ipv6_addr (show_ipv6 ss @ rest) = Some (ss, rest)"
proof (cases "take 6 ss = [0, 0, 0, 0, 0, 0xffff]")
  case True
  from show_mapped [OF True assms(1)] show ?thesis
    using read_mapped [OF groups_end_cases(3) [OF assms(2,3)], of "ss ! 6" "ss ! 7"] by (metis append_assoc)
next
  case False
  obtain st len where z: "zero_span 0 (0, 0) (0, 0) ss = (st, len)" by force
  have run: "zero_run ss (st, len)" using zero_span_run [of "[]" "(0, 0)" "(0, 0)" ss] z by (simp add: zero_run_def)
  note ends = groups_end_cases [OF assms(2,3)]
  show ?thesis
  proof (cases "1 < len")
    case True
    have le: "st + len \<le> 8" using run assms(1) by (simp add: zero_run_def)
    have "length (take st ss) + length (drop (st + len) ss) \<le> 6" using le True assms(1) by simp
    from read_compressed [OF this ends(1,2)] zero_run_split [OF run] show ?thesis
      using False True z le assms(1) by (simp add: show_ipv6_def)
  next
    case False
    have "show_ipv6 ss = show_groups ss" using \<open>take 6 ss \<noteq> [0, 0, 0, 0, 0, 0xffff]\<close> False z by (simp add: show_ipv6_def)
    moreover have "ss \<noteq> []" using assms(1) by auto
    ultimately show ?thesis using read_groups_show [OF ends(1), of ss 8] assms(1) by (simp add: read_ipv6_addr_def)
  qed
qed

section \<open>Socket addresses round-trip\<close>

definition sa_wf :: "SocketAddr \<Rightarrow> bool" where
  "sa_wf a \<longleftrightarrow> ip_wf (sa_ip a) \<and> (case sa_ip a of V4 _ \<Rightarrow> sa_scope a = 0 | V6 _ \<Rightarrow> True)"

lemma show_dec_no_dot:
  assumes "0 \<le> n"
  shows "set (show_int 10 n) \<subseteq> {c. to_digit 10 c \<noteq> None}"
  using assms
proof (induction "10 :: int" n rule: show_int.induct)
  case (1 n)
  from 1 show ?case
    using to_digit_digit_char [of n 10] to_digit_digit_char [of "n mod 10" 10]
    by (subst show_int.simps) (auto simp: pos_imp_zdiv_nonneg_iff)
qed

lemma read_scope_show:
  "read_scope_id (CHR ''%'' # show_int 10 (uint (sc :: u32)) @ CHR '']'' # s) = Some (uint sc, CHR '']'' # s)"
  "read_scope_id (CHR '']'' # s) = None"
proof -
  have "number_ends 10 (CHR '']'' # s)" by (simp add: number_ends_def to_digit_def Let_def)
  with read_number_show_checked [of "uint sc" "2 ^ 32" 10 "CHR '']'' # s"] uint_less_exp [of sc]
  show "read_scope_id (CHR ''%'' # show_int 10 (uint sc) @ CHR '']'' # s) = Some (uint sc, CHR '']'' # s)"
    by (simp add: read_scope_id_def)
qed (simp add: read_scope_id_def)

lemma read_socket_v6_show:
  assumes "length ss = 8"
  shows "read_socket_addr_v6 (show_socket_addr \<lparr>sa_ip = V6 ss, sa_port = p, sa_scope = sc\<rparr>)
    = Some (\<lparr>sa_ip = V6 ss, sa_port = p, sa_scope = sc\<rparr>, [])"
proof -
  let ?port = "CHR '':'' # show_int 10 (uint p)"
  let ?scope = "if sc = 0 then [] else ''%'' @ show_int 10 (uint sc)"
  let ?rest = "?scope @ '']'' @ ?port"
  have "CHR ''.'' \<notin> set (show_int 10 n)" if "0 \<le> n" for n
    using show_dec_no_dot [OF that] by (auto simp: to_digit_def Let_def)
  then have nd: "CHR ''.'' \<notin> set ?rest" by simp
  have "read_ipv6_addr (show_ipv6 ss @ ?rest) = Some (ss, ?rest)"
    by (rule read_ipv6_show [OF assms nd]) auto
  then show ?thesis
    using read_port_show [of p]
    by (cases "sc = 0") (simp_all add: read_socket_addr_v6_def show_socket_addr_def read_scope_show)
qed

lemma socket_addr_roundtrip:
  assumes "sa_wf a"
  shows "SocketAddr_from_str (show_socket_addr a) = Some a"
proof (cases "sa_ip a")
  case (V4 os)
  then have a: "a = \<lparr>sa_ip = V4 os, sa_port = sa_port a, sa_scope = 0\<rparr>" "length os = 4"
    using assms by (cases a; simp add: sa_wf_def)+
  have "show_socket_addr a = show_ipv4 os @ CHR '':'' # show_int 10 (uint (sa_port a))" by (simp add: show_socket_addr_def V4)
  then have "read_socket_addr_v4 (show_socket_addr a) = Some (a, [])"
    using read_ipv4_show [OF a(2) number_ends_dot(2), of "show_int 10 (uint (sa_port a))"] read_port_show [of "sa_port a"] a(1)
    by (simp add: read_socket_addr_v4_def)
  then show ?thesis by (simp add: SocketAddr_from_str_def parse_with_def read_socket_addr_def)
next
  case (V6 ss)
  then have a: "a = \<lparr>sa_ip = V6 ss, sa_port = sa_port a, sa_scope = sa_scope a\<rparr>" "length ss = 8"
    using assms by (cases a; simp add: sa_wf_def)+
  have "read_ipv4_addr (show_socket_addr a) = None"
    by (simp add: show_socket_addr_def V6 read_ipv4_addr_def numeral_eq_Suc read_separator_def read_number_def to_digit_def Let_def)
  then show ?thesis using read_socket_v6_show [OF a(2), of "sa_port a" "sa_scope a"] a(1)
    by (simp add: SocketAddr_from_str_def parse_with_def read_socket_addr_def read_socket_addr_v4_def)
qed

lemma ip_roundtrip:
  assumes "ip_wf ip"
  shows "IpAddr_from_str (show_ip ip) = Some ip"
proof (cases ip)
  case (V4 os)
  then show ?thesis using read_ipv4_show [of os "[]"] number_ends_dot assms
    by (simp add: IpAddr_from_str_def parse_with_def read_ip_addr_def)
next
  case (V6 ss)
  then have v6: "read_ipv6_addr (show_ipv6 ss) = Some (ss, [])" using read_ipv6_show [of ss "[]"] assms by simp
  moreover have "read_ipv4_addr (show_ipv6 ss) = None"
  proof (cases "take 6 ss = [0, 0, 0, 0, 0, 0xffff]")
    case True
    then show ?thesis by (simp add: show_ipv6_def read_number_colon)
  next
    case False
    then show ?thesis
      by (intro read_ipv4_no_dot) (auto simp: show_ipv6_def show_groups_no_dot split: prod.splits)
  qed
  ultimately show ?thesis using V6 by (simp add: IpAddr_from_str_def parse_with_def read_ip_addr_def)
qed

section \<open>What parsing returns is well formed\<close>

lemma read_octets_length: "read_octets i n s = Some (os, t) \<Longrightarrow> length os = n"
  by (induction i n s arbitrary: os t rule: read_octets.induct) (auto split: option.splits)

lemma read_groups_length: "read_groups i n s = (gs, v4, t) \<Longrightarrow> length gs \<le> n"
proof (induction i n s arbitrary: gs v4 t rule: read_groups.induct)
  case (2 i n s)
  show ?case
  proof (cases "if 0 < n then read_separator (CHR '':'') i read_ipv4_addr s else None")
    case None
    then show ?thesis using 2 by (auto split: option.splits prod.splits)
  next
    case (Some r)
    then obtain os u where r: "r = (os, u)" "0 < n" "read_separator (CHR '':'') i read_ipv4_addr s = Some (os, u)"
      by (cases r) (auto split: if_splits)
    then have "length os = 4"
      by (auto simp: read_separator_def read_ipv4_addr_def dest!: read_octets_length split: if_splits option.splits)
    then obtain a b c d where "os = [a, b, c, d]" by (auto simp: length_Suc_conv numeral_eq_Suc)
    then show ?thesis using "2.prems" r by auto
  qed
qed simp

lemma read_ipv6_length: "read_ipv6_addr s = Some (ss, t) \<Longrightarrow> length ss = 8"
  by (auto simp: read_ipv6_addr_def dest!: read_groups_length split: prod.splits if_splits option.splits)

lemma SocketAddr_from_str_wf: "SocketAddr_from_str s = Some a \<Longrightarrow> sa_wf a"
  by (auto simp: SocketAddr_from_str_def parse_with_def read_socket_addr_def read_socket_addr_v4_def read_socket_addr_v6_def
      read_ipv4_addr_def sa_wf_def dest!: read_octets_length read_ipv6_length split: option.splits list.splits prod.splits)

lemma IpAddr_from_str_wf: "IpAddr_from_str s = Some ip \<Longrightarrow> ip_wf ip"
  by (auto simp: IpAddr_from_str_def parse_with_def read_ip_addr_def read_ipv4_addr_def
      dest!: read_octets_length read_ipv6_length split: option.splits list.splits prod.splits)

lemma parse_resolver_wf: "parse_resolver s = Inr a \<Longrightarrow> sa_wf a"
  by (auto simp: parse_resolver_def Let_def sa_wf_def SocketAddr_new_def dest: SocketAddr_from_str_wf IpAddr_from_str_wf
      split: option.splits IpAddr.splits)

lemma parse_resolver_show: "sa_wf a \<Longrightarrow> parse_resolver (show_socket_addr a) = Inr a"
  by (simp add: parse_resolver_def socket_addr_roundtrip)

section \<open>Properties\<close>

text \<open>
  C34. Resolver addresses survive being printed: whatever text an address was parsed from, the
  client's rendering of it parses to the same address, for IPv4 and IPv6, any port and any scope.
\<close>

theorem parse_resolver_roundtrip:
  assumes "parse_resolver s = Inr a"
  shows "parse_resolver (show_socket_addr a) = Inr a"
  by (rule parse_resolver_show [OF parse_resolver_wf [OF assms]])

theorem parse_resolver_roundtrip_witness:
  "parse_resolver (show_socket_addr (SocketAddr_new (V6 [0x2001, 0xdb8, 0, 0, 0, 0, 0, 1]) 53))
     = Inr (SocketAddr_new (V6 [0x2001, 0xdb8, 0, 0, 0, 0, 0, 1]) 53)"
proof -
  have "parse_resolver ''[2001:db8::1]'' = Inr (SocketAddr_new (V6 [0x2001, 0xdb8, 0, 0, 0, 0, 0, 1]) 53)" by code_simp
  then show ?thesis by (rule parse_resolver_roundtrip)
qed

end
