(* ===== verification/Ptr.thy ===== *)
theory Ptr
  imports Net_Roundtrip
begin

text \<open>
  Reverse names (\<open>format_ptr_query\<close> of \<open>src/utils.rs\<close>). The name made from an address is not itself
  an address, so formatting twice is formatting once, which callers that format and implementations
  that format again rely on; and the name determines the address.
\<close>

section \<open>A reverse name is not an address\<close>

text \<open>No part of the address parser reads past the letter \<open>r\<close>, which every reverse name contains.\<close>

abbreviation letter_r :: char where "letter_r \<equiv> CHR ''r''"

lemma to_digit_r [simp]: "radix \<le> 16 \<Longrightarrow> to_digit radix letter_r = None"
  by (simp add: to_digit_def Let_def)

lemma digits_max_keeps_r:
  "digits_max radix m count acc s = Some (x, t) \<Longrightarrow> radix \<le> 16 \<Longrightarrow> letter_r \<in> set s \<Longrightarrow> letter_r \<in> set t"
  by (induction radix m count acc s rule: digits_max.induct) (auto split: option.splits if_splits)

lemma read_number_keeps_r:
  "read_number radix (Some m) z bound s = Some (x, t) \<Longrightarrow> radix \<le> 16 \<Longrightarrow> letter_r \<in> set s \<Longrightarrow> letter_r \<in> set t"
  by (auto simp: read_number_def dest: digits_max_keeps_r split: option.splits prod.splits if_splits)

lemma read_given_char_keeps_r:
  "read_given_char c s = Some (x, t) \<Longrightarrow> c \<noteq> letter_r \<Longrightarrow> letter_r \<in> set s \<Longrightarrow> letter_r \<in> set t"
  by (cases s) (auto split: if_splits)

lemma read_separator_keeps_r:
  assumes "read_separator c i p s = Some (x, t)" and "c \<noteq> letter_r" and "letter_r \<in> set s"
    and "\<And>u. p u = Some (x, t) \<Longrightarrow> letter_r \<in> set u \<Longrightarrow> letter_r \<in> set t"
  shows "letter_r \<in> set t"
  using assms by (auto simp: read_separator_def dest: read_given_char_keeps_r split: if_splits option.splits)

lemma read_octets_keeps_r: "read_octets i n s = Some (os, t) \<Longrightarrow> letter_r \<in> set s \<Longrightarrow> letter_r \<in> set t"
proof (induction i n s arbitrary: os t rule: read_octets.induct)
  case (2 i n s)
  then obtain x u xs where u: "read_separator (CHR ''.'') i (read_number 10 (Some 3) False 256) s = Some (x, u)"
    "read_octets (Suc i) n u = Some (xs, t)" by (auto split: option.splits)
  have "letter_r \<in> set u"
    by (rule read_separator_keeps_r [OF u(1) _ "2.prems"(2)]) (auto dest: read_number_keeps_r)
  then show ?case using "2.IH" [OF u(1) refl u(2)] by simp
qed simp

lemma read_groups_keeps_r: "read_groups i n s = (gs, v4, t) \<Longrightarrow> letter_r \<in> set s \<Longrightarrow> letter_r \<in> set t"
proof (induction i n s arbitrary: gs v4 t rule: read_groups.induct)
  case (2 i n s)
  let ?q = "if 0 < n then read_separator (CHR '':'') i read_ipv4_addr s else None"
  let ?g = "read_separator (CHR '':'') i (read_number 16 (Some 4) True 65536) s"
  show ?case
  proof (cases ?q)
    case (Some r)
    then have q: "read_separator (CHR '':'') i read_ipv4_addr s = Some (fst r, t)"
      using "2.prems"(1) by (cases r) (auto split: if_splits)
    show ?thesis
      by (rule read_separator_keeps_r [OF q _ "2.prems"(2)]) (auto simp: read_ipv4_addr_def dest: read_octets_keeps_r)
  next
    case q: None
    show ?thesis
    proof (cases ?g)
      case None
      then show ?thesis using q 2 by (auto split: if_splits)
    next
      case (Some r)
      then obtain g u where u: "?g = Some (g, u)" by (cases r) auto
      have "letter_r \<in> set u"
        by (rule read_separator_keeps_r [OF u _ "2.prems"(2)]) (auto dest: read_number_keeps_r)
      moreover obtain hs b where "read_groups (Suc i) n u = (hs, b, t)"
        using q u "2.prems"(1) by (auto split: prod.splits)
      ultimately show ?thesis using "2.IH" [OF q u refl] by blast
    qed
  qed
qed simp

lemma read_ipv6_keeps_r:
  assumes "read_ipv6_addr s = Some (ss, t)" and "letter_r \<in> set s"
  shows "letter_r \<in> set t"
proof -
  obtain hs b u where h: "read_groups 0 8 s = (hs, b, u)" by (metis prod_cases3)
  have u: "letter_r \<in> set u" by (rule read_groups_keeps_r [OF h assms(2)])
  show ?thesis using assms(1) h u
    by (auto simp: read_ipv6_addr_def dest!: read_given_char_keeps_r read_groups_keeps_r split: if_splits option.splits prod.splits)
qed

lemma IpAddr_from_str_no_r: "IpAddr_from_str s = Some ip \<Longrightarrow> letter_r \<notin> set s"
  by (auto simp: IpAddr_from_str_def parse_with_def read_ip_addr_def read_ipv4_addr_def
      dest: read_octets_keeps_r read_ipv6_keeps_r split: option.splits list.splits prod.splits)

lemma format_ptr_cases:
  "(\<exists>ip. IpAddr_from_str host = Some ip \<and> letter_r \<in> set (format_ptr_query host))
   \<or> (IpAddr_from_str host = None \<and> format_ptr_query host = host)"
  by (auto simp: format_ptr_query_def split: option.splits IpAddr.splits)

lemma format_ptr_idem [simp]: "format_ptr_query (format_ptr_query host) = format_ptr_query host"
proof (cases "IpAddr_from_str host")
  case (Some ip)
  then have "letter_r \<in> set (format_ptr_query host)" using format_ptr_cases [of host] by auto
  then have "IpAddr_from_str (format_ptr_query host) = None" using IpAddr_from_str_no_r by (cases "IpAddr_from_str (format_ptr_query host)") auto
  then show ?thesis by (simp add: format_ptr_query_def [of "format_ptr_query host"])
next
  case None
  then show ?thesis using format_ptr_cases [of host] by auto
qed

section \<open>A reverse name determines its address\<close>

definition ptr_name :: "IpAddr \<Rightarrow> string" where
  "ptr_name ip =
     (case ip of V4 os \<Rightarrow> show_ipv4 (rev os) @ ''.in-addr.arpa''
      | V6 ss \<Rightarrow> join ''.'' (map (\<lambda>n. [digit_char (uint n)]) (rev (concat (map seg_nibbles ss)))) @ ''.ip6.arpa'')"

lemma show_nibble: "uint (n :: u16) < 16 \<Longrightarrow> show_int 16 (uint n) = [digit_char (uint n)]"
  by (subst show_int.simps) simp

lemma seg_nibbles_small: "n \<in> set (seg_nibbles s) \<Longrightarrow> uint n < 16"
proof -
  have "uint (take_bit 4 w) < 16" for w :: u16
    by (simp only: unsigned_take_bit_eq) (simp add: take_bit_eq_mod)
  then show "n \<in> set (seg_nibbles s) \<Longrightarrow> uint n < 16" by (auto simp: seg_nibbles_def)
qed

lemma format_ptr_name:
  assumes "IpAddr_from_str host = Some ip"
  shows "format_ptr_query host = ptr_name ip"
proof (cases ip)
  case (V4 os)
  then have "length os = 4" using IpAddr_from_str_wf [OF assms] by simp
  then obtain a b c d where "os = [a, b, c, d]" by (auto simp: length_Suc_conv numeral_eq_Suc)
  then show ?thesis using assms V4 by (simp add: format_ptr_query_def ptr_name_def show_ipv4_def numeral_eq_Suc)
next
  case (V6 ss)
  let ?ns = "rev (concat (map seg_nibbles ss))"
  have "map (\<lambda>n. show_int 16 (uint n)) ?ns = map (\<lambda>n. [digit_char (uint n)]) ?ns"
    by (rule map_cong [OF refl]) (auto intro!: show_nibble dest: seg_nibbles_small)
  then show ?thesis using assms V6 by (simp only: format_ptr_query_def ptr_name_def option.case IpAddr.case)
qed

lemma dotted_inj: "concat (map (\<lambda>c. ''.'' @ [c]) xs) = concat (map (\<lambda>c. ''.'' @ [c]) ys) \<Longrightarrow> xs = ys"
  by (induction xs arbitrary: ys; case_tac ys) simp_all

lemma join_chars_inj:
  assumes "join ''.'' (map (\<lambda>c. [c]) xs) = join ''.'' (map (\<lambda>c. [c]) ys)"
  shows "xs = ys"
  using assms dotted_inj [of "tl xs" "tl ys"] by (cases xs; cases ys) (simp_all add: join_Cons o_def)

lemma digit_char_inj: "0 \<le> d \<Longrightarrow> d < 16 \<Longrightarrow> 0 \<le> e \<Longrightarrow> e < 16 \<Longrightarrow> digit_char d = digit_char e \<Longrightarrow> d = e"
  by (metis order_refl option.inject to_digit_digit_char)

lemma nibble_char_inj: "digit_char (uint x) = digit_char (uint y) \<Longrightarrow> uint x < 16 \<Longrightarrow> uint y < 16 \<Longrightarrow> x = y"
  for x y :: u16
  by (rule word_uint_eqI) (rule digit_char_inj, simp_all)

lemma seg_nibbles_inj: "seg_nibbles s = seg_nibbles t \<Longrightarrow> s = t"
proof -
  assume eq: "seg_nibbles s = seg_nibbles t"
  have bit: "bit (w :: u16) i = bit (seg_nibbles w ! (3 - i div 4)) (i mod 4)" if "i < 16" for w i
  proof -
    have "i div 4 = 0 \<or> i div 4 = 1 \<or> i div 4 = 2 \<or> i div 4 = 3" using that by arith
    then show ?thesis
      using that div_mult_mod_eq [of i 4]
      by (elim disjE) (auto simp: seg_nibbles_def bit_take_bit_iff bit_drop_bit_eq add.commute)
  qed
  show "s = t"
  proof (rule bit_word_eqI)
    fix i assume "i < LENGTH(16)"
    then show "bit s i = bit t i" using bit [of i s] bit [of i t] eq by simp
  qed
qed

lemma concat_nibbles_inj:
  "length ss = length ts \<Longrightarrow> concat (map seg_nibbles ss) = concat (map seg_nibbles ts) \<Longrightarrow> ss = ts"
proof (induction ss ts rule: list_induct2)
  case (Cons s ss t ts)
  have "length (seg_nibbles s) = length (seg_nibbles t)" by (simp add: seg_nibbles_def)
  then show ?case using Cons by (auto dest: seg_nibbles_inj)
qed simp

lemma ptr_name_family: "ptr_name (V4 os) \<noteq> ptr_name (V6 ss)"
proof
  assume "ptr_name (V4 os) = ptr_name (V6 ss)"
  then have "rev (ptr_name (V4 os)) ! 5 = rev (ptr_name (V6 ss)) ! 5" by simp
  then show False by (simp add: ptr_name_def)
qed

lemma ptr_name_inj:
  assumes "ip_wf ip" and "ip_wf ip'" and "ptr_name ip = ptr_name ip'"
  shows "ip = ip'"
proof (cases ip; cases ip')
  fix os os' assume v: "ip = V4 os" "ip' = V4 os'"
  have "number_ends 10 ''.in-addr.arpa''" using number_ends_dot by simp
  then have read: "map_option fst (read_ipv4_addr (ptr_name (V4 xs))) = Some (rev xs)" if "length xs = 4" for xs
    using read_ipv4_show [of "rev xs" "''.in-addr.arpa''"] that by (simp add: ptr_name_def)
  have "Some (rev os) = Some (rev os')"
    using read [of os] read [of os'] assms unfolding v by (simp only: ip_wf.simps)
  then show ?thesis using v by simp
next
  fix ss ss' assume v: "ip = V6 ss" "ip' = V6 ss'"
  let ?n = "\<lambda>ss. rev (concat (map seg_nibbles ss))" and ?d = "\<lambda>n :: u16. digit_char (uint n)"
  have len: "length ss = 8" "length ss' = 8" using v assms by auto
  have "join ''.'' (map (\<lambda>c. [c]) (map ?d (?n ss))) = join ''.'' (map (\<lambda>c. [c]) (map ?d (?n ss')))"
    using v assms(3) by (simp add: ptr_name_def o_def)
  then have "map ?d (?n ss) = map ?d (?n ss')" by (rule join_chars_inj)
  moreover have "inj_on ?d (set (?n ss) \<union> set (?n ss'))"
    by (rule inj_onI) (auto dest!: seg_nibbles_small intro: nibble_char_inj)
  ultimately have "?n ss = ?n ss'" by (rule map_inj_on)
  then show ?thesis using v len by (simp add: concat_nibbles_inj)
qed (use assms(3) ptr_name_family ptr_name_family [symmetric] in simp_all)

section \<open>Properties\<close>

text \<open>
  C35. A reverse name is final and unambiguous. Formatting it again leaves it as it is, text that is
  no address is left as it is, and two addresses have the same reverse name only if they are the same
  address.
\<close>

theorem format_ptr_query_sound:
  "format_ptr_query (format_ptr_query host) = format_ptr_query host
   \<and> (IpAddr_from_str host = None \<longrightarrow> format_ptr_query host = host)
   \<and> (IpAddr_from_str host = Some ip \<and> IpAddr_from_str host' = Some ip' \<and> format_ptr_query host = format_ptr_query host'
        \<longrightarrow> ip = ip')"
  using format_ptr_cases [of host] ptr_name_inj [of ip ip'] by (auto simp: format_ptr_name IpAddr_from_str_wf)

theorem format_ptr_query_sound_witness:
  "format_ptr_query ''::1'' \<noteq> format_ptr_query ''2001:db8::1''
   \<and> format_ptr_query ''a.example'' = ''a.example'' \<and> format_ptr_query ''192.0.2.1'' = ''1.2.0.192.in-addr.arpa''"
proof -
  have "IpAddr_from_str ''::1'' = Some (V6 [0, 0, 0, 0, 0, 0, 0, 1])"
    "IpAddr_from_str ''2001:db8::1'' = Some (V6 [0x2001, 0xdb8, 0, 0, 0, 0, 0, 1])"
    "IpAddr_from_str ''a.example'' = None" by code_simp+
  moreover have "format_ptr_query ''192.0.2.1'' = ''1.2.0.192.in-addr.arpa''" by code_simp
  ultimately show ?thesis
    using format_ptr_query_sound [of "''::1''" "V6 [0, 0, 0, 0, 0, 0, 0, 1]" "''2001:db8::1''" "V6 [0x2001, 0xdb8, 0, 0, 0, 0, 0, 1]"]
      format_ptr_query_sound [of "''a.example''"] by auto
qed

end
