(* ===== verification/Resolver.thy ===== *)
theory Resolver
  imports Dns Ptr "HOL-Library.Multiset"
begin

text \<open>
  \<open>src/resolver.rs\<close>: the trait \<open>DnsResolver\<close>, whose default methods are functions of the one
  method an implementation gives, \<open>resolve_full\<close>, and the stream adapter they use. An implementation
  is the argument \<open>ask\<close>: \<open>ask i host rt\<close> is what the \<open>i\<close>-th call of \<open>resolve_full\<close> that a method makes
  returns, \<^term>\<open>None\<close> if that call panics. The methods are one lookup, several record types for one
  host (joined in the order given) and a batch of hosts, whose lookups run side by side and complete
  in any order: the batch is a step relation in which the thread that advances the iterator, the
  stream that polls it and the lookups in flight interleave freely.
\<close>

type_synonym lookup = "nat \<Rightarrow> string \<Rightarrow> RecordType \<Rightarrow> result option"

section \<open>One host\<close>

definition default_concurrency :: usize where "default_concurrency = 32"

definition rdata_strings :: "DnsResponse \<Rightarrow> string list" where
  "rdata_strings response = map r_data (dr_answers response)"

definition resolve :: "lookup \<Rightarrow> string \<Rightarrow> RecordType \<Rightarrow> (BlastDNSError + string list) option" where
  "resolve ask host record_type = map_option (map_sum id rdata_strings) (ask 0 host record_type)"

definition query_host :: "string \<Rightarrow> RecordType \<Rightarrow> string" where
  "query_host host record_type = (if record_type = RT_PTR then format_ptr_query host else host)"

text \<open>Collecting pairs into a \<open>HashMap\<close>: of two pairs with one key the later stays.\<close>

definition hash_map :: "('k \<times> 'v) list \<Rightarrow> 'k \<rightharpoonup> 'v" where
  "hash_map kvs = foldl (\<lambda>m (k, v). m(k \<mapsto> v)) Map.empty kvs"

definition resolve_multi_full ::
  "lookup \<Rightarrow> string \<Rightarrow> RecordType list \<Rightarrow> (BlastDNSError + (RecordType \<rightharpoonup> result)) option" where
  "resolve_multi_full ask host record_types =
     (if record_types = [] then Some (Inl (Configuration ''at least one record type is required''))
      else map_option (\<lambda>results. Inr (hash_map results))
             (those (map (\<lambda>(i, rt). map_option (Pair rt) (ask i (query_host host rt) rt)) (enumerate 0 record_types))))"

definition non_empty_answers :: "result \<Rightarrow> string list option" where
  "non_empty_answers r =
     (case r of Inr response \<Rightarrow> let answers = rdata_strings response in if answers = [] then None else Some answers
      | Inl _ \<Rightarrow> None)"

definition resolve_multi ::
  "lookup \<Rightarrow> string \<Rightarrow> RecordType list \<Rightarrow> (BlastDNSError + (RecordType \<rightharpoonup> string list)) option" where
  "resolve_multi ask host record_types =
     map_option (map_sum id (\<lambda>full rt. Option.bind (full rt) non_empty_answers)) (resolve_multi_full ask host record_types)"

section \<open>The iterator stream\<close>

text \<open>
  An iterator is the list of the items it still has to give. The task that advances it runs on
  another thread; it holds the iterator's lock, so a panic in it poisons the lock and every later
  task panics too.
\<close>

datatype 'a task = Running | Returned "'a option" | Panicked

datatype 'a poll = Pending | Ready 'a

record 'a BlockingIteratorStream =
  is_iterator :: "'a list"
  is_poisoned :: bool
  is_pending :: "'a task option"

definition BlockingIteratorStream_new :: "'a list \<Rightarrow> 'a BlockingIteratorStream" where
  "BlockingIteratorStream_new iterator = \<lparr>is_iterator = iterator, is_poisoned = False, is_pending = None\<rparr>"

definition spawn_next :: "'a BlockingIteratorStream \<Rightarrow> 'a BlockingIteratorStream" where
  "spawn_next st = (if is_pending st = None then st\<lparr>is_pending := Some Running\<rparr> else st)"

text \<open>The body of the blocking task; \<open>ok\<close> says whether the iterator returns or panics.\<close>

definition run_task :: "bool \<Rightarrow> 'a BlockingIteratorStream \<Rightarrow> 'a BlockingIteratorStream" where
  "run_task ok st =
     (case is_pending st of
        Some Running \<Rightarrow>
          if is_poisoned st \<or> \<not> ok then st\<lparr>is_poisoned := True, is_pending := Some Panicked\<rparr>
          else (case is_iterator st of
                  [] \<Rightarrow> st\<lparr>is_pending := Some (Returned None)\<rparr>
                | x # xs \<Rightarrow> st\<lparr>is_iterator := xs, is_pending := Some (Returned (Some x))\<rparr>)
      | _ \<Rightarrow> st)"

definition poll_handle :: "'a BlockingIteratorStream \<Rightarrow> 'a option poll \<times> 'a BlockingIteratorStream" where
  "poll_handle st =
     (case is_pending st of
        Some (Returned r) \<Rightarrow> (Ready r, st\<lparr>is_pending := None\<rparr>)
      | Some Panicked \<Rightarrow> (Ready None, st\<lparr>is_pending := None\<rparr>)
      | _ \<Rightarrow> (Pending, st))"

text \<open>
  \<open>poll_next\<close>: a task is spawned if none is pending, then the handle is polled; in between the task
  may already have run (\<open>progress\<close>).
\<close>

definition poll_next ::
  "bool option \<Rightarrow> 'a BlockingIteratorStream \<Rightarrow> 'a option poll \<times> 'a BlockingIteratorStream" where
  "poll_next progress st =
     poll_handle (case progress of None \<Rightarrow> spawn_next st | Some ok \<Rightarrow> run_task ok (spawn_next st))"

section \<open>A batch of hosts\<close>

record 'e batch =
  ba_hosts :: "('e + string) BlockingIteratorStream"
  ba_ended :: bool
  ba_calls :: nat
  ba_in_flight :: "(nat \<times> string) list"
  ba_out :: "(string \<times> result) list"

record batch_args =
  ra_record_type :: RecordType
  ra_skip_empty :: bool
  ra_skip_errors :: bool

definition batch_start :: "('e + string) list \<Rightarrow> 'e batch" where
  "batch_start hosts =
     \<lparr>ba_hosts = BlockingIteratorStream_new hosts, ba_ended = False, ba_calls = 0, ba_in_flight = [], ba_out = []\<rparr>"

text \<open>What the buffer does with what polling the hosts gave: an iterator error is dropped, a host
  becomes a lookup in flight, the end is remembered.\<close>

definition batch_pull :: "('e + string) option poll \<Rightarrow> 'e batch \<Rightarrow> 'e batch" where
  "batch_pull res b =
     (case res of
        Pending \<Rightarrow> b
      | Ready None \<Rightarrow> b\<lparr>ba_ended := True\<rparr>
      | Ready (Some (Inl e)) \<Rightarrow> b
      | Ready (Some (Inr host)) \<Rightarrow> b\<lparr>ba_calls := ba_calls b + 1, ba_in_flight := ba_in_flight b @ [(ba_calls b, host)]\<rparr>)"

definition batch_keep :: "batch_args \<Rightarrow> string \<times> result \<Rightarrow> bool" where
  "batch_keep a hr =
     (case snd hr of
        Inr response \<Rightarrow> \<not> (ra_skip_empty a \<and> dr_answers response = [])
      | Inl _ \<Rightarrow> \<not> ra_skip_errors a)"

definition batch_finish :: "batch_args \<Rightarrow> nat \<times> string \<Rightarrow> result \<Rightarrow> 'e batch \<Rightarrow> 'e batch" where
  "batch_finish a call r b =
     b\<lparr>ba_in_flight := remove1 call (ba_in_flight b),
       ba_out := ba_out b @ filter (batch_keep a) [(snd call, r)]\<rparr>"

definition batch_width :: "usize \<Rightarrow> nat" where
  "batch_width concurrency = unat (concurrency * 2)"

inductive resolve_batch_full :: "lookup \<Rightarrow> batch_args \<Rightarrow> nat \<Rightarrow> 'e batch \<Rightarrow> 'e batch \<Rightarrow> bool"
  for ask :: lookup and a :: batch_args and width :: nat where
  batch_poll: "\<not> ba_ended b \<Longrightarrow> length (ba_in_flight b) < width \<Longrightarrow> poll_next progress (ba_hosts b) = (res, st)
    \<Longrightarrow> resolve_batch_full ask a width b (batch_pull res (b\<lparr>ba_hosts := st\<rparr>))"
| batch_thread: "resolve_batch_full ask a width b (b\<lparr>ba_hosts := run_task ok (ba_hosts b)\<rparr>)"
| batch_reply: "call \<in> set (ba_in_flight b) \<Longrightarrow> ask (fst call) (snd call) (ra_record_type a) = Some r
    \<Longrightarrow> resolve_batch_full ask a width b (batch_finish a call r b)"

text \<open>The stream ends when the hosts have ended and nothing is in flight.\<close>

definition batch_finished :: "'e batch \<Rightarrow> bool" where
  "batch_finished b \<longleftrightarrow> ba_ended b \<and> ba_in_flight b = []"

text \<open>\<open>resolve_batch\<close>: a batch that skips empty answers and errors, and what it makes of each result.\<close>

definition resolve_batch_args :: "RecordType \<Rightarrow> batch_args" where
  "resolve_batch_args record_type = \<lparr>ra_record_type = record_type, ra_skip_empty = True, ra_skip_errors = True\<rparr>"

definition resolve_batch :: "(RecordType \<Rightarrow> string) \<Rightarrow> RecordType \<Rightarrow> (string \<times> result) list \<Rightarrow> (string \<times> string \<times> string list) list" where
  "resolve_batch show_record_type record_type out =
     List.map_filter (\<lambda>(host, r). map_option (\<lambda>answers. (host, show_record_type record_type, answers)) (non_empty_answers r)) out"

text \<open>Of what such a batch delivers nothing is lost on the way.\<close>

lemma resolve_batch_keeps:
  assumes "\<forall>hr \<in> set out. batch_keep (resolve_batch_args rt) hr"
  shows "map fst (resolve_batch show_rt rt out) = map fst out"
  using assms
proof (induction out)
  case (Cons hr out)
  obtain host r where hr: "hr = (host, r)" by (cases hr)
  have "non_empty_answers r \<noteq> None"
    using Cons.prems by (auto simp: hr batch_keep_def resolve_batch_args_def non_empty_answers_def rdata_strings_def Let_def split: sum.splits)
  then show ?case using Cons by (auto simp: hr resolve_batch_def map_filter_simps split: option.splits)
qed (simp add: resolve_batch_def map_filter_simps)

section \<open>Several record types\<close>

lemma hash_map_snoc: "hash_map (kvs @ [(k, v)]) = (hash_map kvs)(k \<mapsto> v)"
  by (simp add: hash_map_def)

lemma hash_map_dom: "dom (hash_map kvs) = fst ` set kvs"
proof (induction kvs rule: rev_induct)
  case (snoc kv kvs)
  have "dom (hash_map (kvs @ [kv])) = insert (fst kv) (dom (hash_map kvs))"
    by (cases kv) (auto simp: hash_map_snoc split: if_splits)
  then show ?case by (simp add: snoc)
qed (simp add: hash_map_def)

lemma hash_map_last:
  assumes "i < length kvs" and "\<And>j. i < j \<Longrightarrow> j < length kvs \<Longrightarrow> fst (kvs ! j) \<noteq> fst (kvs ! i)"
  shows "hash_map kvs (fst (kvs ! i)) = Some (snd (kvs ! i))"
  using assms
proof (induction kvs rule: rev_induct)
  case (snoc kv kvs)
  obtain k v where kv: "kv = (k, v)" by (cases kv)
  show ?case
  proof (cases "i = length kvs")
    case False
    with snoc.prems(1) have i: "i < length kvs" by simp
    moreover have "fst (kvs ! j) \<noteq> fst (kvs ! i)" if "i < j" "j < length kvs" for j
      using snoc.prems(2) [of j] that by (simp add: nth_append)
    moreover have "k \<noteq> fst (kvs ! i)" using snoc.prems(2) [of "length kvs"] i by (simp add: nth_append kv)
    ultimately show ?thesis using snoc.IH by (simp add: kv hash_map_snoc nth_append)
  qed (simp add: kv hash_map_snoc)
qed simp

lemma those_map: "(\<And>x. x \<in> set xs \<Longrightarrow> f x \<noteq> None) \<Longrightarrow> those (map f xs) = Some (map (the \<circ> f) xs)"
  by (induction xs) (auto split: option.splits)

text \<open>What the default methods rely on: an implementation formats a reverse query itself.\<close>

locale dns_resolver =
  fixes ask :: lookup
  assumes ask_ptr: "ask i (format_ptr_query host) RT_PTR = ask i host RT_PTR"
begin

lemma ask_query_host: "ask i (query_host host rt) rt = ask i host rt"
  by (simp add: query_host_def ask_ptr)

lemma multi_full_agrees:
  assumes "rts \<noteq> []" and "\<And>i host rt. ask i host rt \<noteq> None"
  obtains m where "resolve_multi_full ask host rts = Some (Inr m)" and "dom m = set rts"
    and "\<And>i. i < length rts \<Longrightarrow> (\<And>j. i < j \<Longrightarrow> j < length rts \<Longrightarrow> rts ! j \<noteq> rts ! i) \<Longrightarrow> m (rts ! i) = ask i host (rts ! i)"
proof -
  let ?kvs = "map (\<lambda>(i, rt). (rt, the (ask i host rt))) (enumerate 0 rts)"
  have "those (map (\<lambda>(i, rt). map_option (Pair rt) (ask i (query_host host rt) rt)) (enumerate 0 rts))
      = Some (map (the \<circ> (\<lambda>(i, rt). map_option (Pair rt) (ask i (query_host host rt) rt))) (enumerate 0 rts))"
    using assms(2) by (intro those_map) auto
  also have "\<dots> = Some ?kvs" using assms(2) by (auto simp: ask_query_host option.map_sel)
  finally have "resolve_multi_full ask host rts = Some (Inr (hash_map ?kvs))"
    using assms(1) by (simp add: resolve_multi_full_def)
  moreover have "dom (hash_map ?kvs) = set rts"
  proof -
    have "fst ` set ?kvs = set (map snd (enumerate 0 rts))" by (simp add: image_image split_def del: map_snd_enumerate)
    then show ?thesis by (simp only: hash_map_dom map_snd_enumerate)
  qed
  moreover have "hash_map ?kvs (rts ! i) = ask i host (rts ! i)"
    if "i < length rts" "\<And>j. i < j \<Longrightarrow> j < length rts \<Longrightarrow> rts ! j \<noteq> rts ! i" for i
    using hash_map_last [of i ?kvs] that assms(2) by (simp add: nth_enumerate_eq)
  ultimately show thesis by (rule that)
qed

lemma multi_answers:
  assumes "resolve_multi_full ask host rts = Some (Inr m)"
  shows "resolve_multi ask host rts = Some (Inr (\<lambda>rt. Option.bind (m rt) non_empty_answers))"
  by (simp add: resolve_multi_def assms)

end

section \<open>The batch\<close>

lemma run_task_cases:
  obtains (idle) "is_pending st \<noteq> Some Running" and "run_task ok st = st"
  | (panic) "is_pending st = Some Running" and "run_task ok st = st\<lparr>is_poisoned := True, is_pending := Some Panicked\<rparr>"
  | (drained) "is_pending st = Some Running" and "is_iterator st = []" and "run_task ok st = st\<lparr>is_pending := Some (Returned None)\<rparr>"
  | (item) x xs where "is_pending st = Some Running" and "is_iterator st = x # xs"
      and "run_task ok st = st\<lparr>is_iterator := xs, is_pending := Some (Returned (Some x))\<rparr>"
proof (cases "is_pending st = Some Running")
  case False
  then have "run_task ok st = st" by (auto simp: run_task_def split: option.splits task.splits)
  with False show thesis by (rule idle)
next
  case True
  then show thesis
    by (cases "is_poisoned st \<or> \<not> ok"; cases "is_iterator st") (auto simp: run_task_def intro: panic drained item)
qed

text \<open>The items that have left the iterator but not the stream.\<close>

fun held :: "'a task option \<Rightarrow> 'a list" where
  "held (Some (Returned (Some x))) = [x]"
| "held _ = []"

definition oks :: "('e + 'a) list \<Rightarrow> 'a list" where
  "oks xs = List.map_filter (case_sum (\<lambda>_. None) Some) xs"

lemma oks_simps [simp]:
  "oks [] = []" "oks (Inl e # xs) = oks xs" "oks (Inr x # xs) = x # oks xs" "oks (xs @ ys) = oks xs @ oks ys"
  by (simp_all add: oks_def map_filter_def)

text \<open>The stream's invariant: it gives the items in order, and ends early only after a panic.\<close>

definition stream_inv :: "'a list \<Rightarrow> 'a list \<Rightarrow> bool \<Rightarrow> 'a BlockingIteratorStream \<Rightarrow> bool" where
  "stream_inv items seen ended st \<longleftrightarrow>
     items = seen @ held (is_pending st) @ is_iterator st
   \<and> (is_pending st = Some (Returned None) \<longrightarrow> is_iterator st = [])
   \<and> (is_pending st = Some Panicked \<longrightarrow> is_poisoned st)
   \<and> (ended \<longrightarrow> is_pending st = None \<and> (is_poisoned st \<or> is_iterator st = []))"

lemma run_task_inv: "stream_inv items seen ended st \<Longrightarrow> stream_inv items seen ended (run_task ok st)"
  by (cases rule: run_task_cases [of st ok]) (auto simp: stream_inv_def)

lemma spawn_next_inv: "stream_inv items seen False st \<Longrightarrow> stream_inv items seen False (spawn_next st)"
  by (auto simp: stream_inv_def spawn_next_def)

lemma poll_handle_inv:
  assumes "stream_inv items seen False st" and "poll_handle st = (res, st')"
  shows "case res of Pending \<Rightarrow> stream_inv items seen False st' \<and> st' = st
    | Ready None \<Rightarrow> stream_inv items seen True st'
    | Ready (Some x) \<Rightarrow> stream_inv items (seen @ [x]) False st'"
  using assms by (auto simp: stream_inv_def poll_handle_def split: option.splits task.splits)

lemma poll_next_inv:
  assumes "stream_inv items seen False st" and "poll_next progress st = (res, st')"
  shows "case res of Pending \<Rightarrow> stream_inv items seen False st'
    | Ready None \<Rightarrow> stream_inv items seen True st'
    | Ready (Some x) \<Rightarrow> stream_inv items (seen @ [x]) False st'"
proof -
  let ?st = "case progress of None \<Rightarrow> spawn_next st | Some ok \<Rightarrow> run_task ok (spawn_next st)"
  have "stream_inv items seen False ?st" using assms(1) by (auto simp: run_task_inv spawn_next_inv split: option.splits)
  from poll_handle_inv [OF this, of res st'] assms(2) show ?thesis
    by (auto simp: poll_next_def split: poll.splits option.splits)
qed

text \<open>
  The batch's invariant over the items of the iterator: the hosts pulled so far were numbered in
  order, each is in flight or answered (\<open>replied\<close>), and the output is what the filters keep of the
  answers.
\<close>

definition call_result :: "lookup \<Rightarrow> batch_args \<Rightarrow> nat \<times> string \<Rightarrow> string \<times> result" where
  "call_result ask a call = (snd call, the (ask (fst call) (snd call) (ra_record_type a)))"

definition batch_inv :: "lookup \<Rightarrow> batch_args \<Rightarrow> nat \<Rightarrow> ('e + string) list \<Rightarrow> 'e batch \<Rightarrow> bool" where
  "batch_inv ask a width items b \<longleftrightarrow>
     (\<exists>seen replied. stream_inv items seen (ba_ended b) (ba_hosts b)
        \<and> ba_calls b = length (oks seen)
        \<and> mset (ba_in_flight b) + mset replied = mset (enumerate 0 (oks seen))
        \<and> ba_out b = filter (batch_keep a) (map (call_result ask a) replied))
   \<and> length (ba_in_flight b) \<le> width"

lemma batch_inv_start: "batch_inv ask a width items (batch_start items)"
  by (auto simp: batch_inv_def batch_start_def BlockingIteratorStream_new_def stream_inv_def intro!: exI [of _ "[]"])

lemma batch_invI:
  assumes "stream_inv items seen (ba_ended b) (ba_hosts b)" and "ba_calls b = length (oks seen)"
    and "mset (ba_in_flight b) + mset replied = mset (enumerate 0 (oks seen))"
    and "ba_out b = filter (batch_keep a) (map (call_result ask a) replied)" and "length (ba_in_flight b) \<le> width"
  shows "batch_inv ask a width items b"
  using assms by (auto simp: batch_inv_def)

lemma enumerate_snoc: "enumerate n (xs @ [x]) = enumerate n xs @ [(n + length xs, x)]"
  by (simp add: enumerate_append_eq)

lemma batch_pull_inv:
  assumes "batch_inv ask a width items b" and "\<not> ba_ended b" and "length (ba_in_flight b) < width"
    and "poll_next progress (ba_hosts b) = (res, st)"
  shows "batch_inv ask a width items (batch_pull res (b\<lparr>ba_hosts := st\<rparr>))"
proof -
  from assms(1) obtain seen replied where inv: "stream_inv items seen False (ba_hosts b)" "ba_calls b = length (oks seen)"
      "mset (ba_in_flight b) + mset replied = mset (enumerate 0 (oks seen))"
      "ba_out b = filter (batch_keep a) (map (call_result ask a) replied)"
    using assms(2) by (auto simp: batch_inv_def)
  note st = poll_next_inv [OF inv(1) assms(4)]
  consider (pend) "res = Pending" | (stop) "res = Ready None" | (err) e where "res = Ready (Some (Inl e))"
    | (host) h where "res = Ready (Some (Inr h))"
    by (metis poll.exhaust option.exhaust sum.exhaust)
  then show ?thesis
  proof cases
    case pend
    then show ?thesis using st inv assms(2,3) by (intro batch_invI [of _ seen]) (auto simp: batch_pull_def)
  next
    case stop
    then show ?thesis using st inv assms(3) by (intro batch_invI [of _ seen]) (auto simp: batch_pull_def)
  next
    case (err e)
    then show ?thesis using st inv assms(2,3) by (intro batch_invI [of _ "seen @ [Inl e]"]) (auto simp: batch_pull_def)
  next
    case (host h)
    then show ?thesis using st inv assms(2,3)
      by (intro batch_invI [of _ "seen @ [Inr h]"]) (auto simp: batch_pull_def enumerate_snoc)
  qed
qed

lemma batch_finish_inv:
  assumes "batch_inv ask a width items b" and "call \<in> set (ba_in_flight b)"
    and "ask (fst call) (snd call) (ra_record_type a) = Some r"
  shows "batch_inv ask a width items (batch_finish a call r b)"
proof -
  from assms(1) obtain seen replied where inv: "stream_inv items seen (ba_ended b) (ba_hosts b)" "ba_calls b = length (oks seen)"
      "mset (ba_in_flight b) + mset replied = mset (enumerate 0 (oks seen))"
      "ba_out b = filter (batch_keep a) (map (call_result ask a) replied)" "length (ba_in_flight b) \<le> width"
    by (auto simp: batch_inv_def)
  have "add_mset call (mset (remove1 call (ba_in_flight b))) = mset (ba_in_flight b)" using assms(2) by simp
  then have "mset (remove1 call (ba_in_flight b)) + mset (replied @ [call]) = mset (enumerate 0 (oks seen))"
    using inv(3) by (metis add_mset_add_single mset_append mset.simps(1) mset.simps(2) union_assoc union_mset_add_mset_left
        union_mset_add_mset_right add.right_neutral)
  moreover have "length (remove1 call (ba_in_flight b)) \<le> width" using inv(5) by (auto simp: length_remove1)
  moreover have "call_result ask a call = (snd call, r)" using assms(3) by (simp add: call_result_def)
  ultimately show ?thesis using inv
    by (intro batch_invI [of _ seen _ "replied @ [call]"]) (simp_all add: batch_finish_def)
qed

lemma batch_step_inv:
  "resolve_batch_full ask a width b b' \<Longrightarrow> batch_inv ask a width items b \<Longrightarrow> batch_inv ask a width items b'"
proof (induction rule: resolve_batch_full.induct)
  case (batch_thread b ok)
  then show ?case by (auto simp: batch_inv_def intro: run_task_inv)
qed (auto intro: batch_pull_inv batch_finish_inv)

lemma batch_reach_inv:
  assumes "(resolve_batch_full ask a width)\<^sup>*\<^sup>* (batch_start items) b"
  shows "batch_inv ask a width items b"
  using assms by (induction rule: rtranclp_induct) (auto intro: batch_inv_start batch_step_inv)

text \<open>What a batch over the given items delivers in all, in the order of the hosts.\<close>

definition batch_results :: "lookup \<Rightarrow> batch_args \<Rightarrow> ('e + string) list \<Rightarrow> (string \<times> result) list" where
  "batch_results ask a items = filter (batch_keep a) (map (call_result ask a) (enumerate 0 (oks items)))"

lemma batch_inv_out:
  assumes "batch_inv ask a width items b"
  shows "mset (ba_out b) \<subseteq># mset (batch_results ask a items)"
    and "batch_finished b \<Longrightarrow> \<not> is_poisoned (ba_hosts b) \<Longrightarrow> mset (ba_out b) = mset (batch_results ask a items)"
proof -
  from assms obtain seen replied where inv: "stream_inv items seen (ba_ended b) (ba_hosts b)"
      "mset (ba_in_flight b) + mset replied = mset (enumerate 0 (oks seen))"
      "ba_out b = filter (batch_keep a) (map (call_result ask a) replied)"
    by (auto simp: batch_inv_def)
  let ?keep = "\<lambda>calls. filter_mset (batch_keep a) (image_mset (call_result ask a) calls)"
  have out: "mset (ba_out b) = ?keep (mset replied)" by (simp add: inv(3) mset_filter)
  have res: "mset (batch_results ask a xs) = ?keep (mset (enumerate 0 (oks xs)))" for xs :: "('a + string) list"
    by (simp add: batch_results_def mset_filter)
  obtain rest where items: "items = seen @ rest" using inv(1) by (auto simp: stream_inv_def)
  have "mset replied \<subseteq># mset (enumerate 0 (oks items))"
    unfolding items oks_simps enumerate_append_eq mset_append inv(2) [symmetric] by (simp add: subset_mset.add_increasing2 subset_mset.add_increasing)
  then show "mset (ba_out b) \<subseteq># mset (batch_results ask a items)"
    unfolding out res by (intro multiset_filter_mono image_mset_subseteq_mono)
  show "mset (ba_out b) = mset (batch_results ask a items)" if "batch_finished b" "\<not> is_poisoned (ba_hosts b)"
  proof -
    have "seen = items" "ba_in_flight b = []" using inv(1) that by (auto simp: stream_inv_def batch_finished_def)
    then show ?thesis using inv(2) by (simp add: out res)
  qed
qed

text \<open>Every step that changes anything lowers this measure.\<close>

fun task_weight :: "'a task option \<Rightarrow> nat" where
  "task_weight None = 3"
| "task_weight (Some Running) = 2"
| "task_weight (Some (Returned (Some x))) = 5"
| "task_weight (Some (Returned None)) = 1"
| "task_weight (Some Panicked) = 1"

definition stream_weight :: "'a BlockingIteratorStream \<Rightarrow> nat" where
  "stream_weight st = 6 * length (is_iterator st) + task_weight (is_pending st)"

definition batch_weight :: "'e batch \<Rightarrow> nat" where
  "batch_weight b = length (ba_in_flight b) + (if ba_ended b then 0 else stream_weight (ba_hosts b))"

lemma run_task_weight: "run_task ok st = st \<or> stream_weight (run_task ok st) < stream_weight st"
  by (cases rule: run_task_cases [of st ok]) (auto simp: stream_weight_def)

lemma spawn_next_weight: "spawn_next st = st \<or> stream_weight (spawn_next st) < stream_weight st"
  by (simp add: spawn_next_def stream_weight_def)

lemma poll_next_weight:
  assumes "poll_next progress st = (res, st')"
  shows "case res of Pending \<Rightarrow> st' = st \<or> stream_weight st' < stream_weight st
    | Ready None \<Rightarrow> 0 < stream_weight st
    | Ready (Some x) \<Rightarrow> stream_weight st' + 2 \<le> stream_weight st"
proof -
  let ?u = "case progress of None \<Rightarrow> spawn_next st | Some ok \<Rightarrow> run_task ok (spawn_next st)"
  have u: "?u = st \<or> stream_weight ?u < stream_weight st"
  proof (cases progress)
    case (Some ok)
    then show ?thesis using spawn_next_weight [of st] run_task_weight [of ok "spawn_next st"]
      by (simp, metis less_trans)
  qed (use spawn_next_weight [of st] in simp)
  have pos: "0 < stream_weight st" for st :: "'a BlockingIteratorStream"
    by (cases "is_pending st" rule: task_weight.cases) (auto simp: stream_weight_def)
  from assms u pos [of st] show ?thesis
    by (auto simp: poll_next_def poll_handle_def stream_weight_def split: option.splits task.splits)
qed

lemma batch_step_weight:
  assumes "resolve_batch_full ask a width b b'" and "batch_inv ask a width items b"
  shows "b' = b \<or> batch_weight b' < batch_weight b"
  using assms(1)
proof cases
  case (batch_poll progress res st)
  from poll_next_weight [OF batch_poll(4)] show ?thesis using batch_poll(1,2)
    by (auto simp: batch_pull_def batch_weight_def split: poll.splits option.splits sum.splits)
next
  case (batch_thread ok)
  have "run_task ok (ba_hosts b) = ba_hosts b" if "ba_ended b"
    using that assms(2) by (auto simp: batch_inv_def stream_inv_def run_task_def)
  then show ?thesis using batch_thread run_task_weight [of ok "ba_hosts b"] by (auto simp: batch_weight_def)
next
  case (batch_reply call r)
  then show ?thesis by (auto simp: batch_finish_def batch_weight_def length_remove1 dest: length_pos_if_in_set)
qed

text \<open>The contract a batch needs: lookups that return, and room for at least one.\<close>

locale batch_resolver = dns_resolver +
  fixes concurrency :: usize
  assumes ask_returns: "ask i host rt \<noteq> None"
    and room: "0 < batch_width concurrency"
begin

lemma batch_progress:
  assumes "batch_inv ask a (batch_width concurrency) items b" and "\<not> batch_finished b"
  shows "\<exists>b'. resolve_batch_full ask a (batch_width concurrency) b b' \<and> batch_weight b' < batch_weight b"
proof (cases "ba_in_flight b")
  case (Cons call rest)
  moreover obtain r where "ask (fst call) (snd call) (ra_record_type a) = Some r"
    using ask_returns [of "fst call" "snd call" "ra_record_type a"] by auto
  ultimately have "resolve_batch_full ask a (batch_width concurrency) b (batch_finish a call r b)"
    by (intro batch_reply) simp_all
  moreover have "batch_weight (batch_finish a call r b) < batch_weight b"
    by (simp add: batch_weight_def batch_finish_def Cons)
  ultimately show ?thesis by blast
next
  case Nil
  then have live: "\<not> ba_ended b" using assms(2) by (simp add: batch_finished_def)
  obtain res st where p: "poll_next (Some True) (ba_hosts b) = (res, st)" by fastforce
  then have "resolve_batch_full ask a (batch_width concurrency) b (batch_pull res (b\<lparr>ba_hosts := st\<rparr>))"
    using live room Nil by (intro batch_poll) simp_all
  moreover have "batch_pull res (b\<lparr>ba_hosts := st\<rparr>) \<noteq> b"
  proof -
    have "res \<noteq> Pending" using p
      by (auto simp: poll_next_def poll_handle_def run_task_def spawn_next_def split: option.splits task.splits list.splits if_splits)
    then show ?thesis using poll_next_weight [OF p] live
      by (auto simp: batch_pull_def split: poll.splits option.splits sum.splits dest: arg_cong [where f = ba_hosts] arg_cong [where f = ba_ended] arg_cong [where f = ba_calls])
  qed
  ultimately show ?thesis using batch_step_weight [OF _ assms(1)] by blast
qed

lemma batch_completes:
  assumes "batch_inv ask a (batch_width concurrency) items b"
  shows "\<exists>b'. (resolve_batch_full ask a (batch_width concurrency))\<^sup>*\<^sup>* b b' \<and> batch_finished b'"
  using assms
proof (induction "batch_weight b" arbitrary: b rule: less_induct)
  case less
  show ?case
  proof (cases "batch_finished b")
    case False
    with less.prems obtain c where "resolve_batch_full ask a (batch_width concurrency) b c" "batch_weight c < batch_weight b"
      using batch_progress by blast
    then show ?thesis using less.hyps [of c] batch_step_inv [of ask a _ b c items] less.prems
      by (meson converse_rtranclp_into_rtranclp)
  qed blast
qed

end

section \<open>Properties\<close>

definition sample_batch_ask :: lookup where
  "sample_batch_ask i host rt =
     Some (if host = ''a'' then Inr (plain_response NoError [\<lparr>r_name = ''a.'', r_type = rt, r_ttl = 60, r_data = ''192.0.2.1''\<rparr>])
           else if host = ''b'' then Inl WorkerDropped else Inr (plain_response NXDomain []))"

definition sample_batch_args :: batch_args where
  "sample_batch_args = \<lparr>ra_record_type = RT_A, ra_skip_empty = True, ra_skip_errors = False\<rparr>"

definition sample_items :: "(string + string) list" where
  "sample_items = [Inr ''a'', Inl ''not utf-8'', Inr ''b'', Inr ''c'']"

text \<open>Three hosts and an iterator error through a buffer of two, the second host answering first.\<close>

definition sample_batch_end :: "string batch" where
  "sample_batch_end =
     \<lparr>ba_hosts = \<lparr>is_iterator = [], is_poisoned = False, is_pending = None\<rparr>, ba_ended = True, ba_calls = 3, ba_in_flight = [],
      ba_out = [(''b'', Inl WorkerDropped), (''a'', the (sample_batch_ask 0 ''a'' RT_A))]\<rparr>"

lemma poll_next_quick:
  "poll_next (Some True) \<lparr>is_iterator = x # xs, is_poisoned = False, is_pending = None\<rparr>
     = (Ready (Some x), \<lparr>is_iterator = xs, is_poisoned = False, is_pending = None\<rparr>)"
  "poll_next (Some True) \<lparr>is_iterator = [], is_poisoned = False, is_pending = None\<rparr>
     = (Ready None, \<lparr>is_iterator = [], is_poisoned = False, is_pending = None\<rparr>)"
  by (simp_all add: poll_next_def poll_handle_def spawn_next_def run_task_def)

abbreviation at_rest :: "('e + string) list \<Rightarrow> bool \<Rightarrow> nat \<Rightarrow> (nat \<times> string) list \<Rightarrow> (string \<times> result) list \<Rightarrow> 'e batch" where
  "at_rest xs e n calls out \<equiv>
     \<lparr>ba_hosts = \<lparr>is_iterator = xs, is_poisoned = False, is_pending = None\<rparr>, ba_ended = e, ba_calls = n,
      ba_in_flight = calls, ba_out = out\<rparr>"

lemma batch_at_rest_steps:
  "length calls < width \<Longrightarrow> resolve_batch_full ask a width (at_rest (Inr h # xs) False n calls out) (at_rest xs False (n + 1) (calls @ [(n, h)]) out)"
  "length calls < width \<Longrightarrow> resolve_batch_full ask a width (at_rest (Inl err # xs) False n calls out) (at_rest xs False n calls out)"
  "length calls < width \<Longrightarrow> resolve_batch_full ask a width (at_rest [] False n calls out) (at_rest [] True n calls out)"
  "call \<in> set calls \<Longrightarrow> ask (fst call) (snd call) (ra_record_type a) = Some r
    \<Longrightarrow> resolve_batch_full ask a width (at_rest xs e n calls out)
          (at_rest xs e n (remove1 call calls) (out @ filter (batch_keep a) [(snd call, r)]))"
  using batch_poll [of "at_rest (Inr h # xs) False n calls out" width "Some True" _ _ ask a]
    batch_poll [of "at_rest (Inl err # xs) False n calls out" width "Some True" _ _ ask a]
    batch_poll [of "at_rest [] False n calls out" width "Some True" _ _ ask a]
    batch_reply [of call "at_rest xs e n calls out" ask a r width]
  by (simp_all add: poll_next_quick batch_pull_def batch_finish_def)

lemma sample_batch_run: "(resolve_batch_full sample_batch_ask sample_batch_args 2)\<^sup>*\<^sup>* (batch_start sample_items) sample_batch_end"
proof -
  let ?step = "resolve_batch_full sample_batch_ask sample_batch_args 2 :: string batch \<Rightarrow> string batch \<Rightarrow> bool"
  let ?a = "(0, ''a'')" and ?b = "(1, ''b'')" and ?c = "(2, ''c'')"
  let ?o1 = "[(''b'', Inl WorkerDropped)]" and ?o2 = "[(''b'', Inl WorkerDropped), (''a'', the (sample_batch_ask 0 ''a'' RT_A))]"
  note steps = batch_at_rest_steps [where ask = sample_batch_ask and a = sample_batch_args and width = 2]
  note defs = sample_batch_args_def batch_keep_def sample_batch_ask_def
  have "?step (batch_start sample_items) (at_rest [Inl ''not utf-8'', Inr ''b'', Inr ''c''] False 1 [?a] [])"
    using steps(1) [of "[]" "''a''" _ 0 "[]"] by (simp add: batch_start_def BlockingIteratorStream_new_def sample_items_def)
  moreover have "?step (at_rest [Inl ''not utf-8'', Inr ''b'', Inr ''c''] False 1 [?a] []) (at_rest [Inr ''b'', Inr ''c''] False 1 [?a] [])"
    by (rule steps(2)) simp
  moreover have "?step (at_rest [Inr ''b'', Inr ''c''] False 1 [?a] []) (at_rest [Inr ''c''] False 2 [?a, ?b] [])"
    using steps(1) [of "[?a]" "''b''" _ 1] by (simp add: numeral_2_eq_2)
  moreover have "?step (at_rest [Inr ''c''] False 2 [?a, ?b] []) (at_rest [Inr ''c''] False 2 [?a] ?o1)"
    using steps(4) [of ?b "[?a, ?b]" "Inl WorkerDropped" _ _ _ "[]"] by (simp add: defs)
  moreover have "?step (at_rest [Inr ''c''] False 2 [?a] ?o1) (at_rest [] False 3 [?a, ?c] ?o1)"
    using steps(1) [of "[?a]" "''c''" _ 2] by simp
  moreover have "?step (at_rest [] False 3 [?a, ?c] ?o1) (at_rest [] False 3 [?c] ?o2)"
    using steps(4) [of ?a "[?a, ?c]" "the (sample_batch_ask 0 ''a'' RT_A)" _ _ _ ?o1] by (simp add: defs)
  moreover have "?step (at_rest [] False 3 [?c] ?o2) (at_rest [] True 3 [?c] ?o2)"
    by (rule steps(3)) simp
  moreover have "?step (at_rest [] True 3 [?c] ?o2) sample_batch_end"
    using steps(4) [of ?c "[?c]" "Inr (plain_response NXDomain [])" _ _ _ ?o2] by (simp add: defs sample_batch_end_def)
  ultimately show ?thesis by (meson converse_rtranclp_into_rtranclp rtranclp.rtrancl_refl)
qed

text \<open>
  C16. A batch delivers every host once. However the thread that reads the iterator, the stream and
  the lookups interleave, no more than the buffer's width are in flight, and nothing is delivered that
  is not the answer to a host of the batch, no answer twice. When the stream has ended and the iterator
  did not panic, it has delivered exactly the answers the filters keep, one for each host the iterator
  gave; an error of the iterator costs that item only.
\<close>

theorem batch_delivers:
  assumes "(resolve_batch_full ask a (batch_width concurrency))\<^sup>*\<^sup>* (batch_start items) b"
  shows "length (ba_in_flight b) \<le> batch_width concurrency
    \<and> mset (ba_out b) \<subseteq># mset (batch_results ask a items)
    \<and> (batch_finished b \<and> \<not> is_poisoned (ba_hosts b) \<longrightarrow> mset (ba_out b) = mset (batch_results ask a items))"
  using batch_reach_inv [OF assms] batch_inv_out [OF batch_reach_inv [OF assms]] by (auto simp: batch_inv_def)

theorem batch_delivers_witness:
  "batch_finished sample_batch_end
   \<and> mset (ba_out sample_batch_end) = mset [(''a'', the (sample_batch_ask 0 ''a'' RT_A)), (''b'', Inl WorkerDropped)]"
proof -
  have "batch_width 1 = 2" by (simp add: batch_width_def)
  moreover have fin: "batch_finished sample_batch_end \<and> \<not> is_poisoned (ba_hosts sample_batch_end)"
    by (simp add: sample_batch_end_def batch_finished_def)
  ultimately have "mset (ba_out sample_batch_end) = mset (batch_results sample_batch_ask sample_batch_args sample_items)"
    using batch_delivers [of sample_batch_ask sample_batch_args 1 sample_items sample_batch_end] sample_batch_run by simp
  moreover have "batch_results sample_batch_ask sample_batch_args sample_items
      = [(''a'', the (sample_batch_ask 0 ''a'' RT_A)), (''b'', Inl WorkerDropped)]"
    by (simp add: batch_results_def sample_items_def call_result_def batch_keep_def sample_batch_args_def sample_batch_ask_def)
  ultimately show ?thesis using fin by simp
qed

end
