(* ===== verification/Client.thy ===== *)
theory Client
  imports System Cache Resolver
begin

text \<open>
  \<open>src/client.rs\<close>: building a client, starting its workers at first use, and \<open>resolve_full\<close>, the
  lookup with its cache and its retries. What the operating system, the semaphore and the LRU map
  do comes in the record \<open>host\<close>. How one attempt ends (the queue refuses it, the worker drops its
  reply channel, or a reply comes back) is an argument of the lookup: it is the workers' doing,
  which the theory of the running system is about. Beside the result, a lookup returns how many
  items it put on the queue.
\<close>

section \<open>Construction\<close>

definition PERSISTENT_INFLIGHT_LIMIT :: usize where "PERSISTENT_INFLIGHT_LIMIT = 32"

record ('s, 'c) BlastDNSClient =
  bc_resolvers :: "SocketAddr list"
  bc_sys :: "'s sys"
  bc_config :: BlastDNSConfig
  bc_queue_capacity :: usize
  bc_workers_spawned :: bool
  bc_cache :: "'c SimpleCache option"

record ('os, 's, 'c) host =
  ho_rlimit :: "'os rlimit_ops"
  ho_last_os_error :: string
  ho_system_conf :: "string + SocketAddr list"
  ho_hash_collect :: "IpAddr list \<Rightarrow> IpAddr list"
  ho_sem :: "'s sem_ops"
  ho_lru :: "'c cache_lru"

definition show_usize :: "usize \<Rightarrow> string" where
  "show_usize n = show_int 10 (uint n)"

definition ulimit_message :: "string \<Rightarrow> usize \<Rightarrow> usize \<Rightarrow> bool \<Rightarrow> ulimit_error \<Rightarrow> string" where
  "ulimit_message os_error concurrency resolvers persistent e =
     (case e of
        ReadFailed \<Rightarrow> ''failed to read RLIMIT_NOFILE''
      | RaiseFailed soft hard \<Rightarrow>
          ''failed to raise RLIMIT_NOFILE to hard limit (soft='' @ show_usize soft @ '', hard='' @ show_usize hard
          @ ''): '' @ os_error
      | RereadFailed \<Rightarrow> ''failed to re-read RLIMIT_NOFILE after raising it''
      | LimitTooLow current required \<Rightarrow>
          let driver = (if persistent
                        then ''persistent sockets for '' @ show_usize resolvers @ '' resolvers plus max_concurrency ''
                             @ show_usize concurrency
                        else ''max_concurrency of '' @ show_usize concurrency)
          in ''NOFILE limit too low even after raising soft limit: current='' @ show_usize current
             @ '', required='' @ show_usize required @ [CHR 10] @ driver @ '' needs ~'' @ show_usize required
             @ '' FDs'' @ [CHR 10] @ ''Increase with: ulimit -n '' @ show_usize required
             @ '' (or higher), or lower max_concurrency'')"

definition persistent_message :: "usize \<Rightarrow> string" where
  "persistent_message inflight =
     ''max_inflight_per_resolver of '' @ show_usize inflight @ '' exceeds the '' @ show_usize PERSISTENT_INFLIGHT_LIMIT
     @ '' a persistent socket can carry before its transport blocks; lower it or set persistent_socket=false''"

definition rate_ceiling :: "BlastDNSConfig \<Rightarrow> f64" where
  "rate_ceiling config = (case rate_limit config of Some r \<Rightarrow> r | None \<Rightarrow> UNLIMITED_QPS)"

text \<open>The addresses to use: those given, or the system's, each with the DNS port appended.\<close>

definition resolver_inputs :: "('os, 's, 'c) host \<Rightarrow> string list \<Rightarrow> BlastDNSError + string list" where
  "resolver_inputs h resolvers =
     (if resolvers = []
      then map_sum id (map (\<lambda>ip. show_ip ip @ '':53'')) (get_system_resolvers (ho_system_conf h) (ho_hash_collect h))
      else Inr resolvers)"

definition idle_sys :: "'s sem_ops \<Rightarrow> 's ResolverPool \<Rightarrow> RateLimiter \<Rightarrow> usize \<Rightarrow> 's sys" where
  "idle_sys S pool limiter queue_capacity =
     \<lparr>sy_shared = \<lparr>sh_pool = pool, sh_limiter = limiter, sh_pacer = AttemptPacer_new S, sh_completed = 0, sh_failed = 0\<rparr>,
      sy_controller = None, sy_queue = [], sy_capacity = unat queue_capacity, sy_workers = [], sy_issued = 0,
      sy_answers = []\<rparr>"

definition with_config ::
  "('os, 's, 'c) host \<Rightarrow> string list \<Rightarrow> BlastDNSConfig \<Rightarrow> instant \<Rightarrow> 'os
     \<Rightarrow> ((BlastDNSError + ('s, 'c) BlastDNSClient) \<times> 'os) option" where
  "with_config h resolvers config now os =
     (case resolver_inputs h resolvers of
        Inl e \<Rightarrow> Some (Inl e, os)
      | Inr inputs \<Rightarrow>
          (case collect_results (map parse_resolver inputs) of
             Inl e \<Rightarrow> Some (Inl e, os)
           | Inr parsed \<Rightarrow>
               if persistent_socket config \<and> PERSISTENT_INFLIGHT_LIMIT < max_inflight_per_resolver config
               then Some (Inl (Configuration (persistent_message (max_inflight_per_resolver config))), os)
               else
                 let queue_capacity = max (max_concurrency config) 1;
                     n = of_nat (length parsed)
                 in case check_ulimits (ho_rlimit h) queue_capacity n (persistent_socket config) os of
                      (Inl e, os') \<Rightarrow>
                        Some (Inl (Configuration (ulimit_message (ho_last_os_error h) queue_capacity n
                                                    (persistent_socket config) e)), os')
                    | (Inr _, os') \<Rightarrow>
                        (case ResolverPool_new (ho_sem h) parsed config now now of
                           None \<Rightarrow> None
                         | Some pool \<Rightarrow>
                             (case RateLimiter_new (rate_ceiling config) now of
                                None \<Rightarrow> None
                              | Some limiter \<Rightarrow>
                                  Some (Inr \<lparr>bc_resolvers = parsed,
                                             bc_sys = idle_sys (ho_sem h) pool limiter queue_capacity,
                                             bc_config = config, bc_queue_capacity = queue_capacity,
                                             bc_workers_spawned = False,
                                             bc_cache = (if 0 < cache_capacity config
                                                         then Some (SimpleCache_new (ho_lru h) (cache_capacity config)
                                                                      (cache_min_ttl config) (cache_max_ttl config))
                                                         else None)\<rparr>, os')))))"

definition client_new ::
  "('os, 's, 'c) host \<Rightarrow> string list \<Rightarrow> instant \<Rightarrow> 'os \<Rightarrow> ((BlastDNSError + ('s, 'c) BlastDNSClient) \<times> 'os) option" where
  "client_new h resolvers now os = with_config h resolvers config_default now os"

definition client_resolvers :: "('s, 'c) BlastDNSClient \<Rightarrow> string list" where
  "client_resolvers c = map show_socket_addr (bc_resolvers c)"

definition client_stats :: "('s, 'c) BlastDNSClient \<Rightarrow> ResolverStats list" where
  "client_stats c = pool_stats (sh_pool (sy_shared (bc_sys c)))"

definition get_concurrency :: "('s, 'c) BlastDNSClient \<Rightarrow> usize" where
  "get_concurrency c = max (bc_queue_capacity c) 1"

section \<open>Starting the workers\<close>

definition start_sys :: "'s sem_ops \<Rightarrow> connector \<Rightarrow> query_end list \<Rightarrow> BlastDNSConfig \<Rightarrow> 's sys \<Rightarrow> 's sys" where
  "start_sys S cn outs config y =
     (let s = sy_shared y;
          concurrency = max (max_concurrency config) 1;
          pool = (if resolver_probe config then snd (pool_probe cn outs (sh_pool s)) else sh_pool s);
          controller = (if adaptive config
                        then Some (AdaptiveController_new (length (rp_resolvers pool)) (rate_ceiling config))
                        else None)
      in (worker_spawn ^^ unat concurrency)
           (y\<lparr>sy_shared := s\<lparr>sh_pool := pool, sh_pacer := AttemptPacer_new S\<rparr>, sy_controller := controller\<rparr>))"

definition ensure_workers ::
  "'s sem_ops \<Rightarrow> connector \<Rightarrow> query_end list \<Rightarrow> ('s, 'c) BlastDNSClient \<Rightarrow> ('s, 'c) BlastDNSClient" where
  "ensure_workers S cn outs c =
     (if bc_workers_spawned c then c
      else c\<lparr>bc_sys := start_sys S cn outs (bc_config c) (bc_sys c), bc_workers_spawned := True\<rparr>)"

section \<open>Lookups\<close>

definition answers_the_question :: "DnsResponse \<Rightarrow> bool" where
  "answers_the_question response \<longleftrightarrow> dr_response_code response = NoError \<or> dr_response_code response = NXDomain"

text \<open>How sending one work item and waiting for its reply ends.\<close>

datatype sent = Closed | Dropped | Replied result

definition reply_of :: "sent \<Rightarrow> result" where
  "reply_of r = (case r of Closed \<Rightarrow> Inl QueueClosed | Dropped \<Rightarrow> Inl WorkerDropped | Replied x \<Rightarrow> x)"

record ('s, 'c) lookup_env =
  le_sem :: "'s sem_ops"
  le_connector :: connector
  le_probe_replies :: "query_end list"
  le_lru :: "'c cache_lru"
  le_parse_name :: "string \<Rightarrow> Name option"

definition cached_response ::
  "('s, 'c) lookup_env \<Rightarrow> string \<Rightarrow> RecordType \<Rightarrow> instant \<Rightarrow> ('s, 'c) BlastDNSClient
     \<Rightarrow> DnsResponse option \<times> ('s, 'c) BlastDNSClient" where
  "cached_response e host rt now c =
     (case (bc_cache c, le_parse_name e host) of
        (Some sc, Some name) \<Rightarrow>
          (case cache_get (le_lru e) (name, rt) now sc of (r, sc') \<Rightarrow> (r, c\<lparr>bc_cache := Some sc'\<rparr>))
      | _ \<Rightarrow> (None, c))"

definition cache_response ::
  "('s, 'c) lookup_env \<Rightarrow> string \<Rightarrow> RecordType \<Rightarrow> DnsResponse \<Rightarrow> instant \<Rightarrow> ('s, 'c) BlastDNSClient
     \<Rightarrow> ('s, 'c) BlastDNSClient option" where
  "cache_response e host rt resp now c =
     (case bc_cache c of
        None \<Rightarrow> Some c
      | Some sc \<Rightarrow>
          if dr_answers resp = [] then Some c
          else case le_parse_name e host of
                 None \<Rightarrow> Some c
               | Some name \<Rightarrow> map_option (\<lambda>k. c\<lparr>bc_cache := Some k\<rparr>) (cache_insert (le_lru e) (name, rt) resp now sc))"

definition on_shared :: "('s shared \<Rightarrow> 's shared) \<Rightarrow> ('s, 'c) BlastDNSClient \<Rightarrow> ('s, 'c) BlastDNSClient" where
  "on_shared f c = c\<lparr>bc_sys := (bc_sys c)\<lparr>sy_shared := f (sy_shared (bc_sys c))\<rparr>\<rparr>"

function resolve_attempts ::
  "('s, 'c) lookup_env \<Rightarrow> (nat \<Rightarrow> sent) \<Rightarrow> string \<Rightarrow> RecordType \<Rightarrow> instant \<Rightarrow> nat \<Rightarrow> nat
     \<Rightarrow> ('s, 'c) BlastDNSClient \<Rightarrow> (result \<times> nat \<times> ('s, 'c) BlastDNSClient) option" where
  "resolve_attempts e replies host rt now attempts attempt c =
     (if attempts \<le> attempt then Some (Inl WorkerDropped, attempt, c)
      else
        let again = resolve_attempts e replies host rt now attempts (attempt + 1) c
        in case replies attempt of
             Closed \<Rightarrow> Some (Inl QueueClosed, attempt + 1, c)
           | r \<Rightarrow>
               (case reply_of r of
                  Inr resp \<Rightarrow>
                    if \<not> answers_the_question resp \<and> attempt + 1 < attempts then again
                    else map_option (\<lambda>c. (Inr resp, attempt + 1, on_shared count_completed c))
                           (cache_response e host rt resp now c)
                | Inl err \<Rightarrow>
                    if attempt + 1 = attempts \<or> \<not> is_retryable err
                    then Some (Inl err, attempt + 1, if is_congestion_evidence err then on_shared count_failed c else c)
                    else again))"
  by pat_completeness auto
termination
  by (relation "measure (\<lambda>(e, replies, host, rt, now, attempts, attempt, c). attempts - attempt)") auto

declare resolve_attempts.simps [simp del]

definition resolve_full ::
  "('s, 'c) lookup_env \<Rightarrow> (nat \<Rightarrow> sent) \<Rightarrow> string \<Rightarrow> RecordType \<Rightarrow> instant \<Rightarrow> instant
     \<Rightarrow> ('s, 'c) BlastDNSClient \<Rightarrow> (result \<times> nat \<times> ('s, 'c) BlastDNSClient) option" where
  "resolve_full e replies host0 rt asked answered c0 =
     (let host = (if rt = RT_PTR then format_ptr_query host0 else host0);
          c = ensure_workers (le_sem e) (le_connector e) (le_probe_replies e) c0
      in case cached_response e host rt asked c of
           (Some response, c') \<Rightarrow> Some (Inr response, 0, c')
         | (None, c') \<Rightarrow>
             let attempts = unat (saturating_add (max_retries (bc_config c')) 1)
             in resolve_attempts e replies host rt answered attempts 0 c')"

section \<open>The retry loop\<close>

text \<open>Replies that settle a lookup, and what a settled lookup leaves behind.\<close>

definition decisive :: "sent \<Rightarrow> bool" where
  "decisive r =
     (case r of Closed \<Rightarrow> True | Dropped \<Rightarrow> False
      | Replied (Inr resp) \<Rightarrow> answers_the_question resp | Replied (Inl e) \<Rightarrow> \<not> is_retryable e)"

definition settled ::
  "('s, 'c) lookup_env \<Rightarrow> string \<Rightarrow> RecordType \<Rightarrow> instant \<Rightarrow> result \<Rightarrow> ('s, 'c) BlastDNSClient
     \<Rightarrow> ('s, 'c) BlastDNSClient option" where
  "settled e host rt now r c =
     (case r of
        Inr resp \<Rightarrow> map_option (on_shared count_completed) (cache_response e host rt resp now c)
      | Inl err \<Rightarrow> Some (if is_congestion_evidence err then on_shared count_failed c else c))"

lemma resolve_attempts_again:
  assumes "attempt + 1 < attempts" and "\<not> decisive (replies attempt)"
  shows "resolve_attempts e replies host rt now attempts attempt c
    = resolve_attempts e replies host rt now attempts (attempt + 1) c"
  using assms
  by (subst resolve_attempts.simps) (auto simp: decisive_def reply_of_def Let_def split: sent.splits sum.splits)

lemma resolve_attempts_stop:
  assumes "attempt < attempts" and "decisive (replies attempt) \<or> attempt + 1 = attempts"
  shows "resolve_attempts e replies host rt now attempts attempt c
    = map_option (\<lambda>c'. (reply_of (replies attempt), attempt + 1, c')) (settled e host rt now (reply_of (replies attempt)) c)"
proof -
  have "\<not> is_congestion_evidence QueueClosed" "is_retryable WorkerDropped" by (simp_all add: is_congestion_evidence_def)
  then show ?thesis using assms
    by (subst resolve_attempts.simps)
      (auto simp: decisive_def reply_of_def settled_def Let_def option.map_comp o_def split: sent.splits sum.splits)
qed

text \<open>The loop stops at the first decisive reply, or at the last attempt.\<close>

lemma resolve_attempts_spec:
  assumes "attempt < attempts"
  shows "\<exists>n. attempt \<le> n \<and> n < attempts \<and> (\<forall>i. attempt \<le> i \<and> i < n \<longrightarrow> \<not> decisive (replies i))
    \<and> (decisive (replies n) \<or> n + 1 = attempts)
    \<and> resolve_attempts e replies host rt now attempts attempt c
        = map_option (\<lambda>c'. (reply_of (replies n), n + 1, c')) (settled e host rt now (reply_of (replies n)) c)"
  using assms
proof (induction "attempts - attempt" arbitrary: attempt)
  case (Suc m)
  show ?case
  proof (cases "decisive (replies attempt) \<or> attempt + 1 = attempts")
    case True
    then show ?thesis using resolve_attempts_stop [of attempt attempts replies e host rt now c] Suc.prems
      by (intro exI [of _ attempt]) auto
  next
    case False
    with Suc.prems have "attempt + 1 < attempts" by linarith
    moreover have "m = attempts - (attempt + 1)" using Suc.hyps(2) by linarith
    ultimately obtain n where "attempt + 1 \<le> n" "n < attempts" "\<forall>i. attempt + 1 \<le> i \<and> i < n \<longrightarrow> \<not> decisive (replies i)"
      "decisive (replies n) \<or> n + 1 = attempts"
      "resolve_attempts e replies host rt now attempts (attempt + 1) c
        = map_option (\<lambda>c'. (reply_of (replies n), n + 1, c')) (settled e host rt now (reply_of (replies n)) c)"
      using Suc.hyps(1) by blast
    moreover have "\<not> decisive (replies i)" if "attempt \<le> i" "i < n" for i
      using that False calculation(3) by (cases "i = attempt") auto
    ultimately show ?thesis
      using resolve_attempts_again [of attempt attempts replies e host rt now c] False \<open>attempt + 1 < attempts\<close>
      by (intro exI [of _ n]) auto
  qed
qed simp

lemma attempts_pos: "0 < unat (saturating_add (r :: u64) 1)"
  by (simp add: u64_simps)

section \<open>What a lookup changes\<close>

lemma on_shared_simps [simp]:
  "bc_cache (on_shared f c) = bc_cache c" "bc_config (on_shared f c) = bc_config c"
  "sy_shared (bc_sys (on_shared f c)) = f (sy_shared (bc_sys c))" "bc_resolvers (on_shared f c) = bc_resolvers c"
  "bc_workers_spawned (on_shared f c) = bc_workers_spawned c"
  by (simp_all add: on_shared_def)

lemma cached_response_frame [simp]:
  "bc_sys (snd (cached_response e host rt now c)) = bc_sys c"
  "bc_config (snd (cached_response e host rt now c)) = bc_config c"
  "bc_workers_spawned (snd (cached_response e host rt now c)) = bc_workers_spawned c"
  by (auto simp: cached_response_def split: option.splits prod.splits)

lemma cache_response_frame:
  assumes "cache_response e host rt resp now c = Some c'"
  shows "bc_sys c' = bc_sys c" "bc_config c' = bc_config c" "bc_workers_spawned c' = bc_workers_spawned c"
  using assms by (auto simp: cache_response_def split: option.splits if_splits)

lemma ensure_workers_simps [simp]:
  "bc_workers_spawned (ensure_workers S cn outs c)" "bc_config (ensure_workers S cn outs c) = bc_config c"
  "bc_cache (ensure_workers S cn outs c) = bc_cache c"
  "bc_workers_spawned c \<Longrightarrow> ensure_workers S cn outs c = c"
  "sh_completed (sy_shared (bc_sys (ensure_workers S cn outs c))) = sh_completed (sy_shared (bc_sys c))"
  "sh_failed (sy_shared (bc_sys (ensure_workers S cn outs c))) = sh_failed (sy_shared (bc_sys c))"
  by (simp_all add: ensure_workers_def start_sys_def worker_spawn_many Let_def)

text \<open>Lifetime bounds the right way round: then nothing a lookup does can panic.\<close>

definition ttls_ok :: "('s, 'c) BlastDNSClient \<Rightarrow> bool" where
  "ttls_ok c \<longleftrightarrow> (\<forall>k. bc_cache c = Some k \<longrightarrow> sc_min_ttl k \<le> sc_max_ttl k)"

lemma settled_total: "ttls_ok c \<Longrightarrow> \<exists>c'. settled e host rt now r c = Some c'"
  by (auto simp: settled_def cache_response_def ttls_ok_def cache_insert_cases split: sum.split option.splits)

lemma ttls_ok_cached: "ttls_ok c \<Longrightarrow> ttls_ok (snd (cached_response e host rt now c))"
  by (auto simp: ttls_ok_def cached_response_def frame dest!: sym [of "cache_get _ _ _ _"] split: option.splits prod.splits)
    (metis cache_ttls_frame(2,3) snd_conv)

abbreviation lookup_host :: "RecordType \<Rightarrow> string \<Rightarrow> string" where
  "lookup_host rt host \<equiv> (if rt = RT_PTR then format_ptr_query host else host)"

abbreviation started :: "('s, 'c) lookup_env \<Rightarrow> ('s, 'c) BlastDNSClient \<Rightarrow> ('s, 'c) BlastDNSClient" where
  "started e c \<equiv> ensure_workers (le_sem e) (le_connector e) (le_probe_replies e) c"

lemma resolve_full_hit:
  "cached_response e (lookup_host rt host) rt asked (started e c) = (Some r, c')
     \<Longrightarrow> resolve_full e replies host rt asked answered c = Some (Inr r, 0, c')"
  by (simp add: resolve_full_def Let_def)

lemma resolve_full_miss:
  assumes "cached_response e (lookup_host rt host) rt asked (started e c) = (None, c1)"
  shows "\<exists>n < unat (saturating_add (max_retries (bc_config c)) 1).
      (\<forall>i < n. \<not> decisive (replies i)) \<and> (decisive (replies n) \<or> n + 1 = unat (saturating_add (max_retries (bc_config c)) 1))
      \<and> resolve_full e replies host rt asked answered c
          = map_option (\<lambda>c'. (reply_of (replies n), n + 1, c')) (settled e (lookup_host rt host) rt answered (reply_of (replies n)) c1)"
proof -
  have "bc_config c1 = bc_config c" using cached_response_frame(2) [of e "lookup_host rt host" rt asked "started e c"] assms by simp
  then show ?thesis
    using resolve_attempts_spec [OF attempts_pos, of "max_retries (bc_config c)" replies e "lookup_host rt host" rt answered c1] assms
    by (auto simp: resolve_full_def Let_def)
qed

section \<open>Starting the workers\<close>

lemma query_within_keeps:
  "rh_inflight (snd (query_within cn h out d)) = rh_inflight h" "rh_limiter (snd (query_within cn h out d)) = rh_limiter h"
  "outstanding (snd (query_within cn h out d)) = outstanding h"
  using query_within_frame [of cn h out d] by (cases "query_within cn h out d"; auto simp: outstanding_def frame)+

lemma health_probe_keeps:
  "rh_inflight (snd (health_probe cn out h)) = rh_inflight h" "rh_limiter (snd (health_probe cn out h)) = rh_limiter h"
  "outstanding (snd (health_probe cn out h)) = outstanding h"
  using query_within_keeps [of cn h out "max (rh_request_timeout h) PROBE_DEADLINE_FLOOR"]
  by (auto simp: health_probe_def Let_def outstanding_def outcomes_of_def split: prod.splits sum.splits)

lemma pool_probe_resolvers:
  assumes "length outs = length (rp_resolvers pool)"
  shows "length (rp_resolvers (snd (pool_probe cn outs pool))) = length (rp_resolvers pool)"
    and "k < length (rp_resolvers pool) \<Longrightarrow>
      rp_resolvers (snd (pool_probe cn outs pool)) ! k = snd (health_probe cn (outs ! k) (rp_resolvers pool ! k))"
  using assms by (simp_all add: pool_probe_def Let_def)

text \<open>A resolver nothing has been sent to, as \<open>ResolverHealth::new\<close> makes it.\<close>

definition untouched :: "'s sem_ops \<Rightarrow> nat \<Rightarrow> 's ResolverHealth \<Rightarrow> bool" where
  "untouched S cap h \<longleftrightarrow> free_permits S h = cap \<and> outstanding h = 0 \<and> rl_interval_ns (rh_limiter h) = 1"

lemma untouched_new:
  assumes "semaphore S" and "ResolverHealth_new S a config st now = Some h"
  shows "untouched S (unat (max (max_inflight_per_resolver config) 1)) h"
  using ResolverHealth_new_fields [OF assms(2)] semaphore.available_new [OF assms(1)]
  by (simp add: untouched_def free_permits_def outstanding_def)

lemma untouched_probe: "untouched S cap h \<Longrightarrow> untouched S cap (snd (health_probe cn out h))"
  by (simp add: untouched_def free_permits_def health_probe_keeps)

lemma untouched_pool:
  assumes "semaphore S" and "ResolverPool_new S addrs config st now = Some pool"
  shows "\<forall>h \<in> set (rp_resolvers pool). untouched S (unat (max (max_inflight_per_resolver config) 1)) h"
  using untouched_new [OF assms(1)] ResolverPool_new_fields(1,4) [OF assms(2)] by (metis in_set_conv_nth)

lemma untouched_pool_probe:
  assumes "\<forall>h \<in> set (rp_resolvers pool). untouched S cap h" and "length outs = length (rp_resolvers pool)"
  shows "\<forall>h \<in> set (rp_resolvers (snd (pool_probe cn outs pool))). untouched S cap h"
  using assms untouched_probe pool_probe_resolvers [OF assms(2)] by (metis in_set_conv_nth)

text \<open>What a successful construction yields, stage by stage.\<close>

lemma with_config_Inr:
  assumes "with_config h resolvers config now os = Some (Inr c, os')"
  obtains inputs parsed pool limiter where
    "resolver_inputs h resolvers = Inr inputs" "map parse_resolver inputs = map Inr parsed"
    "\<not> (persistent_socket config \<and> PERSISTENT_INFLIGHT_LIMIT < max_inflight_per_resolver config)"
    "check_ulimits (ho_rlimit h) (max (max_concurrency config) 1) (of_nat (length parsed)) (persistent_socket config) os = (Inr (), os')"
    "ResolverPool_new (ho_sem h) parsed config now now = Some pool" "RateLimiter_new (rate_ceiling config) now = Some limiter"
    "bc_resolvers c = parsed" "bc_sys c = idle_sys (ho_sem h) pool limiter (max (max_concurrency config) 1)"
    "bc_config c = config" "bc_queue_capacity c = max (max_concurrency config) 1" "\<not> bc_workers_spawned c"
    "bc_cache c = (if 0 < cache_capacity config
       then Some (SimpleCache_new (ho_lru h) (cache_capacity config) (cache_min_ttl config) (cache_max_ttl config)) else None)"
  using assms
  by (auto simp: with_config_def Let_def collect_results_Inr_iff split: sum.splits if_splits option.splits prod.splits)

lemma start_sys_fresh:
  assumes "semaphore S" and "ev_sem e = S" and "ResolverPool_new S addrs config st now = Some pool"
    and "length outs = length addrs"
  shows "sys_fresh e (unat (max (max_inflight_per_resolver config) 1)) (start_sys S cn outs config (idle_sys S pool limiter q))"
    and "length (resolvers_of (start_sys S cn outs config (idle_sys S pool limiter q))) = length addrs"
    and "\<forall>h \<in> set (resolvers_of (start_sys S cn outs config (idle_sys S pool limiter q))). rl_interval_ns (rh_limiter h) = 1"
proof -
  let ?cap = "unat (max (max_inflight_per_resolver config) 1)" and ?y = "start_sys S cn outs config (idle_sys S pool limiter q)"
  have len: "length outs = length (rp_resolvers pool)" "length addrs = length (rp_resolvers pool)"
    using ResolverPool_new_fields(1) [OF assms(3)] assms(4) by simp_all
  have rs: "resolvers_of ?y = (if resolver_probe config then rp_resolvers (snd (pool_probe cn outs pool)) else rp_resolvers pool)"
    by (simp add: start_sys_def worker_spawn_many idle_sys_def Let_def)
  have unt: "\<forall>h \<in> set (resolvers_of ?y). untouched S ?cap h"
    using untouched_pool [OF assms(1,3)] untouched_pool_probe [OF _ len(1)] unfolding rs by auto
  show "length (resolvers_of ?y) = length addrs" unfolding rs using len pool_probe_resolvers(1) [OF len(1), of cn] by simp
  show "\<forall>h \<in> set (resolvers_of ?y). rl_interval_ns (rh_limiter h) = 1" using unt by (simp add: untouched_def)
  have "ap_waiting (sh_pacer (sy_shared ?y)) = 0" "sy_queue ?y = []" "sy_issued ?y = 0" "sy_answers ?y = []"
    "\<forall>p \<in> set (sy_workers ?y). p = Idle"
    by (simp_all add: start_sys_def worker_spawn_many idle_sys_def Let_def AttemptPacer_new_def)
  then show "sys_fresh e ?cap ?y" using unt assms(2) by (simp add: sys_fresh_def untouched_def)
qed

text \<open>A client that was built and has started its workers is in a fresh state of the system.\<close>

lemma client_fresh:
  fixes cn :: connector
  assumes "semaphore (ho_sem h)" and "ev_sem e = ho_sem h"
    and c: "with_config h resolvers config now os = Some (Inr c, os')" and "length outs = length (bc_resolvers c)"
  defines "y \<equiv> bc_sys (ensure_workers (ho_sem h) cn outs c)"
  shows "sys_fresh e (unat (max (max_inflight_per_resolver config) 1)) y"
    and "length (resolvers_of y) = length (bc_resolvers c)"
    and "length (sy_workers y) = unat (max (max_concurrency config) 1)"
    and "shared_fresh (ho_sem h) (rate_ceiling config) (sy_shared y)"
    and "sy_controller y = (if adaptive config
           then Some (AdaptiveController_new (length (resolvers_of y)) (rate_ceiling config)) else None)"
proof -
  obtain pool limiter where pool: "ResolverPool_new (ho_sem h) (bc_resolvers c) config now now = Some pool"
    and lim: "RateLimiter_new (rate_ceiling config) now = Some limiter"
    and sys: "bc_sys c = idle_sys (ho_sem h) pool limiter (max (max_concurrency config) 1)"
    and cfg: "bc_config c = config" "\<not> bc_workers_spawned c"
    using c by (rule with_config_Inr) blast
  then have y: "y = start_sys (ho_sem h) cn outs config (idle_sys (ho_sem h) pool limiter (max (max_concurrency config) 1))"
    by (simp add: y_def ensure_workers_def)
  note fr = start_sys_fresh [OF assms(1,2) pool assms(4), of cn limiter "max (max_concurrency config) 1", folded y]
  show "sys_fresh e (unat (max (max_inflight_per_resolver config) 1)) y" "length (resolvers_of y) = length (bc_resolvers c)"
    by (rule fr)+
  show "length (sy_workers y) = unat (max (max_concurrency config) 1)"
    "sy_controller y = (if adaptive config
       then Some (AdaptiveController_new (length (resolvers_of y)) (rate_ceiling config)) else None)"
    by (simp_all add: y start_sys_def worker_spawn_many idle_sys_def Let_def)
  have "interval_for (rate_ceiling config) = Some (rl_interval_ns limiter)"
    using lim by (auto simp: RateLimiter_new_def)
  then show "shared_fresh (ho_sem h) (rate_ceiling config) (sy_shared y)"
    using fr(3) unfolding shared_fresh_def by (simp add: y start_sys_def worker_spawn_many idle_sys_def Let_def)
qed

section \<open>Properties\<close>

definition sample_host :: "(rlimit, nat, (Query, CacheEntry) lru_list) host" where
  "sample_host =
     \<lparr>ho_rlimit = proc_sys, ho_last_os_error = [], ho_system_conf = Inr [SocketAddr_new (V6 [0x2001, 0xdb8, 0, 0, 0, 0, 0, 1]) 53],
      ho_hash_collect = remdups, ho_sem = counting_sem, ho_lru = lru_list\<rparr>"

definition sample_rlimit :: rlimit where
  "sample_rlimit = \<lparr>rlim_cur = 1024, rlim_max = 4096\<rparr>"

definition sample_build :: "((BlastDNSError + (nat, (Query, CacheEntry) lru_list) BlastDNSClient) \<times> rlimit) option" where
  "sample_build = with_config sample_host [''192.0.2.1'', ''192.0.2.2:5353''] config_default 0 sample_rlimit"

definition sample_client :: "(nat, (Query, CacheEntry) lru_list) BlastDNSClient" where
  "sample_client = (case sample_build of Some (Inr c, _) \<Rightarrow> c | _ \<Rightarrow> undefined)"

lemma sample_build_Inr: "\<exists>os'. sample_build = Some (Inr sample_client, os')"
proof -
  have "(case sample_build of Some (Inr _, _) \<Rightarrow> True | _ \<Rightarrow> False)" by code_simp
  then obtain c os' where b: "sample_build = Some (Inr c, os')" by (auto split: option.splits sum.splits)
  show ?thesis unfolding sample_client_def b by simp
qed

lemma sample_client_cache:
  "bc_cache sample_client = Some (SimpleCache_new lru_list 10000 10000000000 86400000000000)"
  "bc_config sample_client = config_default" "length (bc_resolvers sample_client) = 2"
proof -
  obtain os' where "with_config sample_host [''192.0.2.1'', ''192.0.2.2:5353''] config_default 0 sample_rlimit = Some (Inr sample_client, os')"
    using sample_build_Inr by (auto simp: sample_build_def)
  then show "bc_cache sample_client = Some (SimpleCache_new lru_list 10000 10000000000 86400000000000)"
    "bc_config sample_client = config_default" "length (bc_resolvers sample_client) = 2"
    by (rule with_config_Inr;
        auto simp: config_default_def sample_host_def DEFAULT_CACHE_CAPACITY_def DEFAULT_CACHE_MIN_TTL_def
          DEFAULT_CACHE_MAX_TTL_def from_secs_def resolver_inputs_def dest: map_eq_imp_length_eq)+
qed

definition sample_lookup :: "(nat, (Query, CacheEntry) lru_list) lookup_env" where
  "sample_lookup =
     \<lparr>le_sem = counting_sem, le_connector = sample_connector, le_probe_replies = [], le_lru = lru_list, le_parse_name = Some\<rparr>"

text \<open>One resolver refuses, the next one answers.\<close>

definition sample_replies :: "nat \<Rightarrow> sent" where
  "sample_replies i = (if i = 0 then Replied (Inr (plain_response Refused [])) else Replied (Inr cached_answer))"

lemma sample_ttls_ok: "ttls_ok sample_client"
  by (simp add: ttls_ok_def sample_client_cache SimpleCache_new_def)

lemma sample_decisive: "\<not> decisive (sample_replies 0)" "decisive (sample_replies 1)"
  by (simp_all add: sample_replies_def decisive_def answers_the_question_def cached_answer_def)

lemma sample_miss: "fst (cached_response sample_lookup host rt now (started sample_lookup sample_client)) = None"
  by (simp add: cached_response_def sample_client_cache sample_lookup_def SimpleCache_new_def cache_get_def lru_list_def)

lemma resolve_full_settles:
  assumes "ttls_ok c" and "fst (cached_response e (lookup_host rt host) rt asked (started e c)) = None"
  shows "\<exists>n c'. resolve_full e replies host rt asked answered c = Some (reply_of (replies n), n + 1, c')
    \<and> n \<le> unat (max_retries (bc_config c)) \<and> (\<forall>i < n. \<not> decisive (replies i))
    \<and> (decisive (replies n) \<or> n + 1 = unat (saturating_add (max_retries (bc_config c)) 1))"
proof -
  let ?a = "unat (saturating_add (max_retries (bc_config c)) 1)"
  obtain c1 where c1: "cached_response e (lookup_host rt host) rt asked (started e c) = (None, c1)"
    using assms(2) by (cases "cached_response e (lookup_host rt host) rt asked (started e c)") auto
  from resolve_full_miss [OF this, of replies answered] obtain n where n: "n < ?a" "\<forall>i < n. \<not> decisive (replies i)"
      "decisive (replies n) \<or> n + 1 = ?a"
      "resolve_full e replies host rt asked answered c
         = map_option (\<lambda>c'. (reply_of (replies n), n + 1, c')) (settled e (lookup_host rt host) rt answered (reply_of (replies n)) c1)"
    by blast
  have "ttls_ok (started e c)" using assms(1) by (simp add: ttls_ok_def)
  from ttls_ok_cached [OF this, of e "lookup_host rt host" rt asked] have "ttls_ok c1" by (simp add: c1)
  then obtain c' where "settled e (lookup_host rt host) rt answered (reply_of (replies n)) c1 = Some c'"
    using settled_total by blast
  moreover have "n \<le> unat (max_retries (bc_config c))" using n(1) by (simp add: u64_simps)
  ultimately show ?thesis using n by auto
qed

section \<open>The client as a resolver\<close>

text \<open>
  The calls a method of the trait makes run side by side on the same client, so each finds it in a
  state of its own, with its own replies and times.
\<close>

record ('s, 'c) call =
  ca_client :: "('s, 'c) BlastDNSClient"
  ca_replies :: "nat \<Rightarrow> sent"
  ca_asked :: instant
  ca_answered :: instant

definition client_ask :: "('s, 'c) lookup_env \<Rightarrow> (nat \<Rightarrow> ('s, 'c) call) \<Rightarrow> Resolver.lookup" where
  "client_ask e calls i host rt =
     map_option fst (resolve_full e (ca_replies (calls i)) host rt (ca_asked (calls i)) (ca_answered (calls i)) (ca_client (calls i)))"

interpretation client: dns_resolver "client_ask e calls" for e calls
  by unfold_locales (simp add: client_ask_def resolve_full_def)

lemma resolve_full_returns:
  assumes "ttls_ok c"
  shows "resolve_full e replies host rt asked answered c \<noteq> None"
proof (cases "fst (cached_response e (lookup_host rt host) rt asked (started e c))")
  case None
  then show ?thesis using resolve_full_settles [OF assms None, of replies answered] by auto
next
  case (Some resp)
  then show ?thesis using resolve_full_hit [of e rt host asked c resp]
    by (cases "cached_response e (lookup_host rt host) rt asked (started e c)") auto
qed

lemma client_batch:
  assumes "\<And>i. ttls_ok (ca_client (calls i))" and "0 < batch_width concurrency"
  shows "batch_resolver (client_ask e calls) concurrency"
  using assms by unfold_locales (simp_all add: client_ask_def resolve_full_returns)

lemma batch_width_pos: "0 < unat concurrency \<Longrightarrow> unat concurrency < 2 ^ 63 \<Longrightarrow> batch_width concurrency = 2 * unat concurrency"
  by (simp add: batch_width_def unat_word_ariths)



text \<open>
  Outcomes are counted once per lookup, and only where the lookup says something about the
  path. A response, whatever its code, counts as completed; an error that is evidence about the path
  counts as completed and failed; a name that would not parse, a closed queue and the like count as
  neither, and so does an answer from the cache.
\<close>

theorem resolve_full_outcomes:
  assumes "resolve_full e replies host rt asked answered c = Some (r, sends, c')"
  shows "let s = sy_shared (bc_sys c); s' = sy_shared (bc_sys c');
      counts = (0 < sends \<and> (case r of Inr _ \<Rightarrow> True | Inl err \<Rightarrow> is_congestion_evidence err));
      lost = (0 < sends \<and> (case r of Inr _ \<Rightarrow> False | Inl err \<Rightarrow> is_congestion_evidence err))
    in sh_completed s' = sh_completed s + of_bool counts \<and> sh_failed s' = sh_failed s + of_bool lost"
proof (cases "cached_response e (lookup_host rt host) rt asked (started e c)")
  case (Pair hit c1)
  have s1: "sh_completed (sy_shared (bc_sys c1)) = sh_completed (sy_shared (bc_sys c))"
    "sh_failed (sy_shared (bc_sys c1)) = sh_failed (sy_shared (bc_sys c))"
    using cached_response_frame(1) [of e "lookup_host rt host" rt asked "started e c"] by (simp_all add: Pair)
  show ?thesis
  proof (cases hit)
    case None
    from resolve_full_miss [OF Pair [unfolded None], of replies answered] obtain n where
      "resolve_full e replies host rt asked answered c
         = map_option (\<lambda>c'. (reply_of (replies n), n + 1, c')) (settled e (lookup_host rt host) rt answered (reply_of (replies n)) c1)"
      by blast
    then have "r = reply_of (replies n)" "sends = n + 1" "settled e (lookup_host rt host) rt answered r c1 = Some c'"
      using assms by (cases "settled e (lookup_host rt host) rt answered (reply_of (replies n)) c1"; simp)+
    then show ?thesis using cache_response_frame(1) [of e "lookup_host rt host" rt _ answered c1] s1
      by (auto simp: settled_def Let_def count_completed_def count_failed_def split: sum.splits if_splits)
  next
    case (Some resp)
    then have "sends = 0" "c' = c1" using resolve_full_hit [of e rt host asked c resp c1] Pair assms by auto
    then show ?thesis by (simp add: Let_def s1)
  qed
qed

theorem resolve_full_outcomes_witness:
  "\<exists>c'. resolve_full sample_lookup (\<lambda>_. Dropped) ''a.'' RT_A 1 2 sample_client = Some (Inl WorkerDropped, 11, c')
     \<and> sh_failed (sy_shared (bc_sys c')) = sh_failed (sy_shared (bc_sys sample_client)) + 1"
proof -
  have a: "unat (saturating_add (max_retries (bc_config sample_client)) 1) = 11"
    by (simp add: sample_client_cache) code_simp
  from resolve_full_settles [OF sample_ttls_ok, of sample_lookup RT_A "''a.''" 1 "\<lambda>_. Dropped" 2] sample_miss
  obtain n c' where n: "resolve_full sample_lookup (\<lambda>_. Dropped) ''a.'' RT_A 1 2 sample_client = Some (reply_of Dropped, n + 1, c')"
    "n + 1 = unat (saturating_add (max_retries (bc_config sample_client)) 1)" by (auto simp: decisive_def)
  then have "resolve_full sample_lookup (\<lambda>_. Dropped) ''a.'' RT_A 1 2 sample_client = Some (Inl WorkerDropped, 11, c')"
    unfolding a by (simp add: reply_of_def)
  from resolve_full_outcomes [OF this] this show ?thesis
    by (auto simp: Let_def is_congestion_evidence_def)
qed






text \<open>
  C32. Asking for several record types at once is asking for each. No type at all is a configuration
  error; otherwise the result has exactly the types asked for, and for each the result the lookup of
  that type returned (its last one, if the type was listed twice). The short form keeps a type exactly
  when that lookup gave answers. Formatting a reverse query before the lookup formats it again does no
  harm.
\<close>

theorem resolve_multi_agrees:
  assumes "\<And>i. ttls_ok (ca_client (calls i))"
  shows "(rts = [] \<longrightarrow> resolve_multi_full (client_ask e calls) host rts
             = Some (Inl (Configuration ''at least one record type is required'')))
    \<and> (rts \<noteq> [] \<longrightarrow> (\<exists>m. resolve_multi_full (client_ask e calls) host rts = Some (Inr m) \<and> dom m = set rts
          \<and> resolve_multi (client_ask e calls) host rts = Some (Inr (\<lambda>rt. Option.bind (m rt) non_empty_answers))
          \<and> (\<forall>i < length rts. (\<forall>j. i < j \<and> j < length rts \<longrightarrow> rts ! j \<noteq> rts ! i)
                \<longrightarrow> m (rts ! i) = client_ask e calls i host (rts ! i))))"
proof (cases "rts = []")
  case False
  have "client_ask e calls i host rt \<noteq> None" for i host rt
    using resolve_full_returns [OF assms] by (simp add: client_ask_def)
  from client.multi_full_agrees [OF False this, of host] show ?thesis
    using client.multi_answers [of e calls host rts] False by metis
qed (simp add: resolve_multi_full_def)

text \<open>
  A batch over a client comes to its end. From every state it can get into, the batch can be
  carried on until the stream ends, and no schedule can keep it busy for ever: a step either changes
  nothing or lowers a measure that starts at six times the number of items plus three.
\<close>

theorem client_batch_ends:
  assumes "\<And>i. ttls_ok (ca_client (calls i))" and "0 < unat concurrency" and "unat concurrency < 2 ^ 63"
    and "(resolve_batch_full (client_ask e calls) a (batch_width concurrency))\<^sup>*\<^sup>* (batch_start items) b"
  shows "(\<exists>b'. (resolve_batch_full (client_ask e calls) a (batch_width concurrency))\<^sup>*\<^sup>* b b' \<and> batch_finished b')
    \<and> (\<forall>b'. resolve_batch_full (client_ask e calls) a (batch_width concurrency) b b' \<longrightarrow> b' = b \<or> batch_weight b' < batch_weight b)
    \<and> batch_weight (batch_start items) = 6 * length items + 3"
proof -
  note inv = batch_reach_inv [OF assms(4)]
  have "batch_resolver (client_ask e calls) concurrency"
    using assms(1-3) by (intro client_batch) (simp_all add: batch_width_pos)
  from batch_resolver.batch_completes [OF this inv] batch_step_weight [OF _ inv] show ?thesis
    by (auto simp: batch_weight_def batch_start_def BlockingIteratorStream_new_def stream_weight_def)
qed

definition sample_calls :: "nat \<Rightarrow> (nat, (Query, CacheEntry) lru_list) call" where
  "sample_calls i = \<lparr>ca_client = sample_client, ca_replies = (\<lambda>_. Replied (Inr cached_answer)), ca_asked = 1, ca_answered = 2\<rparr>"

lemma sample_calls_ok: "ttls_ok (ca_client (sample_calls i))"
  by (simp add: sample_calls_def sample_ttls_ok)

theorem resolve_multi_agrees_witness:
  "\<exists>m. resolve_multi_full (client_ask sample_lookup sample_calls) ''a.'' [RT_A, RT_MX] = Some (Inr m) \<and> dom m = {RT_A, RT_MX}
     \<and> m RT_MX = client_ask sample_lookup sample_calls 1 ''a.'' RT_MX"
proof -
  let ?rts = "[RT_A, RT_MX]"
  from resolve_multi_agrees [of sample_calls ?rts sample_lookup "''a.''", OF sample_calls_ok]
  obtain m where "resolve_multi_full (client_ask sample_lookup sample_calls) ''a.'' ?rts = Some (Inr m)" "dom m = set ?rts"
    and m: "\<forall>i < length ?rts. (\<forall>j. i < j \<and> j < length ?rts \<longrightarrow> ?rts ! j \<noteq> ?rts ! i) \<longrightarrow> m (?rts ! i) = client_ask sample_lookup sample_calls i ''a.'' (?rts ! i)"
    by blast
  moreover from m have "m RT_MX = client_ask sample_lookup sample_calls 1 ''a.'' RT_MX"
    by (elim allE [of _ 1]) simp
  ultimately show ?thesis by auto
qed

theorem client_batch_ends_witness:
  "\<exists>b'. (resolve_batch_full (client_ask sample_lookup sample_calls) sample_batch_args (batch_width 1))\<^sup>*\<^sup>* (batch_start sample_items) b'
     \<and> batch_finished b'"
  using client_batch_ends [of sample_calls 1 sample_lookup sample_batch_args sample_items "batch_start sample_items", OF sample_calls_ok]
  by simp

end
