(* ===== verification/Drain.thy ===== *)
theory Drain
  imports System
begin

text \<open>
  Nothing in the running system can get stuck for good. From every state the system can reach, the
  workers and the pacer's ticker alone can bring every lookup that was accepted to its answer: the
  queue empties and every worker is idle again. The argument is a measure on where the workers are
  and a schedule that lowers it: workers that hold a permit go first, and once none does, every
  permit is free and whoever waits for one can have it.
\<close>

section \<open>The tasks behind the callers\<close>

inductive task_step :: "'s env \<Rightarrow> 's sys \<Rightarrow> 's sys \<Rightarrow> bool" for e where
  task_work: "work e i w y = Some y' \<Longrightarrow> task_step e y y'"
| task_refill: "sy_controller y \<noteq> None \<Longrightarrow> 0 \<le> seconds \<Longrightarrow> task_step e y (pacer_refill e seconds y)"

lemma task_step_sys: "task_step e y y' \<Longrightarrow> sys_step e y y'"
  by (induction rule: task_step.induct) (auto intro: sys_step.intros)

lemma sys_reachable_trans:
  assumes "(sys_step e)\<^sup>*\<^sup>* y y'" and "sys_reachable e y0 y"
  shows "sys_reachable e y0 y'"
  using assms by induction (auto intro: sys_run)

lemma task_steps_sys: "(task_step e)\<^sup>*\<^sup>* y y' \<Longrightarrow> (sys_step e)\<^sup>*\<^sup>* y y'"
  by (rule mono_rtranclp [rule_format]) (rule task_step_sys)

text \<open>What the tasks leave to the callers.\<close>

lemma worker_step_counts:
  assumes "worker_step e i p s q = Some oc"
  shows "sh_completed (oc_shared oc) = sh_completed s" and "sh_failed (oc_shared oc) = sh_failed s"
proof -
  have "sh_completed (oc_shared oc) = sh_completed s \<and> sh_failed (oc_shared oc) = sh_failed s"
  proof (cases p)
    case Idle
    then show ?thesis using assms by (cases q) (auto simp: Let_def split: sum.splits)
  qed (use assms in \<open>auto simp: on_resolver_def split: prod.splits option.splits sum.splits decision.splits\<close>)
  then show "sh_completed (oc_shared oc) = sh_completed s" "sh_failed (oc_shared oc) = sh_failed s" by simp_all
qed

lemma task_step_frame:
  assumes "task_step e y y'"
  shows "sy_issued y' = sy_issued y" "sy_capacity y' = sy_capacity y" "length (sy_workers y') = length (sy_workers y)"
    "sh_completed (sy_shared y') = sh_completed (sy_shared y)" "sh_failed (sy_shared y') = sh_failed (sy_shared y)"
    "\<exists>new. sy_answers y' = new @ sy_answers y"
  using assms
  by (induction rule: task_step.induct)
    (auto simp: work_def pacer_refill_def worker_step_counts split: if_splits option.splits)

lemma sys_step_frame:
  assumes "sys_step e y y'"
  shows "length (sy_workers y') = length (sy_workers y)" "sy_capacity y' = sy_capacity y" "sy_controller y' = None \<longleftrightarrow> sy_controller y = None"
  using assms by (cases rule: sys_step.cases; auto simp: submit_def work_def pacer_refill_def split: if_splits)+

lemma controller_tick_counts:
  assumes "controller_tick elapsed now (c, s) = Some (c', s')"
  shows "sh_completed s' = sh_completed s \<and> sh_failed s' = sh_failed s"
  using assms
  by (auto simp: controller_tick_def tick_resolvers_def tick_attempts_def Let_def split: option.splits if_splits)

section \<open>The items on their way\<close>

text \<open>The work items the system has not answered: those in the queue and those workers have in hand.\<close>

definition pending_items :: "'s sys \<Rightarrow> WorkItem list" where
  "pending_items y = sy_queue y @ List.map_filter item_of (sy_workers y)"

lemma pending_responders:
  "mset (map wi_responder (pending_items y)) = mset (map wi_responder (sy_queue y)) + sum_list (map ids_of (sy_workers y))"
proof -
  have "mset (map wi_responder (List.map_filter item_of ws)) = sum_list (map ids_of ws)" for ws
    by (induction ws) (auto simp: map_filter_simps ids_of_def split: option.split)
  then show ?thesis by (simp add: pending_items_def)
qed

lemma worker_step_items:
  assumes "worker_step e i p s q = Some oc"
  shows "set (oc_queue oc) \<union> set_option (item_of (oc_phase oc)) \<subseteq> set q \<union> set_option (item_of p)"
proof (cases p)
  case Idle
  then show ?thesis using assms by (cases q) (auto simp: Let_def split: sum.splits)
qed (use assms in \<open>auto split: prod.splits option.splits sum.splits decision.splits if_splits\<close>)

lemma set_map_filter_items: "set (List.map_filter f xs) = (\<Union>x \<in> set xs. set_option (f x))"
  by (induction xs) (auto simp: map_filter_simps split: option.split)

lemma task_step_items:
  assumes "task_step e y y'"
  shows "set (pending_items y') \<subseteq> set (pending_items y)"
  using assms
proof (cases rule: task_step.cases)
  case (task_work i w)
  then obtain oc where w: "w < length (sy_workers y)"
    and st: "worker_step e i (sy_workers y ! w) (sy_shared y) (sy_queue y) = Some oc"
    and y': "sy_queue y' = oc_queue oc" "sy_workers y' = (sy_workers y)[w := oc_phase oc]"
    by (auto simp: work_def split: if_splits)
  from worker_step_items [OF st] set_update_subset_insert [of "sy_workers y" w "oc_phase oc"] nth_mem [OF w]
  show ?thesis by (fastforce simp: pending_items_def set_map_filter_items y')
qed (simp add: pending_items_def pacer_refill_def)

text \<open>Every channel that was handed out is that of one item on its way or of one answer.\<close>

lemma pending_all:
  assumes "ids_inv y"
  shows "mset (map wi_responder (pending_items y) @ map fst (sy_answers y)) = mset [0..<sy_issued y]"
  unfolding mset_append pending_responders using assms unfolding ids_inv_def by (simp add: ac_simps)

lemma pending_apart:
  assumes "ids_inv y" and "it \<in> set (pending_items y)"
  shows "wi_responder it < sy_issued y" and "wi_responder it \<notin> set (map fst (sy_answers y))"
proof -
  have "distinct (map wi_responder (pending_items y) @ map fst (sy_answers y))"
    using pending_all [OF assms(1)] by (metis distinct_upt mset_eq_imp_distinct_iff)
  then show "wi_responder it \<notin> set (map fst (sy_answers y))" using assms(2) by auto
  have "set (map wi_responder (pending_items y) @ map fst (sy_answers y)) = set [0..<sy_issued y]"
    by (rule mset_eq_setD [OF pending_all [OF assms(1)]])
  then show "wi_responder it < sy_issued y" using assms(2) by auto
qed

lemma pending_unique:
  assumes "ids_inv y" and "t < sy_issued y" and "t \<notin> set (map fst (sy_answers y))"
  shows "\<exists>it. filter (\<lambda>it. wi_responder it = t) (pending_items y) = [it]"
proof -
  have "count (mset [0..<sy_issued y]) t = 1" using assms(2) by (simp add: count_mset_0_iff distinct_count_atmost_1)
  moreover have "count (mset (map fst (sy_answers y))) t = 0"
    using assms(3) count_mset_0_iff [of "map fst (sy_answers y)" t] by blast
  ultimately have one: "count (mset (map wi_responder (pending_items y))) t = 1"
    using arg_cong [OF pending_all [OF assms(1)], of "\<lambda>m. count m t"] by simp
  have "count (mset (map wi_responder its)) t = length (filter (\<lambda>it. wi_responder it = t) its)" for its
    by (induction its) auto
  from this [of "pending_items y"] one have "length (filter (\<lambda>it. wi_responder it = t) (pending_items y)) = 1" by (rule trans [OF sym])
  then show ?thesis by (simp add: length_Suc_conv)
qed

section \<open>What makes a resolver the one it is\<close>

definition ident :: "'s ResolverHealth \<Rightarrow> instant \<times> SocketAddr \<times> bool" where
  "ident h = (rh_start h, rh_resolver h, rh_persistent_socket h)"

definition pool_ident :: "'s ResolverPool \<Rightarrow> instant \<times> (instant \<times> SocketAddr \<times> bool) list" where
  "pool_ident pool = (rp_start pool, map ident (rp_resolvers pool))"

lemma pool_wf_iff: "pool_wf pool \<longleftrightarrow> (\<forall>t \<in> set (snd (pool_ident pool)). fst t = fst (pool_ident pool))"
  by (auto simp: pool_wf_def pool_ident_def ident_def)

lemma ident_frame [simp]:
  "ident (h\<lparr>rh_inflight := p\<rparr>) = ident h" "ident (h\<lparr>rh_limiter := lm\<rparr>) = ident h" "ident (h\<lparr>rh_client := cl\<rparr>) = ident h"
  "ident (h\<lparr>rh_tcp_client := cl\<rparr>) = ident h" "ident (record_truncated h) = ident h" "ident (record_dispatch h) = ident h"
  "ident (drop_permit S h) = ident h" "ident (record_response h rtt a now) = ident h" "ident (record_error h b now) = ident h"
  by (simp_all add: ident_def record_truncated_def record_dispatch_def drop_permit_def record_response_def record_rtt_def
      record_error_def decay_errors_def Let_def)

lemma pool_ident_update:
  "ident h = ident (rp_resolvers pool ! k) \<Longrightarrow> pool_ident (pool_update k (\<lambda>_. h) pool) = pool_ident pool"
  by (cases "k < length (rp_resolvers pool)")
    (simp_all add: pool_ident_def pool_update_def map_update list_update_same_conv list_update_beyond)

lemma reserve_pass_ident: "reserve_pass S now pool = (r, pool') \<Longrightarrow> pool_ident pool' = pool_ident pool"
proof -
  have "pool_ident p' = pool_ident pool" if "scan_from S now ks sc (pool\<lparr>rp_cursor := c\<rparr>) = Inl (k, p')" for ks sc c k p'
    using scan_from_takes [OF that] pool_ident_update [of _ "pool\<lparr>rp_cursor := c\<rparr>" k]
    by (auto simp: pool_update_def pool_ident_def)
  then show "reserve_pass S now pool = (r, pool') \<Longrightarrow> pool_ident pool' = pool_ident pool"
    by (auto simp: reserve_pass_def Let_def pool_ident_def split: if_splits sum.splits prod.splits)
qed

lemma query_ends_ident:
  "query_replied cn out st now h = (r, h') \<Longrightarrow> ident h' = ident h"
  "query_refetched cn tcp st now partial h = (resp, h') \<Longrightarrow> ident h' = ident h"
proof -
  show "query_replied cn out st now h = (r, h') \<Longrightarrow> ident h' = ident h"
    by (erule query_replied_cases) simp_all
  show "query_refetched cn tcp st now partial h = (resp, h') \<Longrightarrow> ident h' = ident h"
    by (erule query_refetched_cases) simp
qed

lemma worker_step_ident:
  assumes "worker_step e i p s q = Some oc"
  shows "pool_ident (sh_pool (oc_shared oc)) = pool_ident (sh_pool s)"
proof (cases p)
  case Idle
  then show ?thesis using assms by (cases q) (auto simp: Let_def split: sum.splits)
next
  case (Selecting it nm)
  then show ?thesis using assms by (auto dest: reserve_pass_ident split: prod.splits sum.splits decision.splits)
next
  case (AwaitingPermit it nm k)
  then show ?thesis using assms
    by (auto simp: permit_arrived_def try_acquire_def pool_ident_update split: option.splits if_splits)
qed (use assms in \<open>auto simp: on_resolver_def pool_ident_update acquire_rate_def
       dest!: query_ends_ident split: prod.splits option.splits sum.splits if_splits\<close>)

section \<open>What sort of answer a worker gives\<close>

text \<open>The errors a worker can report: they name resolvers of the pool and never the queue itself.\<close>

definition error_sort :: "SocketAddr set \<Rightarrow> bool \<Rightarrow> BlastDNSError \<Rightarrow> bool" where
  "error_sort addrs persistent err =
     (case err of
        InvalidHostname _ _ \<Rightarrow> True | NoResolvers \<Rightarrow> True
      | ResolverSetupFailed a _ \<Rightarrow> a \<in> addrs | ResolverRequestFailed a _ \<Rightarrow> a \<in> addrs | QueryTimedOut a _ \<Rightarrow> a \<in> addrs
      | Configuration _ \<Rightarrow> persistent | _ \<Rightarrow> False)"

definition answer_sort :: "(instant \<times> SocketAddr \<times> bool) list \<Rightarrow> result \<Rightarrow> bool" where
  "answer_sort ids r =
     (case r of Inr _ \<Rightarrow> True
      | Inl err \<Rightarrow> error_sort (set (map (fst \<circ> snd) ids)) (\<exists>x \<in> set ids. snd (snd x)) err)"

lemma setup_failed_error: "setup_failed h r = Inl err \<Longrightarrow> \<exists>k. err = ResolverSetupFailed (rh_resolver h) k"
  by (cases r) (auto simp: setup_failed_def)

lemma query_within_error:
  assumes "query_within cn h out d = (Inl err, h')" and "rh_resolver h \<in> addrs" and "rh_persistent_socket h \<Longrightarrow> persistent"
  shows "error_sort addrs persistent err"
  using assms
  by (auto simp: query_within_def client_def connect_def connect_persistent_def connect_per_query_def
      error_sort_def Let_def dest!: setup_failed_error split: option.splits sum.splits query_end.splits if_splits prod.splits)

lemma query_replied_sort:
  assumes "query_replied cn out st now h = (Inr r, h')" and "ident h \<in> set ids"
  shows "answer_sort ids r"
  using assms(1)
proof (cases rule: query_replied_cases)
  case (failed c err)
  have "rh_resolver h \<in> set (map (fst \<circ> snd) ids)" "rh_persistent_socket h \<Longrightarrow> \<exists>x \<in> set ids. snd (snd x)"
    using assms(2) by (force simp: ident_def)+
  from query_within_error [OF failed(3) [unfolded query_bounded_def] this] failed(1) show ?thesis by (simp add: answer_sort_def)
qed (simp_all add: answer_sort_def)

lemma worker_step_answer:
  assumes "worker_step e i p s q = Some oc" and "oc_answer oc = Some (t, r)" and "phase_ok (length (rp_resolvers (sh_pool s))) p"
  shows "answer_sort (snd (pool_ident (sh_pool s))) r"
proof (cases p)
  case Idle
  then show ?thesis using assms(1,2) by (cases q) (auto simp: answer_sort_def error_sort_def Let_def split: sum.splits)
next
  case (Selecting it nm)
  then show ?thesis using assms(1,2)
    by (auto simp: answer_sort_def error_sort_def split: prod.splits sum.splits decision.splits)
next
  case (InFlight it nm k t0)
  let ?h = "rp_resolvers (sh_pool s) ! k"
  have "ident ?h \<in> set (snd (pool_ident (sh_pool s)))" using assms(3) InFlight by (simp add: phase_ok_def pool_ident_def)
  moreover obtain h' where "query_replied (ev_connector e) (in_reply i) t0 (in_now i) ?h = (Inr r, h')"
    using assms(1,2) InFlight by (auto split: prod.splits sum.splits)
  ultimately show ?thesis by (blast intro: query_replied_sort)
qed (use assms(1,2) in \<open>auto simp: answer_sort_def split: prod.splits option.splits sum.splits if_splits\<close>)

definition answers_inv :: "'s sys \<Rightarrow> bool" where
  "answers_inv y \<longleftrightarrow> (\<forall>a \<in> set (sy_answers y). answer_sort (snd (pool_ident (sh_pool (sy_shared y)))) (snd a))"

section \<open>What the argument rests on\<close>

text \<open>Without a controller there is no ticker, and nothing that would have to wait for it.\<close>

definition unpaced_inv :: "'s sys \<Rightarrow> bool" where
  "unpaced_inv y \<longleftrightarrow>
     (sy_controller y = None \<longrightarrow> ap_rate (sh_pacer (sy_shared y)) = None \<and> (\<forall>p \<in> set (sy_workers y). \<not> awaits_token p))"

definition drain_inv :: "'s env \<Rightarrow> nat \<Rightarrow> 's sys \<Rightarrow> bool" where
  "drain_inv e cap y \<longleftrightarrow>
     sys_inv e cap y \<and> sys_ctl_ok y \<and> pool_wf (sh_pool (sy_shared y)) \<and> limit_ok (ap_rate (sh_pacer (sy_shared y)))
     \<and> unpaced_inv y"

lemma controller_tick_ident:
  assumes "controller_tick elapsed now (c, s) = Some (c', s')"
  shows "pool_ident (sh_pool s') = pool_ident (sh_pool s)"
proof -
  have "map ident (rp_resolvers (sh_pool s')) = map ident (rp_resolvers (sh_pool s))"
    using controller_tick_frame(1,2) [OF assms] by (intro nth_equalityI) force+
  moreover have "rp_start (sh_pool s') = rp_start (sh_pool s)"
    using assms
    by (auto simp: controller_tick_def tick_resolvers_def tick_attempts_def Let_def split: option.splits if_splits)
  ultimately show ?thesis by (simp add: pool_ident_def)
qed

lemma sys_step_ident:
  assumes "sys_step e y y'"
  shows "pool_ident (sh_pool (sy_shared y')) = pool_ident (sh_pool (sy_shared y))"
  using assms
proof (cases rule: sys_step.cases)
  case (step_work i w)
  then show ?thesis using worker_step_ident by (fastforce simp: work_def split: if_splits)
next
  case (step_tick c elapsed now c' s)
  then show ?thesis using controller_tick_ident [OF step_tick(3)] by simp
qed (auto simp: submit_def count_completed_def count_failed_def pacer_refill_def split: if_splits)

lemma answers_inv_step:
  assumes "sys_inv e cap y" and "answers_inv y" and "sys_step e y y'"
  shows "answers_inv y'"
proof -
  have "\<forall>a \<in> set (sy_answers y'). answer_sort (snd (pool_ident (sh_pool (sy_shared y)))) (snd a)"
    using assms(3)
  proof (cases rule: sys_step.cases)
    case (step_work i w)
    then obtain oc where w: "w < length (sy_workers y)"
      and st: "worker_step e i (sy_workers y ! w) (sy_shared y) (sy_queue y) = Some oc"
        "sy_answers y' = (case oc_answer oc of None \<Rightarrow> sy_answers y | Some a \<Rightarrow> a # sy_answers y)"
      by (auto simp: work_def split: if_splits)
    have "phase_ok (length (resolvers_of y)) (sy_workers y ! w)" using assms(1) w by (simp add: sys_inv_def Let_def)
    then have "\<forall>a. oc_answer oc = Some a \<longrightarrow> answer_sort (snd (pool_ident (sh_pool (sy_shared y)))) (snd a)"
      using worker_step_answer [OF st(1)] by (metis prod.collapse)
    then show ?thesis using assms(2) st(2) by (auto simp: answers_inv_def split: option.splits)
  qed (use assms(2) in \<open>auto simp: answers_inv_def submit_def pacer_refill_def split: if_splits\<close>)
  then show ?thesis by (simp add: answers_inv_def sys_step_ident [OF assms(3)])
qed

lemma sys_reachable_answers:
  assumes "sys_reachable e y0 y" and "semaphore (ev_sem e)" and "sys_fresh e cap y0"
  shows "answers_inv y \<and> pool_ident (sh_pool (sy_shared y)) = pool_ident (sh_pool (sy_shared y0))"
  using assms(1)
proof induction
  case (sys_run y y')
  then show ?case using answers_inv_step [OF sys_reachable_inv(1) [OF sys_run.hyps(1) assms(2,3)] _ sys_run.hyps(2)]
      sys_step_ident [OF sys_run.hyps(2)] by simp
qed (use assms(3) in \<open>simp add: answers_inv_def sys_fresh_def\<close>)

lemma worker_step_unpaced:
  assumes "worker_step e i p s q = Some oc" and "ap_rate (sh_pacer s) = None"
  shows "\<not> awaits_token (oc_phase oc)"
proof (cases p)
  case Idle
  then show ?thesis using assms(1) by (cases q) (auto simp: Let_def split: sum.splits)
qed (use assms in \<open>auto simp: pacer_enter_def split: prod.splits option.splits sum.splits decision.splits if_splits\<close>)

lemma unpaced_inv_step:
  assumes "unpaced_inv y" and "sys_step e y y'"
  shows "unpaced_inv y'"
  using assms(2)
proof (cases rule: sys_step.cases)
  case (step_work i w)
  then obtain oc where w: "w < length (sy_workers y)"
    and st: "worker_step e i (sy_workers y ! w) (sy_shared y) (sy_queue y) = Some oc"
    and y': "sy_shared y' = oc_shared oc" "sy_workers y' = (sy_workers y)[w := oc_phase oc]" "sy_controller y' = sy_controller y"
    by (auto simp: work_def split: if_splits)
  show ?thesis using assms(1) worker_step_unpaced [OF st] worker_step_pacing(2) [OF st] set_update_subset_insert [of "sy_workers y" w "oc_phase oc"]
    by (auto simp: unpaced_inv_def y')
qed (use assms(1) in \<open>auto simp: unpaced_inv_def submit_def count_completed_def count_failed_def pacer_refill_def split: if_splits\<close>)

lemma drain_inv_step:
  assumes "semaphore (ev_sem e)" and "drain_inv e cap y" and "sys_step e y y'"
  shows "drain_inv e cap y'"
proof -
  have ok: "sys_inv e cap y'" "sys_ctl_ok y'"
    using assms sys_inv_step sys_step_ctl_ok by (auto simp: drain_inv_def)
  have "limit_ok (ap_rate (sh_pacer (sy_shared y')))"
    using assms(3)
  proof (cases rule: sys_step.cases)
    case (step_work i w)
    then show ?thesis using assms(2) worker_step_pacing(2) by (fastforce simp: work_def drain_inv_def split: if_splits)
  next
    case (step_tick c elapsed now c' s)
    then have "brake_ok (ac_attempts c', sh_pacer (sy_shared y'))" using ok(2) by (simp add: sys_ctl_ok_def ctl_ok_def)
    then show ?thesis by (simp add: brake_ok_def)
  qed (use assms(2) in \<open>auto simp: drain_inv_def submit_def count_completed_def count_failed_def pacer_refill_def split: if_splits\<close>)
  then show ?thesis using ok assms(2) unpaced_inv_step [OF _ assms(3)] by (simp add: drain_inv_def pool_wf_iff sys_step_ident [OF assms(3)])
qed

lemma sys_reachable_drain:
  assumes "sys_reachable e y0 y" and "semaphore (ev_sem e)" and "drain_inv e cap y0"
  shows "drain_inv e cap y" and "length (sy_workers y) = length (sy_workers y0)" and "sy_capacity y = sy_capacity y0"
    and "sy_controller y = None \<longleftrightarrow> sy_controller y0 = None"
proof -
  have "drain_inv e cap y \<and> length (sy_workers y) = length (sy_workers y0) \<and> sy_capacity y = sy_capacity y0
    \<and> (sy_controller y = None \<longleftrightarrow> sy_controller y0 = None)"
    using assms(1)
  proof induction
    case (sys_run y y')
    then show ?case using drain_inv_step [OF assms(2) _ sys_run.hyps(2)] sys_step_frame [OF sys_run.hyps(2)] by simp
  qed (simp add: assms(3))
  then show "drain_inv e cap y" "length (sy_workers y) = length (sy_workers y0)" "sy_capacity y = sy_capacity y0"
    "sy_controller y = None \<longleftrightarrow> sy_controller y0 = None" by simp_all
qed

section \<open>The measure\<close>

fun phase_weight :: "phase \<Rightarrow> nat" where
  "phase_weight Idle = 0"
| "phase_weight (Refetching _ _ _ _ _) = 1"
| "phase_weight (InFlight _ _ _ _) = 2"
| "phase_weight (Sending _ _ _) = 3"
| "phase_weight (AwaitingToken _ _ _) = 4"
| "phase_weight (PacingAttempt _ _ _) = 5"
| "phase_weight (Reserved _ _ _) = 6"
| "phase_weight (Selecting _ _) = 7"
| "phase_weight (AwaitingPermit _ _ _) = 8"
| "phase_weight (Pacing _ _) = 9"

definition sys_weight :: "'s sys \<Rightarrow> nat" where
  "sys_weight y = sum_list (map phase_weight (sy_workers y)) + 10 * length (sy_queue y)"

lemma work_weight:
  assumes "w < length (sy_workers y)" and "worker_step e i (sy_workers y ! w) (sy_shared y) (sy_queue y) = Some oc"
    and "phase_weight (oc_phase oc) + 10 * length (oc_queue oc) < phase_weight (sy_workers y ! w) + 10 * length (sy_queue y)"
  shows "\<exists>y'. task_step e y y' \<and> sys_weight y' < sys_weight y"
proof -
  obtain y' where y': "work e i w y = Some y'" "sy_workers y' = (sy_workers y)[w := oc_phase oc]" "sy_queue y' = oc_queue oc"
    using assms(1,2) by (auto simp: work_def)
  have "sum_list (map phase_weight (sy_workers y')) + phase_weight (sy_workers y ! w)
      = sum_list (map phase_weight (sy_workers y)) + phase_weight (oc_phase oc)"
    using sum_list_update_add [of w "map phase_weight (sy_workers y)"] assms(1) by (simp add: y' map_update)
  then have "sys_weight y' < sys_weight y" using assms(3) by (simp add: sys_weight_def y'(3))
  then show ?thesis using y'(1) by (blast intro: task_work)
qed

text \<open>A worker with a permit goes on, whatever the input, unless it lacks a token.\<close>

lemma holder_goes_on:
  assumes "site p = Some k" and "awaits_token p \<Longrightarrow> pacer_take (ev_sem e) (sh_pacer s) \<noteq> None"
  shows "\<exists>oc. worker_step e i p s q = Some oc \<and> phase_weight (oc_phase oc) < phase_weight p \<and> oc_queue oc = q"
  using assms by (cases p) (auto simp: moves_def responds_def split: prod.split sum.split option.split)

text \<open>Once all sentences are served and every permit is free, selection does not wait.\<close>

definition all_served :: "'s ResolverPool \<Rightarrow> instant" where
  "all_served pool = rp_start pool + Max (insert 0 (unat ` rh_benched_until_ns ` set (rp_resolvers pool)))"

lemma all_served_free:
  assumes "pool_wf pool" and "h \<in> set (rp_resolvers pool)"
  shows "\<not> is_benched h (all_served pool)"
proof -
  define M where "M = Max (insert 0 (unat ` rh_benched_until_ns ` set (rp_resolvers pool)))"
  have "M \<in> insert 0 (unat ` rh_benched_until_ns ` set (rp_resolvers pool))" unfolding M_def by (rule Max_in) auto
  moreover have "unat w < 2 ^ 64" for w :: u64 using unsigned_less [of w] by simp
  ultimately have "M < 2 ^ 64" by auto
  moreover have "unat (rh_benched_until_ns h) \<le> M" unfolding M_def using assms(2) by (intro Max_ge) auto
  moreover have "all_served pool - rh_start h = M" using assms by (simp add: all_served_def pool_wf_def M_def)
  ultimately show ?thesis by (simp add: is_benched_def word_less_nat_alt unat_now_ns)
qed

lemma scan_from_unbenched:
  assumes "semaphore S" and "scan_from S now ks scan_start pool = Inr sc"
    and "\<forall>k \<in> set ks. \<not> is_benched (rp_resolvers pool ! k) now \<and> 0 < sem_available S (rh_inflight (rp_resolvers pool ! k))"
  shows "sc_active sc = 0"
proof -
  have "\<forall>k \<in> set ks. \<not> rh_active (rp_resolvers pool ! k)"
    using semaphore.scan_from_Inr_iff [OF assms(1), of now ks scan_start pool] assms(2,3) by (auto simp: eligible_def)
  then show ?thesis using semaphore.scan_from_counts(1) [OF assms(1,2)]
    by (simp add: scan_start_def filter_empty_conv)
qed

lemma selection_ends:
  assumes "semaphore S" and "pool_wf pool" and "\<forall>h \<in> set (rp_resolvers pool). 0 < free_permits S h"
  shows "(\<exists>k pool'. reserve_pass S (all_served pool) pool = (Inl k, pool'))
    \<or> (\<exists>pool'. reserve_pass S (all_served pool) pool = (Inr GiveUp, pool'))"
proof (cases "rp_resolvers pool = []")
  case False
  let ?n = "length (rp_resolvers pool)" and ?p1 = "pool\<lparr>rp_cursor := rp_cursor pool + 1\<rparr>"
  let ?ks = "map (scan_index (rp_cursor pool) ?n) [0..<?n]"
  have "\<forall>k \<in> set ?ks. k < ?n" using scan_index_less [of ?n] False by auto
  then have free: "\<forall>k \<in> set ?ks. \<not> is_benched (rp_resolvers ?p1 ! k) (all_served pool)
      \<and> 0 < sem_available S (rh_inflight (rp_resolvers ?p1 ! k))"
    using all_served_free [OF assms(2)] assms(3) by (simp add: free_permits_def)
  show ?thesis
  proof (cases "scan_from S (all_served pool) ?ks scan_start ?p1")
    case (Inl r)
    then show ?thesis unfolding reserve_pass_scan [OF False] by (cases r) auto
  next
    case (Inr sc)
    from scan_from_unbenched [OF assms(1) this free] show ?thesis
      unfolding reserve_pass_scan [OF False] Inr by (auto simp: after_scan_def)
  qed
qed (simp add: reserve_pass_def)

section \<open>The schedule\<close>

abbreviation calm_input :: "instant \<Rightarrow> input" where
  "calm_input now \<equiv> \<lparr>in_now = now, in_reply = Never, in_tcp_reply = Inl ClientTimeout\<rparr>"

lemma token_by_refill:
  assumes "semaphore (ev_sem e)" and "drain_inv e cap y" and "length (sy_workers y) < 2 ^ 64"
    and "w < length (sy_workers y)" and "awaits_token (sy_workers y ! w)"
  shows "pacer_take (ev_sem e) (sh_pacer (sy_shared (pacer_refill e 1 y))) \<noteq> None"
proof -
  let ?p = "sh_pacer (sy_shared y)" and ?ws = "sy_workers y"
  have inv: "sys_inv e cap y" "sys_ctl_ok y" "limit_ok (ap_rate ?p)" using assms(2) by (simp_all add: drain_inv_def)
  have "0 < length (filter awaits_token ?ws)" using assms(4,5) by (auto simp: filter_empty_conv)
  moreover have "length (filter awaits_token ?ws) < 2 ^ 64" using assms(3) length_filter_le le_less_trans by blast
  ultimately have "ap_waiting ?p \<noteq> 0"
    using inv(1) by (simp add: sys_inv_def Let_def word_eq_0_iff_unat unat_of_nat_u64)
  moreover have "1 \<le> f64_mul r 1" if "ap_rate ?p = Some r" for r
    unfolding f64_mul_def using inv(3) that by (intro f64_le_round) (auto simp: limit_ok_def ATTEMPT_MIN_RATE_def)
  ultimately show ?thesis
    using refill_gives_token [OF assms(1) sys_ctl_ok_pacer [OF inv(2)]] by (simp add: pacer_refill_def)
qed

lemma holder_progress:
  assumes "semaphore (ev_sem e)" and "drain_inv e cap y" and "length (sy_workers y) < 2 ^ 64"
    and "w < length (sy_workers y)" and "site (sy_workers y ! w) = Some k"
  shows "\<exists>y'. (task_step e)\<^sup>*\<^sup>* y y' \<and> sys_weight y' < sys_weight y"
proof -
  have go: "\<exists>y'. task_step e z y' \<and> sys_weight y' < sys_weight z"
    if "sy_workers z = sy_workers y"
      "awaits_token (sy_workers y ! w) \<Longrightarrow> pacer_take (ev_sem e) (sh_pacer (sy_shared z)) \<noteq> None" for z :: "'a sys"
    using holder_goes_on [OF assms(5) that(2), of "calm_input 0" "sy_queue z"] work_weight [of w z e] assms(4) that(1) by force
  show ?thesis
  proof (cases "awaits_token (sy_workers y ! w)")
    case True
    let ?z = "pacer_refill e 1 y"
    have "sys_weight ?z = sys_weight y" by (simp add: sys_weight_def pacer_refill_def)
    moreover obtain y' where "task_step e ?z y'" "sys_weight y' < sys_weight ?z"
      using go [of ?z] token_by_refill [OF assms(1-4) True] by (auto simp: pacer_refill_def)
    moreover have "sy_controller y \<noteq> None" using assms(2) True nth_mem [OF assms(4)] by (auto simp: drain_inv_def unpaced_inv_def)
    then have "task_step e y ?z" by (rule task_refill) simp
    ultimately show ?thesis by (metis converse_rtranclp_into_rtranclp r_into_rtranclp)
  qed (use go [of y] in blast)
qed

text \<open>Without a holder every permit is free, and the rest of the workers go on at once.\<close>

lemma waiter_goes_on:
  assumes "semaphore (ev_sem e)" and "pool_wf (sh_pool s)" and "\<forall>h \<in> set (rp_resolvers (sh_pool s)). 0 < free_permits (ev_sem e) h"
    and "phase_ok (length (rp_resolvers (sh_pool s))) p" and "site p = None" and "p \<noteq> Idle"
  shows "\<exists>oc. worker_step e (calm_input (all_served (sh_pool s))) p s q = Some oc
    \<and> phase_weight (oc_phase oc) < phase_weight p \<and> oc_queue oc = q"
proof (cases p)
  case (Selecting it nm)
  from selection_ends [OF assms(1-3)] show ?thesis using Selecting by (auto simp: moves_def responds_def)
next
  case (AwaitingPermit it nm k)
  then have "rp_resolvers (sh_pool s) ! k \<in> set (rp_resolvers (sh_pool s))" using assms(4) by (simp add: phase_ok_def)
  then have "permit_arrived (ev_sem e) (all_served (sh_pool s)) k (sh_pool s) \<noteq> None"
    using permit_arrived_None [OF assms(1)] assms(3) by fastforce
  then show ?thesis using AwaitingPermit by (auto simp: moves_def)
qed (use assms(5,6) in \<open>auto simp: moves_def split: prod.split\<close>)

lemma drain_progress:
  assumes "semaphore (ev_sem e)" and "drain_inv e cap y" and "0 < cap" and "length (sy_workers y) < 2 ^ 64"
    and "sy_workers y \<noteq> []" and "\<not> quiescent y"
  shows "\<exists>y'. (task_step e)\<^sup>*\<^sup>* y y' \<and> sys_weight y' < sys_weight y"
proof (cases "\<exists>w < length (sy_workers y). site (sy_workers y ! w) \<noteq> None")
  case True
  then show ?thesis using holder_progress [OF assms(1,2,4)] by blast
next
  case False
  let ?ws = "sy_workers y" and ?pool = "sh_pool (sy_shared y)"
  have inv: "sys_inv e cap y" "pool_wf ?pool" using assms(2) by (simp_all add: drain_inv_def)
  have "\<forall>p \<in> set ?ws. site p = None" using False by (auto simp: in_set_conv_nth)
  then have "filter (holds k) ?ws = []" for k by (auto simp: filter_empty_conv holds_def)
  then have "free_permits (ev_sem e) (resolvers_of y ! k) = cap" if "k < length (resolvers_of y)" for k
    using inv(1) that by (simp add: sys_inv_def Let_def)
  then have free: "\<forall>h \<in> set (resolvers_of y). 0 < free_permits (ev_sem e) h" using assms(3) by (auto simp: in_set_conv_nth)
  show ?thesis
  proof (cases "\<exists>w < length ?ws. ?ws ! w \<noteq> Idle")
    case True
    then obtain w where w: "w < length ?ws" "?ws ! w \<noteq> Idle" by blast
    then have "phase_ok (length (resolvers_of y)) (?ws ! w)" "site (?ws ! w) = None"
      using inv(1) False by (auto simp: sys_inv_def Let_def)
    from waiter_goes_on [OF assms(1) inv(2) free this w(2), of "sy_queue y"]
    obtain oc where "worker_step e (calm_input (all_served ?pool)) (?ws ! w) (sy_shared y) (sy_queue y) = Some oc"
      "phase_weight (oc_phase oc) < phase_weight (?ws ! w)" "oc_queue oc = sy_queue y" by blast
    from work_weight [OF w(1) this(1)] this(2,3) show ?thesis by auto
  next
    case False
    then have "\<forall>p \<in> set ?ws. p = Idle" by (auto simp: in_set_conv_nth)
    then obtain it q where q: "sy_queue y = it # q" using assms(6) by (cases "sy_queue y") (auto simp: quiescent_def)
    have w: "0 < length ?ws" "?ws ! 0 = Idle" using assms(5) False by auto
    have "\<exists>oc. worker_step e (calm_input 0) Idle (sy_shared y) (it # q) = Some oc
        \<and> phase_weight (oc_phase oc) + 10 * length (oc_queue oc) < 10 * length (it # q)"
      by (simp add: Let_def moves_def responds_def split: sum.split)
    then obtain oc where "worker_step e (calm_input 0) (?ws ! 0) (sy_shared y) (sy_queue y) = Some oc"
      "phase_weight (oc_phase oc) + 10 * length (oc_queue oc) < 10 * length (sy_queue y)" by (auto simp: w(2) q)
    from work_weight [OF w(1) this(1)] this(2) show ?thesis by (auto simp: w(2))
  qed
qed

lemma drain_inv_steps:
  assumes "semaphore (ev_sem e)" and "drain_inv e cap y" and "(task_step e)\<^sup>*\<^sup>* y y'"
  shows "drain_inv e cap y' \<and> length (sy_workers y') = length (sy_workers y)"
  using assms(3)
proof induction
  case (step y' y'')
  then show ?case using drain_inv_step [OF assms(1) _ task_step_sys] task_step_frame(3) by metis
qed (simp add: assms(2))

lemma drains:
  assumes "semaphore (ev_sem e)" and "drain_inv e cap y" and "0 < cap" and "length (sy_workers y) < 2 ^ 64" and "sy_workers y \<noteq> []"
  shows "\<exists>y'. (task_step e)\<^sup>*\<^sup>* y y' \<and> quiescent y'"
  using assms(2,4,5)
proof (induction "sys_weight y" arbitrary: y rule: less_induct)
  case less
  show ?case
  proof (cases "quiescent y")
    case False
    from drain_progress [OF assms(1) less.prems(1) assms(3) less.prems(2,3) False]
    obtain y1 where y1: "(task_step e)\<^sup>*\<^sup>* y y1" "sys_weight y1 < sys_weight y" by blast
    have "drain_inv e cap y1 \<and> length (sy_workers y1) = length (sy_workers y)"
      by (rule drain_inv_steps [OF assms(1) less.prems(1) y1(1)])
    then obtain y' where "(task_step e)\<^sup>*\<^sup>* y1 y'" "quiescent y'"
      using less.hyps [OF y1(2)] less.prems(2,3) by (metis length_0_conv)
    then show ?thesis using y1(1) by (blast intro: rtranclp_trans)
  qed blast
qed

end
