(* ===== verification/Callers.thy ===== *)
theory Callers
  imports Client Drain
begin

text \<open>
  Lookups in the running client: any number of calls of \<open>resolve_full\<close> (\<open>src/client.rs\<close>) side by
  side on one client, interleaving at every \<open>await\<close> with each other, with the workers, with the pacer's
  ticker and with the control loop. \<open>Client\<close> has the same lookup as one function of the replies its
  attempts get; here the replies are those the workers of \<open>System\<close> give, each through the channel the
  attempt was sent with. A call can also be dropped at any \<open>await\<close>, as a future can. The theorems
  relate the two: what a lookup returns is what the function says, the counters count every lookup
  once, and whatever happened so far, every lookup can still be brought to its end.
\<close>

section \<open>Calls and their steps\<close>

text \<open>Where a call is: the channels (tickets) of the attempts it has made are kept in order.\<close>

datatype caller =
    Asking string RecordType
  | Queueing string RecordType "nat list"
  | Waiting string RecordType "nat list"
  | Ended result "nat list"
  | Cancelled "nat list"

fun tickets :: "caller \<Rightarrow> nat list" where
  "tickets (Asking _ _) = []"
| "tickets (Queueing _ _ ids) = ids"
| "tickets (Waiting _ _ ids) = ids"
| "tickets (Ended _ ids) = ids"
| "tickets (Cancelled ids) = ids"

fun over :: "caller \<Rightarrow> bool" where
  "over (Ended _ _) = True"
| "over (Cancelled _) = True"
| "over _ = False"

definition client_attempts :: "('s, 'c) BlastDNSClient \<Rightarrow> nat" where
  "client_attempts c = unat (saturating_add (max_retries (bc_config c)) 1)"

text \<open>
  One call between two suspension points: up to the first send, the send itself (which waits for
  room in the queue), and what follows the reply.
\<close>

fun caller_step ::
  "('s, 'c) lookup_env \<Rightarrow> instant \<Rightarrow> caller \<Rightarrow> ('s, 'c) BlastDNSClient \<Rightarrow> (caller \<times> ('s, 'c) BlastDNSClient) option" where
  "caller_step l now (Asking host0 rt) c0 =
     (let host = (if rt = RT_PTR then format_ptr_query host0 else host0);
          c = ensure_workers (le_sem l) (le_connector l) (le_probe_replies l) c0
      in case cached_response l host rt now c of
           (Some response, c') \<Rightarrow> Some (Ended (Inr response) [], c')
         | (None, c') \<Rightarrow> Some (Queueing host rt [], c'))"
| "caller_step l now (Queueing host rt ids) c =
     (if client_attempts c \<le> length ids then Some (Ended (Inl WorkerDropped) ids, c)
      else map_option (\<lambda>y. (Waiting host rt (ids @ [sy_issued (bc_sys c)]), c\<lparr>bc_sys := y\<rparr>))
             (submit \<lparr>qs_host = host, qs_record_type = rt\<rparr> (bc_sys c)))"
| "caller_step l now (Waiting host rt ids) c =
     (case map_of (sy_answers (bc_sys c)) (last ids) of
        None \<Rightarrow> None
      | Some (Inr resp) \<Rightarrow>
          if \<not> answers_the_question resp \<and> length ids < client_attempts c then Some (Queueing host rt ids, c)
          else map_option (\<lambda>c. (Ended (Inr resp) ids, on_shared count_completed c)) (cache_response l host rt resp now c)
      | Some (Inl err) \<Rightarrow>
          if length ids = client_attempts c \<or> \<not> is_retryable err
          then Some (Ended (Inl err) ids, if is_congestion_evidence err then on_shared count_failed c else c)
          else Some (Queueing host rt ids, c))"
| "caller_step l now (Ended r ids) c = None"
| "caller_step l now (Cancelled ids) c = None"

record ('s, 'c) session =
  se_client :: "('s, 'c) BlastDNSClient"
  se_callers :: "caller list"

inductive session_step :: "'s env \<Rightarrow> ('s, 'c) lookup_env \<Rightarrow> ('s, 'c) session \<Rightarrow> ('s, 'c) session \<Rightarrow> bool" for e l where
  sess_call: "session_step e l z (z\<lparr>se_callers := se_callers z @ [Asking host rt]\<rparr>)"
| sess_caller: "k < length (se_callers z) \<Longrightarrow> caller_step l now (se_callers z ! k) (se_client z) = Some (p, c)
    \<Longrightarrow> session_step e l z (z\<lparr>se_client := c, se_callers := (se_callers z)[k := p]\<rparr>)"
| sess_cancel: "k < length (se_callers z) \<Longrightarrow> \<not> over (se_callers z ! k)
    \<Longrightarrow> session_step e l z (z\<lparr>se_callers := (se_callers z)[k := Cancelled (tickets (se_callers z ! k))]\<rparr>)"
| sess_task: "bc_workers_spawned (se_client z) \<Longrightarrow> task_step e (bc_sys (se_client z)) y
    \<Longrightarrow> session_step e l z (z\<lparr>se_client := (se_client z)\<lparr>bc_sys := y\<rparr>\<rparr>)"
| sess_tick: "sy_controller (bc_sys (se_client z)) = Some ctl
    \<Longrightarrow> controller_tick elapsed now (ctl, sy_shared (bc_sys (se_client z))) = Some (ctl', s)
    \<Longrightarrow> session_step e l z (z\<lparr>se_client := (se_client z)\<lparr>bc_sys := (bc_sys (se_client z))\<lparr>sy_controller := Some ctl', sy_shared := s\<rparr>\<rparr>\<rparr>)"

abbreviation session_start :: "('s, 'c) BlastDNSClient \<Rightarrow> ('s, 'c) session" where
  "session_start c \<equiv> \<lparr>se_client = c, se_callers = []\<rparr>"

section \<open>A session is a run of the system\<close>

lemma ttls_ok_cache_response:
  "ttls_ok c \<Longrightarrow> cache_response l host rt resp now c = Some c' \<Longrightarrow> ttls_ok c'"
  by (auto simp: cache_response_def ttls_ok_def dest: cache_ttls_frame(1) split: option.splits if_splits)

lemma ttls_ok_frame [simp]: "ttls_ok (on_shared f c) = ttls_ok c" "ttls_ok (c\<lparr>bc_sys := y\<rparr>) = ttls_ok c"
    "ttls_ok (ensure_workers S cn outs c) = ttls_ok c"
  by (simp_all add: ttls_ok_def)

lemma settled_frame:
  assumes "settled l host rt now r c = Some c'"
  shows "bc_config c' = bc_config c" "bc_workers_spawned c' = bc_workers_spawned c" "ttls_ok c \<Longrightarrow> ttls_ok c'"
    "bc_sys c' = (bc_sys c)\<lparr>sy_shared := (case r of Inr _ \<Rightarrow> count_completed (sy_shared (bc_sys c))
       | Inl err \<Rightarrow> if is_congestion_evidence err then count_failed (sy_shared (bc_sys c)) else sy_shared (bc_sys c))\<rparr>"
  using assms
  by (auto simp: settled_def on_shared_def cache_response_frame split: sum.splits if_splits
      dest: ttls_ok_cache_response)

text \<open>The six things a step of a call can be.\<close>

lemma caller_step_cases:
  assumes "caller_step l now p c = Some (p', c')"
  obtains (hit) host rt r where "p = Asking host rt" "p' = Ended (Inr r) []"
      "cached_response l (lookup_host rt host) rt now (started l c) = (Some r, c')"
  | (miss) host rt where "p = Asking host rt" "p' = Queueing (lookup_host rt host) rt []"
      "cached_response l (lookup_host rt host) rt now (started l c) = (None, c')"
  | (send) host rt ids y where "p = Queueing host rt ids" "length ids < client_attempts c"
      "p' = Waiting host rt (ids @ [sy_issued (bc_sys c)])" "c' = c\<lparr>bc_sys := y\<rparr>"
      "submit \<lparr>qs_host = host, qs_record_type = rt\<rparr> (bc_sys c) = Some y"
  | (out) host rt ids where "p = Queueing host rt ids" "client_attempts c \<le> length ids" "p' = Ended (Inl WorkerDropped) ids" "c' = c"
  | (again) host rt ids r where "p = Waiting host rt ids" "map_of (sy_answers (bc_sys c)) (last ids) = Some r"
      "\<not> decisive (Replied r)" "length ids \<noteq> client_attempts c" "p' = Queueing host rt ids" "c' = c"
  | (settle) host rt ids r where "p = Waiting host rt ids" "map_of (sy_answers (bc_sys c)) (last ids) = Some r"
      "decisive (Replied r) \<or> client_attempts c \<le> length ids" "p' = Ended r ids" "settled l host rt now r c = Some c'"
proof (cases p)
  case (Asking host rt)
  then show thesis using assms that(1,2) by (auto simp: Let_def split: prod.splits option.splits)
next
  case (Queueing host rt ids)
  then show thesis using assms that(3,4) by (auto split: if_splits)
next
  case (Waiting host rt ids)
  then obtain r where r: "map_of (sy_answers (bc_sys c)) (last ids) = Some r" using assms by (auto split: option.splits)
  let ?stop = "(case r of Inr resp \<Rightarrow> answers_the_question resp \<or> client_attempts c \<le> length ids
      | Inl err \<Rightarrow> length ids = client_attempts c \<or> \<not> is_retryable err)"
  have st: "if ?stop then p' = Ended r ids \<and> settled l host rt now r c = Some c' else p' = Queueing host rt ids \<and> c' = c"
    using assms r Waiting by (cases r) (auto simp: settled_def not_less split: if_splits)
  show thesis
  proof (cases ?stop)
    case True
    then have "decisive (Replied r) \<or> client_attempts c \<le> length ids" by (cases r) (auto simp: decisive_def)
    then show thesis using st True by (intro that(6) [OF Waiting r]) simp_all
  next
    case False
    then have "\<not> decisive (Replied r)" "length ids \<noteq> client_attempts c" by (cases r; auto simp: decisive_def)+
    then show thesis using st False by (intro that(5) [OF Waiting r]) simp_all
  qed
qed (use assms in auto)

lemma cached_response_sys:
  assumes "cached_response l host rt now c = (r, c')"
  shows "bc_sys c' = bc_sys c" "bc_config c' = bc_config c" "bc_workers_spawned c' = bc_workers_spawned c" "ttls_ok c \<Longrightarrow> ttls_ok c'"
  using cached_response_frame [of l host rt now c] ttls_ok_cached [of c l host rt now] assms by simp_all

lemma caller_step_client:
  assumes "caller_step l now p c = Some (p', c')" and "bc_workers_spawned c \<or> (\<exists>host rt. p = Asking host rt)"
  shows "bc_config c' = bc_config c" and "bc_workers_spawned c'" and "ttls_ok c \<Longrightarrow> ttls_ok c'"
    and "(sys_step e)\<^sup>*\<^sup>* (bc_sys (started l c)) (bc_sys c')"
proof -
  have "bc_config c' = bc_config c \<and> bc_workers_spawned c' \<and> (ttls_ok c \<longrightarrow> ttls_ok c')
    \<and> (sys_step e)\<^sup>*\<^sup>* (bc_sys (started l c)) (bc_sys c')"
    using assms(1)
  proof (cases rule: caller_step_cases)
    case (settle host rt ids r)
    have "(sys_step e)\<^sup>*\<^sup>* (bc_sys c) (bc_sys c')"
      unfolding settled_frame(4) [OF settle(5)] using step_completed [of e "bc_sys c"] step_failed [of e "bc_sys c"]
      by (auto split: sum.split)
    then show ?thesis using settled_frame(1-3) [OF settle(5)] settle(1) assms(2) by auto
  qed (use assms(2) in \<open>auto simp: cached_response_sys intro!: r_into_rtranclp step_submit\<close>)
  then show "bc_config c' = bc_config c" "bc_workers_spawned c'" "ttls_ok c \<Longrightarrow> ttls_ok c'"
    "(sys_step e)\<^sup>*\<^sup>* (bc_sys (started l c)) (bc_sys c')" by auto
qed

text \<open>
  Before the first lookup gets going the client is as it was built; from then on its state is one the
  system reaches from the state in which the workers were started.
\<close>

definition session_run :: "'s env \<Rightarrow> ('s, 'c) lookup_env \<Rightarrow> ('s, 'c) BlastDNSClient \<Rightarrow> ('s, 'c) session \<Rightarrow> bool" where
  "session_run e l c0 z \<longleftrightarrow>
     bc_config (se_client z) = bc_config c0 \<and> ttls_ok (se_client z)
     \<and> (if bc_workers_spawned (se_client z) then sys_reachable e (bc_sys (started l c0)) (bc_sys (se_client z))
        else se_client z = c0 \<and> (\<forall>p \<in> set (se_callers z). p = Cancelled [] \<or> (\<exists>host rt. p = Asking host rt)))"

definition session_fresh :: "'s env \<Rightarrow> ('s, 'c) lookup_env \<Rightarrow> nat \<Rightarrow> ('s, 'c) BlastDNSClient \<Rightarrow> bool" where
  "session_fresh e l cap c0 \<longleftrightarrow>
     semaphore (ev_sem e) \<and> 0 < cap \<and> sys_fresh e cap (bc_sys (started l c0)) \<and> drain_inv e cap (bc_sys (started l c0))
     \<and> 0 < length (sy_workers (bc_sys (started l c0))) \<and> length (sy_workers (bc_sys (started l c0))) < 2 ^ 64
     \<and> 0 < sy_capacity (bc_sys c0) \<and> sh_completed (sy_shared (bc_sys c0)) = 0 \<and> sh_failed (sy_shared (bc_sys c0)) = 0
     \<and> ttls_ok c0 \<and> \<not> bc_workers_spawned c0 \<and> sy_controller (bc_sys c0) = None \<and> sy_issued (bc_sys c0) = 0
     \<and> sy_queue (bc_sys c0) = [] \<and> sy_workers (bc_sys c0) = [] \<and> sy_answers (bc_sys c0) = []"

lemma session_run_start: "session_fresh e l cap c0 \<Longrightarrow> session_run e l c0 (session_start c0)"
  by (simp add: session_run_def session_fresh_def)

lemma session_run_caller:
  assumes "session_run e l c0 z" and "k < length (se_callers z)"
    and "caller_step l now (se_callers z ! k) (se_client z) = Some (p, c)"
  shows "session_run e l c0 (z\<lparr>se_client := c, se_callers := (se_callers z)[k := p]\<rparr>)"
proof -
  let ?p = "se_callers z ! k"
  have or: "bc_workers_spawned (se_client z) \<or> (\<exists>host rt. ?p = Asking host rt)"
    using assms(1,3) nth_mem [OF assms(2)] by (auto simp: session_run_def split: if_splits)
  note st = caller_step_client [OF assms(3) or]
  have "sys_reachable e (bc_sys (started l c0)) (bc_sys (started l (se_client z)))"
    using assms(1) by (cases "bc_workers_spawned (se_client z)") (auto simp: session_run_def sys_start)
  from sys_reachable_trans [OF st(4) this] show ?thesis using assms(1) st(1-3) by (simp add: session_run_def)
qed

lemma session_run_step:
  assumes "session_run e l c0 z" and "session_step e l z z'" and "sy_controller (bc_sys c0) = None"
  shows "session_run e l c0 z'"
  using assms(2)
proof (cases rule: session_step.cases)
  case (sess_caller k now p c)
  then show ?thesis using session_run_caller [OF assms(1)] by simp
next
  case (sess_cancel k)
  then show ?thesis using assms(1) nth_mem [OF sess_cancel(2)] set_update_subset_insert [of "se_callers z" k]
    by (auto simp: session_run_def dest!: set_update_memI split: if_splits)
      (metis (no_types, lifting) in_set_conv_nth length_list_update nth_list_update_eq nth_list_update_neq tickets.simps(1,5))+
next
  case (sess_task y)
  then show ?thesis using assms(1) sys_run [OF _ task_step_sys] by (auto simp: session_run_def ttls_ok_def)
next
  case (sess_tick ctl elapsed now ctl' s)
  then have "bc_workers_spawned (se_client z)" using assms(1,3) by (auto simp: session_run_def split: if_splits)
  then show ?thesis using assms(1) sess_tick sys_run [OF _ step_tick [OF sess_tick(2,3)]]
    by (auto simp: session_run_def ttls_ok_def)
qed (use assms(1) in \<open>auto simp: session_run_def split: if_splits\<close>)

section \<open>Tickets\<close>

definition tickets_inv :: "('s, 'c) session \<Rightarrow> bool" where
  "tickets_inv z \<longleftrightarrow> sum_list (map (mset \<circ> tickets) (se_callers z)) = mset [0..<sy_issued (bc_sys (se_client z))]"

lemma ensure_workers_sys [simp]:
  "sy_issued (bc_sys (ensure_workers S cn outs c)) = sy_issued (bc_sys c)"
  "sy_answers (bc_sys (ensure_workers S cn outs c)) = sy_answers (bc_sys c)"
  "sy_capacity (bc_sys (ensure_workers S cn outs c)) = sy_capacity (bc_sys c)"
  by (simp_all add: ensure_workers_def start_sys_def worker_spawn_many Let_def)

lemma on_shared_sys [simp]:
  "sy_issued (bc_sys (on_shared f c)) = sy_issued (bc_sys c)" "sy_answers (bc_sys (on_shared f c)) = sy_answers (bc_sys c)"
  by (simp_all add: on_shared_def)

lemma caller_step_tickets:
  assumes "caller_step l now p c = Some (p', c')"
  shows "mset (tickets p') + mset [0..<sy_issued (bc_sys c)] = mset (tickets p) + mset [0..<sy_issued (bc_sys c')]"
    and "sy_answers (bc_sys c') = sy_answers (bc_sys c)"
proof -
  have "mset (tickets p') + mset [0..<sy_issued (bc_sys c)] = mset (tickets p) + mset [0..<sy_issued (bc_sys c')]
    \<and> sy_answers (bc_sys c') = sy_answers (bc_sys c)"
    using assms
    by (cases rule: caller_step_cases)
      (auto simp: cached_response_sys submit_def atLeast0_lessThan_Suc settled_frame(4) split: if_splits)
  then show "mset (tickets p') + mset [0..<sy_issued (bc_sys c)] = mset (tickets p) + mset [0..<sy_issued (bc_sys c')]"
    "sy_answers (bc_sys c') = sy_answers (bc_sys c)" by simp_all
qed

lemma moved_with: "x' + p = x + q \<Longrightarrow> q + n = p + n' \<Longrightarrow> x = n \<Longrightarrow> x' = n'" for x :: "'a::cancel_comm_monoid_add"
  by (metis add.commute add_right_cancel)

lemma tickets_inv_step:
  assumes "tickets_inv z" and "session_step e l z z'"
  shows "tickets_inv z'"
  using assms(2)
proof (cases rule: session_step.cases)
  case (sess_caller k now p c)
  let ?T = "\<lambda>ps. sum_list (map (mset \<circ> tickets) ps)"
  have "?T ((se_callers z)[k := p]) + mset (tickets (se_callers z ! k)) = ?T (se_callers z) + mset (tickets p)"
    using sum_list_update_add [of k "map (mset \<circ> tickets) (se_callers z)"] sess_caller(2) by (simp add: map_update)
  from moved_with [OF this caller_step_tickets(1) [OF sess_caller(3)]] show ?thesis
    using assms(1) by (simp add: sess_caller(1) tickets_inv_def)
next
  case (sess_cancel k)
  have "map (mset \<circ> tickets) (se_callers z') = map (mset \<circ> tickets) (se_callers z)"
    by (simp add: sess_cancel(1,2) map_update list_update_same_conv)
  then show ?thesis using assms(1) sess_cancel(1) by (simp add: tickets_inv_def)
next
  case (sess_task y)
  then show ?thesis using assms(1) task_step_frame(1) [OF sess_task(3)] by (simp add: tickets_inv_def)
qed (use assms(1) in \<open>auto simp: tickets_inv_def\<close>)

text \<open>Every ticket a call holds has been issued, and no two calls hold the same one.\<close>

lemma sum_list_mset_map: "sum_list (map (mset \<circ> f) xs) = mset (concat (map f xs))"
  by (induction xs) simp_all

lemma tickets_issued:
  assumes "tickets_inv z" and "k < length (se_callers z)"
  shows "set (tickets (se_callers z ! k)) \<subseteq> {0..<sy_issued (bc_sys (se_client z))}"
proof -
  have "mset (concat (map tickets (se_callers z))) = mset [0..<sy_issued (bc_sys (se_client z))]"
    using assms(1) by (simp add: tickets_inv_def sum_list_mset_map)
  then have "set (concat (map tickets (se_callers z))) = {0..<sy_issued (bc_sys (se_client z))}"
    by (metis mset_eq_setD atLeast_upt set_upt)
  then show ?thesis using nth_mem [OF assms(2)] by auto
qed

lemma concat_distinct_apart:
  "distinct (concat xss) \<Longrightarrow> i < j \<Longrightarrow> j < length xss \<Longrightarrow> set (xss ! i) \<inter> set (xss ! j) = {}"
proof (induction xss arbitrary: i j)
  case (Cons xs xss)
  then obtain j' where j: "j = Suc j'" by (cases j) auto
  show ?case
  proof (cases i)
    case 0
    then show ?thesis using Cons.prems j nth_mem [of j' xss] by fastforce
  next
    case (Suc i')
    then show ?thesis using Cons j by simp
  qed
qed simp

lemma tickets_apart:
  assumes "tickets_inv z" and "j < length (se_callers z)" and "k < length (se_callers z)" and "j \<noteq> k"
  shows "set (tickets (se_callers z ! j)) \<inter> set (tickets (se_callers z ! k)) = {}"
proof -
  have "mset (concat (map tickets (se_callers z))) = mset [0..<sy_issued (bc_sys (se_client z))]"
    using assms(1) by (simp add: tickets_inv_def sum_list_mset_map)
  then have "distinct (concat (map tickets (se_callers z)))" by (metis distinct_upt mset_eq_imp_distinct_iff)
  from concat_distinct_apart [OF this, of j k] concat_distinct_apart [OF this, of k j] assms(2-4) show ?thesis
    by (cases j k rule: linorder_cases) auto
qed

section \<open>What the lookups have been told\<close>

definition undecided :: "(nat \<rightharpoonup> result) \<Rightarrow> nat list \<Rightarrow> bool" where
  "undecided A ids \<longleftrightarrow> (\<forall>i \<in> set ids. \<exists>r. A i = Some r \<and> \<not> decisive (Replied r))"

text \<open>What is known of a call, given the answers so far and the number of attempts allowed.\<close>

fun caller_ok :: "(nat \<rightharpoonup> result) \<Rightarrow> nat \<Rightarrow> caller \<Rightarrow> bool" where
  "caller_ok A n (Asking _ _) \<longleftrightarrow> True"
| "caller_ok A n (Queueing _ _ ids) \<longleftrightarrow> length ids < n \<and> undecided A ids"
| "caller_ok A n (Waiting _ _ ids) \<longleftrightarrow> ids \<noteq> [] \<and> length ids \<le> n \<and> undecided A (butlast ids)"
| "caller_ok A n (Ended r ids) \<longleftrightarrow>
     (if ids = [] then \<exists>resp. r = Inr resp
      else length ids \<le> n \<and> undecided A (butlast ids) \<and> A (last ids) = Some r \<and> (decisive (Replied r) \<or> length ids = n))"
| "caller_ok A n (Cancelled ids) \<longleftrightarrow> length ids \<le> n"

abbreviation answers_of :: "('s, 'c) session \<Rightarrow> nat \<rightharpoonup> result" where
  "answers_of z \<equiv> map_of (sy_answers (bc_sys (se_client z)))"

lemma undecided_mono: "undecided A ids \<Longrightarrow> A \<subseteq>\<^sub>m B \<Longrightarrow> undecided B ids"
  by (auto simp: undecided_def map_le_def dom_def)

lemma caller_ok_mono: "caller_ok A n p \<Longrightarrow> A \<subseteq>\<^sub>m B \<Longrightarrow> caller_ok B n p"
  by (cases p) (auto simp: map_le_def dom_def intro: undecided_mono [of A _ B, unfolded map_le_def] split: if_splits)

lemma undecided_snoc: "ids \<noteq> [] \<Longrightarrow> undecided A ids \<longleftrightarrow> undecided A (butlast ids) \<and> (\<exists>r. A (last ids) = Some r \<and> \<not> decisive (Replied r))"
  by (cases ids rule: rev_cases) (auto simp: undecided_def)

lemma caller_step_ok:
  assumes "caller_step l now p c = Some (p', c')" and "caller_ok (map_of (sy_answers (bc_sys c))) (client_attempts c) p"
  shows "caller_ok (map_of (sy_answers (bc_sys c))) (client_attempts c) p'"
  using assms(1)
proof (cases rule: caller_step_cases)
  case (miss host rt)
  then show ?thesis using attempts_pos by (simp add: undecided_def client_attempts_def)
next
  case (again host rt ids r)
  then show ?thesis using assms(2) undecided_snoc [of ids] by auto
next
  case (settle host rt ids r)
  then show ?thesis using assms(2) by auto
qed (use assms(2) in auto)

definition callers_inv :: "('s, 'c) session \<Rightarrow> bool" where
  "callers_inv z \<longleftrightarrow> (\<forall>p \<in> set (se_callers z). caller_ok (answers_of z) (client_attempts (se_client z)) p)"

lemma map_le_append: "distinct (map fst (new @ old)) \<Longrightarrow> map_of old \<subseteq>\<^sub>m map_of (new @ old)"
  by (auto simp: map_le_def map_add_def dom_map_of_conv_image_fst split: option.splits dest: map_of_SomeD)
    (metis disjoint_iff fst_conv image_eqI)

lemma callers_inv_step:
  assumes "callers_inv z" and "session_step e l z z'" and "bc_config (se_client z') = bc_config (se_client z)"
    and "distinct (map fst (sy_answers (bc_sys (se_client z'))))"
  shows "callers_inv z'"
proof -
  have n: "client_attempts (se_client z') = client_attempts (se_client z)" using assms(3) by (simp add: client_attempts_def)
  from assms(2) show ?thesis
  proof (cases rule: session_step.cases)
    case (sess_caller k now p c)
    have "caller_ok (answers_of z) (client_attempts (se_client z)) (se_callers z ! k)"
      using assms(1) sess_caller(2) by (simp add: callers_inv_def)
    from caller_step_ok [OF sess_caller(3) this] caller_step_tickets(2) [OF sess_caller(3)] show ?thesis
      using assms(1) n set_update_subset_insert [of "se_callers z" k p] by (auto simp: callers_inv_def sess_caller(1))
  next
    case (sess_cancel k)
    have "caller_ok (answers_of z) (client_attempts (se_client z)) (se_callers z ! k)"
      using assms(1) sess_cancel(2) by (simp add: callers_inv_def)
    then have "caller_ok (answers_of z) (client_attempts (se_client z)) (Cancelled (tickets (se_callers z ! k)))"
      using sess_cancel(3) by (cases "se_callers z ! k") auto
    then show ?thesis
      using assms(1) set_update_subset_insert [of "se_callers z" k "Cancelled (tickets (se_callers z ! k))"]
      by (auto simp: callers_inv_def sess_cancel(1))
  next
    case (sess_task y)
    obtain new where "sy_answers y = new @ sy_answers (bc_sys (se_client z))" using task_step_frame(6) [OF sess_task(3)] by blast
    then have "answers_of z \<subseteq>\<^sub>m answers_of z'" using assms(4) map_le_append [of new] by (simp add: sess_task(1))
    then show ?thesis using assms(1) n caller_ok_mono by (simp add: callers_inv_def sess_task(1)) blast
  qed (use assms(1) n in \<open>auto simp: callers_inv_def\<close>)
qed

section \<open>What the lookups have counted\<close>

fun counted :: "caller \<Rightarrow> bool" where
  "counted (Ended r ids) \<longleftrightarrow> ids \<noteq> [] \<and> (case r of Inr _ \<Rightarrow> True | Inl err \<Rightarrow> is_congestion_evidence err)"
| "counted _ \<longleftrightarrow> False"

fun lost :: "caller \<Rightarrow> bool" where
  "lost (Ended r ids) \<longleftrightarrow> ids \<noteq> [] \<and> (case r of Inr _ \<Rightarrow> False | Inl err \<Rightarrow> is_congestion_evidence err)"
| "lost _ \<longleftrightarrow> False"

abbreviation completed_of :: "('s, 'c) BlastDNSClient \<Rightarrow> u64" where
  "completed_of c \<equiv> sh_completed (sy_shared (bc_sys c))"

abbreviation failed_of :: "('s, 'c) BlastDNSClient \<Rightarrow> u64" where
  "failed_of c \<equiv> sh_failed (sy_shared (bc_sys c))"

definition counts_inv :: "('s, 'c) session \<Rightarrow> bool" where
  "counts_inv z \<longleftrightarrow> completed_of (se_client z) = of_nat (length (filter counted (se_callers z)))
     \<and> failed_of (se_client z) = of_nat (length (filter lost (se_callers z)))"

lemma caller_step_counts:
  assumes "caller_step l now p c = Some (p', c')" and "caller_ok A (client_attempts c) p"
  shows "completed_of c' + of_bool (counted p) = completed_of c + of_bool (counted p')"
    and "failed_of c' + of_bool (lost p) = failed_of c + of_bool (lost p')"
proof -
  have "completed_of c' + of_bool (counted p) = completed_of c + of_bool (counted p')
    \<and> failed_of c' + of_bool (lost p) = failed_of c + of_bool (lost p')"
    using assms(1)
  proof (cases rule: caller_step_cases)
    case (settle host rt ids r)
    then show ?thesis using assms(2) settled_frame(4) [OF settle(5)]
      by (auto simp: count_completed_def count_failed_def split: sum.split)
  qed (use assms(2) in \<open>auto simp: cached_response_sys submit_def split: if_splits\<close>)
  then show "completed_of c' + of_bool (counted p) = completed_of c + of_bool (counted p')"
    "failed_of c' + of_bool (lost p) = failed_of c + of_bool (lost p')" by simp_all
qed

lemma counts_inv_step:
  assumes "counts_inv z" and "callers_inv z" and "session_step e l z z'"
  shows "counts_inv z'"
  using assms(3)
proof (cases rule: session_step.cases)
  case (sess_caller k now p c)
  have ok: "caller_ok (answers_of z) (client_attempts (se_client z)) (se_callers z ! k)"
    using assms(2) sess_caller(2) by (simp add: callers_inv_def)
  note moved = caller_step_counts [OF sess_caller(3) ok]
  have "completed_of c = of_nat (length (filter counted ((se_callers z)[k := p])))"
    by (rule moved_alike [OF moved(1) of_nat_filter_update [OF sess_caller(2)]]) (use assms(1) in \<open>simp add: counts_inv_def\<close>)
  moreover have "failed_of c = of_nat (length (filter lost ((se_callers z)[k := p])))"
    by (rule moved_alike [OF moved(2) of_nat_filter_update [OF sess_caller(2)]]) (use assms(1) in \<open>simp add: counts_inv_def\<close>)
  ultimately show ?thesis by (simp add: counts_inv_def sess_caller(1))
next
  case (sess_cancel k)
  have "\<not> counted (se_callers z ! k)" "\<not> lost (se_callers z ! k)" using sess_cancel(3) by (cases "se_callers z ! k"; simp)+
  then show ?thesis using assms(1) filter_length_update [OF sess_cancel(2), of counted "Cancelled (tickets (se_callers z ! k))"]
      filter_length_update [OF sess_cancel(2), of lost "Cancelled (tickets (se_callers z ! k))"]
    by (simp add: counts_inv_def sess_cancel(1))
next
  case (sess_task y)
  then show ?thesis using assms(1) task_step_frame(4,5) [OF sess_task(3)] by (simp add: counts_inv_def)
next
  case (sess_tick ctl elapsed now ctl' s)
  have "sh_completed s = completed_of (se_client z)" "sh_failed s = failed_of (se_client z)"
    using controller_tick_counts [OF sess_tick(3)] by simp_all
  then show ?thesis using assms(1) by (simp add: counts_inv_def sess_tick(1))
qed (use assms(1) in \<open>auto simp: counts_inv_def\<close>)

section \<open>All of it together\<close>

definition session_inv :: "'s env \<Rightarrow> ('s, 'c) lookup_env \<Rightarrow> ('s, 'c) BlastDNSClient \<Rightarrow> ('s, 'c) session \<Rightarrow> bool" where
  "session_inv e l c0 z \<longleftrightarrow> session_run e l c0 z \<and> tickets_inv z \<and> callers_inv z \<and> counts_inv z"

lemma session_ids:
  assumes "session_fresh e l cap c0" and "session_run e l c0 z"
  shows "ids_inv (bc_sys (se_client z))"
proof (cases "bc_workers_spawned (se_client z)")
  case True
  then show ?thesis using assms sys_reachable_inv(2) by (auto simp: session_run_def session_fresh_def)
next
  case False
  then show ?thesis using assms by (simp add: session_run_def session_fresh_def ids_inv_def)
qed

lemma session_inv_start: "session_fresh e l cap c0 \<Longrightarrow> session_inv e l c0 (session_start c0)"
  using session_run_start [of e l cap c0]
  by (simp add: session_inv_def tickets_inv_def callers_inv_def counts_inv_def session_fresh_def)

lemma session_inv_step:
  assumes "session_fresh e l cap c0" and "session_inv e l c0 z" and "session_step e l z z'"
  shows "session_inv e l c0 z'"
proof -
  have run: "session_run e l c0 z'"
    using session_run_step assms by (auto simp: session_inv_def session_fresh_def)
  have "callers_inv z'"
    by (rule callers_inv_step [OF _ assms(3) _ ids_inv_distinct [OF session_ids [OF assms(1) run]]])
      (use assms(2) run in \<open>simp_all add: session_inv_def session_run_def\<close>)
  then show ?thesis using run tickets_inv_step [OF _ assms(3)] counts_inv_step [OF _ _ assms(3)] assms(2)
    by (simp add: session_inv_def)
qed

lemma session_reach_inv:
  assumes "session_fresh e l cap c0" and "(session_step e l)\<^sup>*\<^sup>* (session_start c0) z"
  shows "session_inv e l c0 z"
  using assms(2) by induction (use session_inv_start [OF assms(1)] session_inv_step [OF assms(1)] in auto)

section \<open>Every lookup asks its own question\<close>

text \<open>What the items of a call that is under way have to ask.\<close>

fun question :: "caller \<Rightarrow> QuerySpec option" where
  "question (Queueing host rt _) = Some \<lparr>qs_host = host, qs_record_type = rt\<rparr>"
| "question (Waiting host rt _) = Some \<lparr>qs_host = host, qs_record_type = rt\<rparr>"
| "question _ = None"

definition own_inv :: "('s, 'c) session \<Rightarrow> bool" where
  "own_inv z \<longleftrightarrow> (\<forall>it \<in> set (pending_items (bc_sys (se_client z))). \<forall>p \<in> set (se_callers z). \<forall>q.
     wi_responder it \<in> set (tickets p) \<and> question p = Some q \<longrightarrow> wi_query it = q)"

lemma own_inv_frame:
  assumes "own_inv z" and "set (pending_items (bc_sys (se_client z'))) \<subseteq> set (pending_items (bc_sys (se_client z)))"
    and "\<forall>p' \<in> set (se_callers z'). question p' \<noteq> None \<and> tickets p' \<noteq> [] \<longrightarrow>
      (\<exists>p \<in> set (se_callers z). question p = question p' \<and> tickets p = tickets p')"
  shows "own_inv z'"
  using assms unfolding own_inv_def by (metis empty_iff empty_set option.distinct(1) subsetD)

lemma pending_items_frame [simp]:
  "pending_items (y\<lparr>sy_shared := s\<rparr>) = pending_items y" "pending_items (y\<lparr>sy_controller := ctl\<rparr>) = pending_items y"
  by (simp_all add: pending_items_def)

lemma started_items: "sy_workers (bc_sys c) = [] \<or> bc_workers_spawned c \<Longrightarrow> pending_items (bc_sys (started l c)) = pending_items (bc_sys c)"
  by (auto simp: ensure_workers_def start_sys_def worker_spawn_many Let_def pending_items_def map_filter_simps List.map_filter_def)

lemma own_inv_caller:
  assumes own: "own_inv z" and k: "k < length (se_callers z)" and st: "caller_step l now (se_callers z ! k) (se_client z) = Some (p, c)"
    and idle: "sy_workers (bc_sys (se_client z)) = [] \<or> bc_workers_spawned (se_client z)"
    and ids: "ids_inv (bc_sys (se_client z))" and tk: "tickets_inv z"
  shows "own_inv (z\<lparr>se_client := c, se_callers := (se_callers z)[k := p]\<rparr>)"
proof -
  let ?z' = "z\<lparr>se_client := c, se_callers := (se_callers z)[k := p]\<rparr>" and ?c = "se_client z"
  have old: "own_inv ?z'" if "set (pending_items (bc_sys c)) \<subseteq> set (pending_items (bc_sys ?c))"
    "question p \<noteq> None \<and> tickets p \<noteq> [] \<longrightarrow> question (se_callers z ! k) = question p \<and> tickets (se_callers z ! k) = tickets p"
    using that set_update_subset_insert [of "se_callers z" k p] nth_mem [OF k]
    by (intro own_inv_frame [OF own]) auto
  from st show ?thesis
  proof (cases rule: caller_step_cases)
    case (hit host rt r)
    then show ?thesis using started_items [OF idle, of l] by (intro old) (simp_all add: cached_response_sys)
  next
    case (miss host rt)
    then show ?thesis using started_items [OF idle, of l] by (intro old) (simp_all add: cached_response_sys)
  next
    case (send host rt ids y)
    let ?t = "sy_issued (bc_sys ?c)" and ?q = "\<lparr>qs_host = host, qs_record_type = rt\<rparr>"
    have items: "set (pending_items (bc_sys c)) = insert \<lparr>wi_query = ?q, wi_responder = ?t\<rparr> (set (pending_items (bc_sys ?c)))"
      using send(4,5) by (auto simp: submit_def pending_items_def split: if_splits)
    have fresh: "wi_responder it \<noteq> ?t" if "it \<in> set (pending_items (bc_sys ?c))" for it
      using pending_apart(1) [OF assms(5) that] by simp
    have "?t \<notin> set (tickets p')" if "p' \<in> set (se_callers z)" for p'
      using tickets_issued [OF tk] that by (fastforce simp: in_set_conv_nth)
    moreover have "question (se_callers z ! k) = Some ?q" "tickets (se_callers z ! k) = ids" using send(1) by simp_all
    moreover have "question p = Some ?q" "tickets p = ids @ [?t]" using send(3) by simp_all
    ultimately show ?thesis using own fresh nth_mem [OF k] set_update_subset_insert [of "se_callers z" k p]
      unfolding own_inv_def by (auto simp: items)
  next
    case (again host rt ids r)
    then show ?thesis by (intro old) simp_all
  next
    case (settle host rt ids r)
    then show ?thesis using settled_frame(4) [OF settle(5)] by (intro old) simp_all
  next
    case (out host rt ids)
    then show ?thesis by (intro old) simp_all
  qed
qed

lemma own_inv_step:
  assumes "session_fresh e l cap c0" and "session_inv e l c0 z" and "own_inv z" and "session_step e l z z'"
  shows "own_inv z'"
  using assms(4)
proof (cases rule: session_step.cases)
  case (sess_caller k now p c)
  have run: "session_run e l c0 z" and tk: "tickets_inv z" using assms(2) by (simp_all add: session_inv_def)
  then have "sy_workers (bc_sys (se_client z)) = [] \<or> bc_workers_spawned (se_client z)"
    using assms(1) by (auto simp: session_run_def session_fresh_def split: if_splits)
  from own_inv_caller [OF assms(3) sess_caller(2,3) this session_ids [OF assms(1) run] tk] show ?thesis
    by (simp add: sess_caller(1))
next
  case (sess_cancel k)
  show ?thesis using set_update_subset_insert [of "se_callers z" k "Cancelled (tickets (se_callers z ! k))"]
    by (intro own_inv_frame [OF assms(3)]) (auto simp: sess_cancel(1))
next
  case (sess_task y)
  show ?thesis using task_step_items [OF sess_task(3)] by (intro own_inv_frame [OF assms(3)]) (auto simp: sess_task(1))
qed (auto intro!: own_inv_frame [OF assms(3)])

lemma session_reach_own:
  assumes "session_fresh e l cap c0" and "(session_step e l)\<^sup>*\<^sup>* (session_start c0) z"
  shows "own_inv z"
  using assms(2)
proof induction
  case base
  show ?case by (simp add: own_inv_def)
next
  case (step z z')
  from own_inv_step [OF assms(1) session_reach_inv [OF assms(1) step(1)] step(3,2)] show ?case .
qed

section \<open>Every lookup can be brought to its end\<close>

fun caller_weight :: "nat \<Rightarrow> caller \<Rightarrow> nat" where
  "caller_weight n (Asking _ _) = 2 * n + 2"
| "caller_weight n (Queueing _ _ ids) = 2 * (n - length ids) + 1"
| "caller_weight n (Waiting _ _ ids) = 2 * (n - length ids) + 2"
| "caller_weight n (Ended _ _) = 0"
| "caller_weight n (Cancelled _) = 0"

lemma caller_step_weight:
  assumes "caller_step l now p c = Some (p', c')"
  shows "caller_weight (client_attempts c) p' < caller_weight (client_attempts c) p"
  using assms by (cases rule: caller_step_cases) auto

text \<open>With no work left in the system, no call is waiting for anything.\<close>

lemma caller_goes_on:
  assumes "ttls_ok c" and "caller_ok A (client_attempts c) p" and "\<not> over p" and "sy_queue (bc_sys c) = []"
    and "0 < sy_capacity (bc_sys c)" and "\<forall>i \<in> set (tickets p). map_of (sy_answers (bc_sys c)) i \<noteq> None"
  shows "\<exists>p' c'. caller_step l now p c = Some (p', c')"
proof (cases p)
  case (Asking host rt)
  then show ?thesis by (auto simp: Let_def split: prod.split option.split)
next
  case (Queueing host rt ids)
  then show ?thesis using assms(4,5) by (simp add: submit_def)
next
  case (Waiting host rt ids)
  then obtain r where r: "map_of (sy_answers (bc_sys c)) (last ids) = Some r" using assms(2,6) by force
  have "\<exists>c'. cache_response l host rt resp now c = Some c'" for resp
    using settled_total [OF assms(1), of l host rt now "Inr resp"] by (auto simp: settled_def)
  then show ?thesis using Waiting r by (cases r) force+
qed (use assms(3) in auto)

lemma session_tasks:
  assumes "(task_step e)\<^sup>*\<^sup>* (bc_sys (se_client z)) y" and "bc_workers_spawned (se_client z)"
  shows "(session_step e l)\<^sup>*\<^sup>* z (z\<lparr>se_client := (se_client z)\<lparr>bc_sys := y\<rparr>\<rparr>)"
  using assms(1)
proof induction
  case (step y y')
  from sess_task [of "z\<lparr>se_client := (se_client z)\<lparr>bc_sys := y\<rparr>\<rparr>" e y' l] step(2) assms(2)
  show ?case by (intro rtranclp.rtrancl_into_rtrancl [OF step(3)]) simp
qed simp

lemma session_drain_inv:
  assumes "session_fresh e l cap c0" and "session_run e l c0 z" and "bc_workers_spawned (se_client z)"
  shows "drain_inv e cap (bc_sys (se_client z)) \<and> 0 < length (sy_workers (bc_sys (se_client z)))
    \<and> length (sy_workers (bc_sys (se_client z))) < 2 ^ 64 \<and> 0 < sy_capacity (bc_sys (se_client z))"
proof -
  have "sys_reachable e (bc_sys (started l c0)) (bc_sys (se_client z))" using assms(2,3) by (simp add: session_run_def)
  moreover have "semaphore (ev_sem e)" "drain_inv e cap (bc_sys (started l c0))" using assms(1) by (simp_all add: session_fresh_def)
  ultimately show ?thesis using sys_reachable_drain(1-3) [of e "bc_sys (started l c0)" _ cap] assms(1)
    by (simp add: session_fresh_def flip: length_greater_0_conv)
qed

lemma session_rests:
  assumes "session_fresh e l cap c0" and "session_run e l c0 z"
  shows "\<exists>z'. (session_step e l)\<^sup>*\<^sup>* z z' \<and> quiescent (bc_sys (se_client z')) \<and> se_callers z' = se_callers z"
proof (cases "bc_workers_spawned (se_client z)")
  case True
  from session_drain_inv [OF assms True] drains [of e cap "bc_sys (se_client z)"] assms(1)
  obtain y where "(task_step e)\<^sup>*\<^sup>* (bc_sys (se_client z)) y" "quiescent y" by (auto simp: session_fresh_def)
  then show ?thesis using session_tasks [OF _ True] by fastforce
next
  case False
  then have "quiescent (bc_sys (se_client z))" using assms by (simp add: session_run_def session_fresh_def quiescent_def)
  then show ?thesis by blast
qed

lemma session_capacity:
  assumes "session_fresh e l cap c0" and "session_run e l c0 z"
  shows "0 < sy_capacity (bc_sys (se_client z))"
  using session_drain_inv [OF assms] assms by (cases "bc_workers_spawned (se_client z)") (simp_all add: session_run_def session_fresh_def)

lemma caller_step_kind:
  assumes "caller_step l now p c = Some (p', c')"
  shows "\<not> over p" and "\<exists>new. tickets p' = tickets p @ new" and "over p' \<Longrightarrow> \<exists>r. p' = Ended r (tickets p')"
  using assms by (cases rule: caller_step_cases; auto)+

lemma session_moves:
  assumes "session_fresh e l cap c0" and "session_inv e l c0 z" and "quiescent (bc_sys (se_client z))"
    and "k < length (se_callers z)" and "\<not> over (se_callers z ! k)"
  shows "\<exists>p c. session_step e l z (z\<lparr>se_client := c, se_callers := (se_callers z)[k := p]\<rparr>)
    \<and> caller_step l now (se_callers z ! k) (se_client z) = Some (p, c)"
proof -
  have inv: "session_run e l c0 z" "tickets_inv z" "callers_inv z" using assms(2) by (simp_all add: session_inv_def)
  have "set (map fst (sy_answers (bc_sys (se_client z)))) = {0..<sy_issued (bc_sys (se_client z))}"
    by (rule ids_inv_rest [OF session_ids [OF assms(1) inv(1)] assms(3)])
  then have "\<forall>i \<in> set (tickets (se_callers z ! k)). answers_of z i \<noteq> None"
    using tickets_issued [OF inv(2) assms(4)] by (auto simp: map_of_eq_None_iff)
  then have "\<exists>p c. caller_step l now (se_callers z ! k) (se_client z) = Some (p, c)"
    using inv(1,3) assms(3-5) session_capacity [OF assms(1) inv(1)]
    by (intro caller_goes_on [of _ "answers_of z"]) (auto simp: session_run_def callers_inv_def quiescent_def)
  then show ?thesis using sess_caller [OF assms(4)] by blast
qed

text \<open>What a call that is brought to its end has become.\<close>

definition returned :: "caller \<Rightarrow> caller \<Rightarrow> bool" where
  "returned p p' \<longleftrightarrow> (if over p then p' = p else \<exists>r ids. p' = Ended r (tickets p @ ids))"

lemma returned_step:
  assumes "caller_step l now p c = Some (p1, c1)" and "returned p1 p'"
  shows "returned p p'"
proof -
  obtain new where "tickets p1 = tickets p @ new" using caller_step_kind(2) [OF assms(1)] by blast
  moreover have "\<exists>r ids. p' = Ended r (tickets p1 @ ids)"
    using assms(2) caller_step_kind(3) [OF assms(1)] by (cases "over p1") (simp_all add: returned_def, metis append_Nil2)
  ultimately show ?thesis using caller_step_kind(1) [OF assms(1)] by (auto simp: returned_def)
qed

lemma list_all2_update:
  assumes "list_all2 R (xs[k := x]) ys" and "k < length xs" and "\<And>y. R x y \<Longrightarrow> R (xs ! k) y"
  shows "list_all2 R xs ys"
  using assms by (auto simp: list_all2_conv_all_nth nth_list_update) (metis)

lemma session_finishes:
  assumes "session_fresh e l cap c0" and "session_inv e l c0 z"
  shows "\<exists>z'. (session_step e l)\<^sup>*\<^sup>* z z' \<and> quiescent (bc_sys (se_client z')) \<and> list_all2 returned (se_callers z) (se_callers z')"
  using assms(2)
proof (induction "sum_list (map (caller_weight (client_attempts c0)) (se_callers z))" arbitrary: z rule: less_induct)
  case less
  have "session_run e l c0 z" using less.prems by (simp add: session_inv_def)
  from session_rests [OF assms(1) this] obtain z1 where z1: "(session_step e l)\<^sup>*\<^sup>* z z1" "quiescent (bc_sys (se_client z1))"
    "se_callers z1 = se_callers z" by blast
  have inv1: "session_inv e l c0 z1" using z1(1) by induction (use less.prems session_inv_step [OF assms(1)] in auto)
  show ?case
  proof (cases "\<forall>k < length (se_callers z). over (se_callers z ! k)")
    case True
    then show ?thesis using z1 by (auto simp: list_all2_conv_all_nth returned_def)
  next
    case False
    then obtain k where k: "k < length (se_callers z)" "\<not> over (se_callers z ! k)" by blast
    from session_moves [OF assms(1) inv1 z1(2), where k = k and now = 0] k obtain p c where
      st: "session_step e l z1 (z1\<lparr>se_client := c, se_callers := (se_callers z1)[k := p]\<rparr>)"
        "caller_step l 0 (se_callers z ! k) (se_client z1) = Some (p, c)" by (auto simp: z1(3))
    let ?z2 = "z1\<lparr>se_client := c, se_callers := (se_callers z1)[k := p]\<rparr>"
    have "client_attempts (se_client z1) = client_attempts c0"
      using inv1 by (simp add: session_inv_def session_run_def client_attempts_def)
    then have "sum_list (map (caller_weight (client_attempts c0)) (se_callers ?z2))
        < sum_list (map (caller_weight (client_attempts c0)) (se_callers z))"
      using caller_step_weight [OF st(2)] k(1)
        sum_list_update_add [of k "map (caller_weight (client_attempts c0)) (se_callers z)" "caller_weight (client_attempts c0) p"]
      by (simp add: z1(3) map_update)
    from less.hyps [OF this session_inv_step [OF assms(1) inv1 st(1)]] obtain z' where
      z': "(session_step e l)\<^sup>*\<^sup>* ?z2 z'" "quiescent (bc_sys (se_client z'))" "list_all2 returned ((se_callers z)[k := p]) (se_callers z')"
      by (auto simp: z1(3))
    have "(session_step e l)\<^sup>*\<^sup>* z z'" using z1(1) st(1) z'(1) by (metis converse_rtranclp_into_rtranclp rtranclp_trans)
    moreover have "list_all2 returned (se_callers z) (se_callers z')"
      using list_all2_update [OF z'(3) k(1)] returned_step [OF st(2)] by blast
    ultimately show ?thesis using z'(2) by blast
  qed
qed

section \<open>A client as it is built\<close>

text \<open>A client handed out by \<open>with_config\<close>, with what surrounds it: its semaphores, its probe's replies.\<close>

definition serves :: "('os, 's, 'c) host \<Rightarrow> 's env \<Rightarrow> ('s, 'c) lookup_env \<Rightarrow> BlastDNSConfig \<Rightarrow> ('s, 'c) BlastDNSClient \<Rightarrow> bool" where
  "serves h e l config c0 \<longleftrightarrow>
     (\<exists>resolvers now os os'. with_config h resolvers config now os = Some (Inr c0, os'))
     \<and> semaphore (ho_sem h) \<and> ev_sem e = ho_sem h \<and> le_sem l = ho_sem h \<and> is_f64 (rate_ceiling config)
     \<and> length (le_probe_replies l) = length (bc_resolvers c0)
     \<and> (cache_capacity config = 0 \<or> cache_min_ttl config \<le> cache_max_ttl config)"

lemma health_probe_ident: "ident (snd (health_probe cn out h)) = ident h"
proof -
  obtain r h' where q: "query_within cn h out (max (rh_request_timeout h) PROBE_DEADLINE_FLOOR) = (r, h')" by force
  from query_within_frame [OF q] have "ident h' = ident h" by auto
  then show ?thesis using q by (cases r) (simp_all add: health_probe_def ident_def)
qed

lemma pool_probe_ident:
  "length outs = length (rp_resolvers pool) \<Longrightarrow> pool_ident (snd (pool_probe cn outs pool)) = pool_ident pool"
  by (auto simp: pool_ident_def pool_probe_resolvers health_probe_ident intro!: nth_equalityI) (simp add: pool_probe_def Let_def)

lemma started_pool:
  assumes "serves h e l config c0"
  shows "pool_wf (sh_pool (sy_shared (bc_sys (started l c0))))"
    and "map (fst \<circ> snd) (snd (pool_ident (sh_pool (sy_shared (bc_sys (started l c0)))))) = bc_resolvers c0"
    and "\<forall>x \<in> set (snd (pool_ident (sh_pool (sy_shared (bc_sys (started l c0)))))). snd (snd x) = persistent_socket config"
proof -
  let ?pool0 = "sh_pool (sy_shared (bc_sys c0))" and ?pool = "sh_pool (sy_shared (bc_sys (started l c0)))"
  obtain resolvers now os os' where c: "with_config h resolvers config now os = Some (Inr c0, os')"
    and len: "length (le_probe_replies l) = length (bc_resolvers c0)" using assms by (auto simp: serves_def)
  from c obtain pool limiter where pool: "ResolverPool_new (ho_sem h) (bc_resolvers c0) config now now = Some pool"
    and sys: "bc_sys c0 = idle_sys (ho_sem h) pool limiter (max (max_concurrency config) 1)"
    and cfg: "bc_config c0 = config" "\<not> bc_workers_spawned c0" by (rule with_config_Inr) blast
  note fields = ResolverPool_new_fields [OF pool]
  have "?pool = (if resolver_probe config then snd (pool_probe (le_connector l) (le_probe_replies l) pool) else pool)"
    by (simp add: ensure_workers_def start_sys_def worker_spawn_many sys idle_sys_def cfg Let_def)
  then have same: "pool_ident ?pool = pool_ident pool" using pool_probe_ident [of "le_probe_replies l" pool] len fields(1) by simp
  show "pool_wf ?pool" using ResolverPool_new_wf [OF pool] by (simp add: pool_wf_iff same)
  have id: "ident (rp_resolvers pool ! i) = (now, bc_resolvers c0 ! i, persistent_socket config)" if "i < length (bc_resolvers c0)" for i
    using ResolverHealth_new_fields(9,11,15) [OF fields(4) [OF that]] by (simp add: ident_def)
  show "map (fst \<circ> snd) (snd (pool_ident ?pool)) = bc_resolvers c0"
    unfolding same unfolding pool_ident_def by (rule nth_equalityI) (simp_all add: fields(1) id)
  show "\<forall>x \<in> set (snd (pool_ident ?pool)). snd (snd x) = persistent_socket config"
    unfolding same unfolding pool_ident_def using id by (auto simp: in_set_conv_nth fields(1))
qed

lemma serves_fresh:
  assumes "serves h e l config c0"
  shows "session_fresh e l (unat (max (max_inflight_per_resolver config) 1)) c0"
proof -
  let ?y0 = "bc_sys (started l c0)" and ?cap = "unat (max (max_inflight_per_resolver config) 1)"
  obtain resolvers now os os' where c: "with_config h resolvers config now os = Some (Inr c0, os')"
    using assms by (auto simp: serves_def)
  have env: "semaphore (ho_sem h)" "ev_sem e = ho_sem h" "le_sem l = ho_sem h" "is_f64 (rate_ceiling config)"
    "length (le_probe_replies l) = length (bc_resolvers c0)" using assms by (simp_all add: serves_def)
  note fr = client_fresh [OF env(1,2) c env(5), of "le_connector l", folded env(3)]
  have "sy_controller ?y0 = None \<longrightarrow> pacer_ok (sh_pacer (sy_shared ?y0))"
    using fr(4) by (simp add: shared_fresh_def AttemptPacer_new_ok)
  then have "sys_ctl_ok ?y0" using ctl_ok_new [OF fr(4) env(4)] fr(5) by (simp add: sys_ctl_ok_def)
  moreover have "limit_ok (ap_rate (sh_pacer (sy_shared ?y0)))"
    using fr(4) by (simp add: shared_fresh_def AttemptPacer_new_def)
  moreover have "unpaced_inv ?y0" using fr(1,4) by (auto simp: unpaced_inv_def shared_fresh_def AttemptPacer_new_def sys_fresh_def)
  ultimately have drain: "drain_inv e ?cap ?y0"
    using sys_fresh_inv(1) [OF fr(1)] started_pool(1) [OF assms] by (simp add: drain_inv_def)
  have "unat (max (max_concurrency config) 1) < 2 ^ 64" using unsigned_less [of "max (max_concurrency config) 1"] by simp
  moreover have "ttls_ok c0"
    using c by (rule with_config_Inr) (use assms in \<open>auto simp: ttls_ok_def SimpleCache_new_def serves_def word_less_nat_alt\<close>)
  moreover have "0 < sy_capacity (bc_sys c0) \<and> completed_of c0 = 0 \<and> failed_of c0 = 0 \<and> \<not> bc_workers_spawned c0
      \<and> sy_controller (bc_sys c0) = None \<and> sy_issued (bc_sys c0) = 0 \<and> sy_queue (bc_sys c0) = []
      \<and> sy_workers (bc_sys c0) = [] \<and> sy_answers (bc_sys c0) = []"
    using c by (rule with_config_Inr) (simp add: idle_sys_def u64_simps)
  ultimately show ?thesis using drain fr(1,3) env(1,2) by (simp add: session_fresh_def u64_simps less_max_iff_disj)
qed

section \<open>Properties\<close>

definition sample_lookups :: "(nat, (Query, CacheEntry) lru_list) lookup_env" where
  "sample_lookups = sample_lookup\<lparr>le_probe_replies := [Never, Never]\<rparr>"

lemma sample_env_names: "sample_env\<lparr>ev_name_from_ascii := Inr\<rparr> = sample_env"
  by (simp add: sample_env_def)

lemma sample_serves: "serves sample_host (sample_env\<lparr>ev_name_from_ascii := f\<rparr>) sample_lookups config_default sample_client"
proof -
  have "\<exists>os'. with_config sample_host [''192.0.2.1'', ''192.0.2.2:5353''] config_default 0 sample_rlimit = Some (Inr sample_client, os')"
    using sample_build_Inr by (auto simp: sample_build_def)
  moreover have "is_f64 (rate_ceiling config_default)"
    using one_resolver_fresh(2) by (simp add: rate_ceiling_def config_default_def)
  moreover have "cache_min_ttl config_default \<le> cache_max_ttl config_default" by code_simp
  ultimately show ?thesis
    by (auto simp: serves_def sample_host_def sample_env_sem sample_lookups_def sample_lookup_def
        counting.semaphore_axioms sample_client_cache(3))
qed

lemmas sample_serves_all = sample_serves [of Inr, unfolded sample_env_names]

text \<open>A lookup of \<open>a.\<close> that has put its first item on the queue, no worker having moved yet.\<close>

lemma sample_waiting:
  obtains c where "(session_step e sample_lookups)\<^sup>*\<^sup>* (session_start sample_client) \<lparr>se_client = c, se_callers = [Waiting ''a.'' RT_A [0]]\<rparr>"
    "sy_queue (bc_sys c) = [\<lparr>wi_query = \<lparr>qs_host = ''a.'', qs_record_type = RT_A\<rparr>, wi_responder = 0\<rparr>]"
    "bc_workers_spawned c" "sy_workers (bc_sys c) \<noteq> []" "\<forall>p \<in> set (sy_workers (bc_sys c)). p = Idle"
proof -
  let ?S = "session_step e sample_lookups" and ?c = "started sample_lookups sample_client"
  let ?z = "\<lambda>c p. \<lparr>se_client = c, se_callers = [p]\<rparr>"
  note fresh = serves_fresh [OF sample_serves_all]
  have "fst (cached_response sample_lookups ''a.'' RT_A 7 ?c) = None"
    by (simp add: cached_response_def sample_client_cache sample_lookups_def sample_lookup_def SimpleCache_new_def
        cache_get_def lru_list_def)
  then obtain c1 where c1: "cached_response sample_lookups ''a.'' RT_A 7 ?c = (None, c1)"
    by (cases "cached_response sample_lookups ''a.'' RT_A 7 ?c") auto
  note c1s = cached_response_sys [OF c1]
  let ?c2 = "c1\<lparr>bc_sys := (bc_sys c1)\<lparr>sy_queue := [\<lparr>wi_query = \<lparr>qs_host = ''a.'', qs_record_type = RT_A\<rparr>, wi_responder = 0\<rparr>],
      sy_issued := 1\<rparr>\<rparr>"
  have "client_attempts c1 \<noteq> 0" using attempts_pos by (simp add: client_attempts_def)
  moreover have "sy_queue (bc_sys c1) = []" "0 < sy_capacity (bc_sys c1)" "sy_issued (bc_sys c1) = 0"
    using fresh by (simp_all add: c1s session_fresh_def sys_fresh_def)
  ultimately have c2: "caller_step sample_lookups 7 (Queueing ''a.'' RT_A []) c1 = Some (Waiting ''a.'' RT_A [0], ?c2)"
    by (simp add: submit_def)
  have s1: "?S (session_start sample_client) (?z sample_client (Asking ''a.'' RT_A))"
    using sess_call [of e sample_lookups "session_start sample_client" "''a.''" RT_A] by simp
  have s2: "?S (?z sample_client (Asking ''a.'' RT_A)) (?z c1 (Queueing ''a.'' RT_A []))"
    using sess_caller [of 0 "?z sample_client (Asking ''a.'' RT_A)" sample_lookups 7 "Queueing ''a.'' RT_A []" c1 e]
    by (simp add: c1 Let_def)
  have s3: "?S (?z c1 (Queueing ''a.'' RT_A [])) (?z ?c2 (Waiting ''a.'' RT_A [0]))"
    using sess_caller [of 0 "?z c1 (Queueing ''a.'' RT_A [])" sample_lookups 7 "Waiting ''a.'' RT_A [0]" ?c2 e] c2 by simp
  have "?S\<^sup>*\<^sup>* (session_start sample_client) (?z ?c2 (Waiting ''a.'' RT_A [0]))"
    by (rule converse_rtranclp_into_rtranclp [of ?S, OF s1], rule converse_rtranclp_into_rtranclp [of ?S, OF s2],
        rule r_into_rtranclp [of ?S, OF s3])
  then show thesis by (rule that) (use fresh c1s in \<open>auto simp: session_fresh_def sys_fresh_def\<close>)
qed

text \<open>The same lookup, brought to its end.\<close>

lemma sample_ended:
  obtains z r ids where "(session_step sample_env sample_lookups)\<^sup>*\<^sup>* (session_start sample_client) z"
    "se_callers z = [Ended r (0 # ids)]"
proof -
  obtain c where w: "(session_step sample_env sample_lookups)\<^sup>*\<^sup>* (session_start sample_client) \<lparr>se_client = c, se_callers = [Waiting ''a.'' RT_A [0]]\<rparr>"
    by (rule sample_waiting)
  note fresh = serves_fresh [OF sample_serves_all]
  from session_finishes [OF fresh session_reach_inv [OF fresh w]] obtain z where
    z: "(session_step sample_env sample_lookups)\<^sup>*\<^sup>* \<lparr>se_client = c, se_callers = [Waiting ''a.'' RT_A [0]]\<rparr> z"
      "list_all2 returned [Waiting ''a.'' RT_A [0]] (se_callers z)" by auto
  then obtain r ids where "se_callers z = [Ended r (0 # ids)]" by (auto simp: list_all2_Cons1 returned_def)
  then show thesis using that rtranclp_trans [OF w z(1)] by blast
qed

text \<open>
  C5. A lookup in the running client does what the lookup does on its own. However the calls interleave
  with each other, with the workers and with the controller, a call that asked the resolvers has got an
  answer through the channel of each of its attempts, which no other call holds; and its result and the
  number of its attempts are those the retry loop computes from these answers, whatever state the client
  is in: it went on exactly as long as the answers settled nothing and attempts were left.
\<close>

theorem lookup_refines_loop:
  assumes "serves h e l config c0" and "(session_step e l)\<^sup>*\<^sup>* (session_start c0) z" and "k < length (se_callers z)"
    and "se_callers z ! k = Ended r ids" and "ids \<noteq> []" and "ttls_ok c"
  shows "(\<forall>i < length ids. answers_of z (ids ! i) \<noteq> None)
    \<and> (\<forall>j < length (se_callers z). j \<noteq> k \<longrightarrow> set ids \<inter> set (tickets (se_callers z ! j)) = {})
    \<and> map_option (\<lambda>(r, n, _). (r, n))
        (resolve_attempts l (\<lambda>i. Replied (the (answers_of z (ids ! i)))) host rt now (client_attempts c0) 0 c) = Some (r, length ids)"
proof -
  let ?A = "answers_of z" and ?replies = "\<lambda>i. Replied (the (answers_of z (ids ! i)))" and ?m = "length ids - 1"
  have inv: "session_inv e l c0 z" by (rule session_reach_inv [OF serves_fresh [OF assms(1)] assms(2)])
  then have n: "client_attempts (se_client z) = client_attempts c0"
    by (simp add: session_inv_def session_run_def client_attempts_def)
  have "caller_ok ?A (client_attempts (se_client z)) (Ended r ids)"
    using inv nth_mem [OF assms(3)] assms(4) by (auto simp: session_inv_def callers_inv_def)
  then have ok: "length ids \<le> client_attempts c0" "undecided ?A (butlast ids)" "?A (last ids) = Some r"
    "decisive (Replied r) \<or> length ids = client_attempts c0" using assms(5) n by auto
  have early: "?A (ids ! i) \<noteq> None \<and> \<not> decisive (?replies i)" if "i < ?m" for i
  proof -
    have "ids ! i \<in> set (butlast ids)" using that by (metis in_set_conv_nth length_butlast nth_butlast)
    then show ?thesis using ok(2) by (auto simp: undecided_def)
  qed
  have last: "?A (ids ! ?m) = Some r" using ok(3) assms(5) by (simp add: last_conv_nth)
  have "?A (ids ! i) \<noteq> None" if "i < length ids" for i
    using early [of i] last that by (cases "i = ?m") auto
  moreover have "set ids \<inter> set (tickets (se_callers z ! j)) = {}" if "j < length (se_callers z)" "j \<noteq> k" for j
    using tickets_apart [of z k j] inv assms(3,4) that by (simp add: session_inv_def)
  moreover have "map_option (\<lambda>(r, n, _). (r, n)) (resolve_attempts l ?replies host rt now (client_attempts c0) 0 c) = Some (r, length ids)"
  proof -
    have "0 < client_attempts c0" using ok(1) assms(5) by (cases ids) auto
    from resolve_attempts_spec [OF this, of ?replies l host rt now c] obtain m where m: "m < client_attempts c0"
      "\<forall>i < m. \<not> decisive (?replies i)" "decisive (?replies m) \<or> m + 1 = client_attempts c0"
      "resolve_attempts l ?replies host rt now (client_attempts c0) 0 c
        = map_option (\<lambda>c'. (reply_of (?replies m), m + 1, c')) (settled l host rt now (reply_of (?replies m)) c)" by auto
    have "decisive (?replies ?m) \<or> ?m + 1 = client_attempts c0" using ok(4) last assms(5) by (cases ids) auto
    moreover have "?m < client_attempts c0" using ok(1) assms(5) by (cases ids) auto
    ultimately have "m = ?m" using early m(1-3) by (metis linorder_neqE_nat less_irrefl_nat Suc_eq_plus1 Suc_lessI not_less_eq)
    moreover obtain c' where "settled l host rt now (reply_of (?replies m)) c = Some c'" using settled_total [OF assms(6)] by blast
    ultimately show ?thesis using m(4) last assms(5) by (cases ids) (auto simp: reply_of_def)
  qed
  ultimately show ?thesis by blast
qed

theorem lookup_refines_loop_witness:
  "\<exists>z r ids. (session_step sample_env sample_lookups)\<^sup>*\<^sup>* (session_start sample_client) z \<and> se_callers z = [Ended r (0 # ids)]
     \<and> map_option (\<lambda>(r, n, _). (r, n))
         (resolve_attempts sample_lookups (\<lambda>i. Replied (the (answers_of z ((0 # ids) ! i)))) ''a.'' RT_A 7 (client_attempts sample_client) 0
           sample_client) = Some (r, Suc (length ids))"
proof (rule sample_ended)
  fix z r ids
  assume z: "(session_step sample_env sample_lookups)\<^sup>*\<^sup>* (session_start sample_client) z" "se_callers z = [Ended r (0 # ids)]"
  from lookup_refines_loop [OF sample_serves_all z(1), of 0 r "0 # ids" sample_client "''a.''" RT_A 7] sample_ttls_ok z
  show ?thesis by (intro exI [of _ z] exI [of _ r] exI [of _ ids]) simp
qed

text \<open>
  C6. The outcome counters are exact at every moment. Under every interleaving, with calls dropped at
  any point, \<open>completed\<close> is the number of calls that came back from the resolvers with a response or
  with an error that speaks of the path, and \<open>failed\<close> the number of those that came back with an error:
  each such call is counted once, and a call answered from the cache, refused for its name, still on its
  way or dropped is not counted at all.
\<close>

theorem outcomes_exact:
  assumes "serves h e l config c0" and "(session_step e l)\<^sup>*\<^sup>* (session_start c0) z"
  shows "completed_of (se_client z) = of_nat (length (filter counted (se_callers z)))
    \<and> failed_of (se_client z) = of_nat (length (filter lost (se_callers z)))"
  using session_reach_inv [OF serves_fresh [OF assms(1)] assms(2)] by (simp add: session_inv_def counts_inv_def)

theorem outcomes_exact_witness:
  "\<exists>z r ids. (session_step sample_env sample_lookups)\<^sup>*\<^sup>* (session_start sample_client) z \<and> se_callers z = [Ended r (0 # ids)]
     \<and> completed_of (se_client z) = of_bool (counted (Ended r (0 # ids)))"
proof (rule sample_ended)
  fix z r ids
  assume z: "(session_step sample_env sample_lookups)\<^sup>*\<^sup>* (session_start sample_client) z" "se_callers z = [Ended r (0 # ids)]"
  from outcomes_exact [OF sample_serves_all z(1)] z show ?thesis by (intro exI [of _ z] exI [of _ r] exI [of _ ids]) auto
qed

text \<open>
  C2. No lookup can be stuck for good. Whatever a client has been through, there is a way on, in which no
  call is dropped and none is made, and at whose end every call that was under way has returned a
  result, after the attempts it had already made and perhaps more, the queue is empty and every worker
  is idle. So no order of events can wedge the client: no permit, token, queue slot or reply is ever
  lost in a way that a lookup would wait for it for ever.
\<close>

theorem lookups_can_finish:
  assumes "serves h e l config c0" and "(session_step e l)\<^sup>*\<^sup>* (session_start c0) z"
  shows "\<exists>z'. (session_step e l)\<^sup>*\<^sup>* z z' \<and> quiescent (bc_sys (se_client z')) \<and> length (se_callers z') = length (se_callers z)
    \<and> (\<forall>k < length (se_callers z). if over (se_callers z ! k) then se_callers z' ! k = se_callers z ! k
         else \<exists>r ids. se_callers z' ! k = Ended r (tickets (se_callers z ! k) @ ids))"
  using session_finishes [OF serves_fresh [OF assms(1)] session_reach_inv [OF serves_fresh [OF assms(1)] assms(2)]]
  by (auto simp: list_all2_conv_all_nth returned_def)

theorem lookups_can_finish_witness:
  "\<exists>c z'. (session_step sample_env sample_lookups)\<^sup>*\<^sup>* \<lparr>se_client = c, se_callers = [Waiting ''a.'' RT_A [0]]\<rparr> z'
     \<and> (\<exists>r ids. se_callers z' ! 0 = Ended r (0 # ids))"
proof -
  obtain c where w: "(session_step sample_env sample_lookups)\<^sup>*\<^sup>* (session_start sample_client) \<lparr>se_client = c, se_callers = [Waiting ''a.'' RT_A [0]]\<rparr>"
    by (rule sample_waiting)
  from lookups_can_finish [OF sample_serves_all w] show ?thesis by (intro exI [of _ c]) auto
qed



text \<open>
  C7. A lookup that waits has its own question on its way, once. While a call waits for a reply, there is
  exactly one work item in the queue or in the hands of a worker that answers to the channel it waits
  on, and that item asks for the name and the record type of this call, whatever the other calls, the
  workers and the controller do; and the items of attempts it has already heard of are gone. So replies
  are not mixed up between calls that run side by side.
\<close>

theorem lookup_asks_own_question:
  assumes "serves h e l config c0" and "(session_step e l)\<^sup>*\<^sup>* (session_start c0) z" and "k < length (se_callers z)"
    and "se_callers z ! k = Waiting host rt ids" and "answers_of z (last ids) = None"
  shows "filter (\<lambda>it. wi_responder it \<in> set ids) (pending_items (bc_sys (se_client z)))
    = [\<lparr>wi_query = \<lparr>qs_host = host, qs_record_type = rt\<rparr>, wi_responder = last ids\<rparr>]"
proof -
  let ?y = "bc_sys (se_client z)" and ?its = "pending_items (bc_sys (se_client z))"
  note fresh = serves_fresh [OF assms(1)]
  have inv: "session_inv e l c0 z" by (rule session_reach_inv [OF fresh assms(2)])
  then have ids: "ids_inv ?y" using session_ids [OF fresh] by (simp add: session_inv_def)
  have ok: "ids \<noteq> []" "undecided (answers_of z) (butlast ids)"
    using inv nth_mem [OF assms(3)] assms(4) by (auto simp: session_inv_def callers_inv_def)
  have "set ids \<subseteq> {0..<sy_issued ?y}" using tickets_issued [of z k] inv assms(3,4) by (simp add: session_inv_def)
  then have "last ids < sy_issued ?y" using last_in_set [OF ok(1)] by auto
  moreover have "last ids \<notin> set (map fst (sy_answers ?y))" using assms(5) by (simp add: map_of_eq_None_iff)
  ultimately obtain it where it: "filter (\<lambda>it. wi_responder it = last ids) ?its = [it]" using pending_unique [OF ids] by blast
  then have "it \<in> set (filter (\<lambda>it. wi_responder it = last ids) ?its)" by simp
  then have mem: "it \<in> set ?its" "wi_responder it = last ids" by simp_all
  have "wi_query it = \<lparr>qs_host = host, qs_record_type = rt\<rparr>"
    using session_reach_own [OF fresh assms(2)] mem nth_mem [OF assms(3)] assms(4) ok(1) last_in_set [of ids]
    unfolding own_inv_def by fastforce
  then have "it = \<lparr>wi_query = \<lparr>qs_host = host, qs_record_type = rt\<rparr>, wi_responder = last ids\<rparr>" using mem(2) by (cases it) simp
  moreover have "wi_responder x = last ids" if "x \<in> set ?its" "wi_responder x \<in> set ids" for x
  proof (rule ccontr)
    assume "wi_responder x \<noteq> last ids"
    then have "wi_responder x \<in> set (butlast ids)" using that(2) ok(1) by (cases ids rule: rev_cases) auto
    then have "wi_responder x \<in> set (map fst (sy_answers ?y))" using ok(2) by (force simp: undecided_def dest: map_of_SomeD)
    then show False using pending_apart(2) [OF ids that(1)] by simp
  qed
  ultimately show ?thesis using it last_in_set [OF ok(1)] by (metis (mono_tags, lifting) filter_cong)
qed

theorem lookup_asks_own_question_witness:
  "\<exists>z. (session_step sample_env sample_lookups)\<^sup>*\<^sup>* (session_start sample_client) z \<and> se_callers z = [Waiting ''a.'' RT_A [0]]
     \<and> filter (\<lambda>it. wi_responder it \<in> {0}) (pending_items (bc_sys (se_client z)))
         = [\<lparr>wi_query = \<lparr>qs_host = ''a.'', qs_record_type = RT_A\<rparr>, wi_responder = 0\<rparr>]"
proof -
  obtain c where w: "(session_step sample_env sample_lookups)\<^sup>*\<^sup>* (session_start sample_client) \<lparr>se_client = c, se_callers = [Waiting ''a.'' RT_A [0]]\<rparr>"
    "sy_queue (bc_sys c) = [\<lparr>wi_query = \<lparr>qs_host = ''a.'', qs_record_type = RT_A\<rparr>, wi_responder = 0\<rparr>]" by (rule sample_waiting)
  note fresh = serves_fresh [OF sample_serves_all]
  have "session_run sample_env sample_lookups sample_client \<lparr>se_client = c, se_callers = [Waiting ''a.'' RT_A [0]]\<rparr>"
    using session_reach_inv [OF fresh w(1)] by (simp add: session_inv_def)
  from session_ids [OF fresh this] have "ids_inv (bc_sys c)" by simp
  then have "map_of (sy_answers (bc_sys c)) 0 = None"
    using pending_apart(2) [of "bc_sys c" "\<lparr>wi_query = \<lparr>qs_host = ''a.'', qs_record_type = RT_A\<rparr>, wi_responder = 0\<rparr>"] w(2)
    by (simp add: pending_items_def map_of_eq_None_iff)
  then show ?thesis using lookup_asks_own_question [OF sample_serves_all w(1), of 0 "''a.''" RT_A "[0]"] w(1)
    by (intro exI [of _ "\<lparr>se_client = c, se_callers = [Waiting ''a.'' RT_A [0]]\<rparr>"]) simp
qed

end
