(* ===== verification/Batches.thy ===== *)
theory Batches
  imports Callers
begin

text \<open>
  A batch on the running client: \<open>resolve_batch_full\<close> of \<open>src/resolver.rs\<close> over \<open>resolve_full\<close> of
  \<open>src/client.rs\<close>. \<open>Resolver\<close> has the batch over lookups that are a function, \<open>Callers\<close> has lookups
  side by side in a client; here each host the batch pulls becomes one of these lookups, and the
  batch gets what that lookup returns when it returns. Other callers, the workers, the pacer's ticker
  and the control loop go on all the while. The lookups of the batch are dropped only with the batch
  itself, which then delivers nothing more and is a session like any other.
\<close>

section \<open>State and steps\<close>

text \<open>For each lookup of the batch, in the order they were made, its place among the calls.\<close>

record ('s, 'c, 'e) batch_run =
  br_session :: "('s, 'c) session"
  br_batch :: "'e batch"
  br_lookups :: "nat list"

definition run_start :: "('s, 'c) BlastDNSClient \<Rightarrow> ('e + string) list \<Rightarrow> ('s, 'c, 'e) batch_run" where
  "run_start c hosts = \<lparr>br_session = session_start c, br_batch = batch_start hosts, br_lookups = []\<rparr>"

text \<open>What a lookup of the batch has returned.\<close>

definition lookup_result :: "('s, 'c, 'e) batch_run \<Rightarrow> nat \<Rightarrow> result option" where
  "lookup_result s i =
     (if i < length (br_lookups s)
      then case se_callers (br_session s) ! (br_lookups s ! i) of Ended r _ \<Rightarrow> Some r | _ \<Rightarrow> None
      else None)"

lemma lookup_result_batch [simp]: "lookup_result (s\<lparr>br_batch := b\<rparr>) = lookup_result s"
  by (simp add: lookup_result_def fun_eq_iff)

definition running_ask :: "('s, 'c, 'e) batch_run \<Rightarrow> lookup" where
  "running_ask s = (\<lambda>i host rt. lookup_result s i)"

text \<open>A host that is pulled becomes a call of \<open>resolve_full\<close>.\<close>

definition pull_lookup :: "RecordType \<Rightarrow> ('e + string) option poll \<Rightarrow> ('s, 'c, 'e) batch_run \<Rightarrow> ('s, 'c, 'e) batch_run" where
  "pull_lookup rt res s =
     (case res of
        Ready (Some (Inr host)) \<Rightarrow>
          s\<lparr>br_session := (br_session s)\<lparr>se_callers := se_callers (br_session s) @ [Asking host rt]\<rparr>,
            br_lookups := br_lookups s @ [length (se_callers (br_session s))]\<rparr>
      | _ \<Rightarrow> s)"

fun cancelled :: "caller \<Rightarrow> bool" where
  "cancelled (Cancelled _) = True"
| "cancelled _ = False"

inductive run_step ::
  "'s env \<Rightarrow> ('s, 'c) lookup_env \<Rightarrow> batch_args \<Rightarrow> nat \<Rightarrow> ('s, 'c, 'e) batch_run \<Rightarrow> ('s, 'c, 'e) batch_run \<Rightarrow> bool"
  for e l a width where
  run_poll: "\<not> ba_ended (br_batch s) \<Longrightarrow> length (ba_in_flight (br_batch s)) < width
    \<Longrightarrow> poll_next progress (ba_hosts (br_batch s)) = (res, st)
    \<Longrightarrow> run_step e l a width s
          ((pull_lookup (ra_record_type a) res s)\<lparr>br_batch := batch_pull res ((br_batch s)\<lparr>ba_hosts := st\<rparr>)\<rparr>)"
| run_thread: "run_step e l a width s (s\<lparr>br_batch := (br_batch s)\<lparr>ba_hosts := run_task ok (ba_hosts (br_batch s))\<rparr>\<rparr>)"
| run_reply: "call \<in> set (ba_in_flight (br_batch s)) \<Longrightarrow> lookup_result s (fst call) = Some r
    \<Longrightarrow> run_step e l a width s (s\<lparr>br_batch := batch_finish a call r (br_batch s)\<rparr>)"
| run_session: "session_step e l (br_session s) z \<Longrightarrow> \<forall>k \<in> set (br_lookups s). \<not> cancelled (se_callers z ! k)
    \<Longrightarrow> run_step e l a width s (s\<lparr>br_session := z\<rparr>)"

section \<open>Lookups that have returned stay returned\<close>

lemma session_step_over:
  assumes "session_step e l z z'" and "k < length (se_callers z)"
  shows "k < length (se_callers z')" and "over (se_callers z ! k) \<Longrightarrow> se_callers z' ! k = se_callers z ! k"
proof -
  have "k < length (se_callers z') \<and> (over (se_callers z ! k) \<longrightarrow> se_callers z' ! k = se_callers z ! k)"
    using assms(1)
  proof (cases rule: session_step.cases)
    case (sess_caller j now p c)
    then show ?thesis using assms(2) caller_step_kind(1) [OF sess_caller(3)] by (auto simp: nth_list_update)
  next
    case (sess_cancel j)
    then show ?thesis using assms(2) by (auto simp: nth_list_update)
  qed (use assms(2) in \<open>auto simp: nth_append\<close>)
  then show "k < length (se_callers z')" "over (se_callers z ! k) \<Longrightarrow> se_callers z' ! k = se_callers z ! k" by simp_all
qed

lemma session_steps_over:
  assumes "(session_step e l)\<^sup>*\<^sup>* z z'" and "k < length (se_callers z)"
  shows "k < length (se_callers z') \<and> (over (se_callers z ! k) \<longrightarrow> se_callers z' ! k = se_callers z ! k)"
  using assms(1)
proof induction
  case (step z1 z2)
  then show ?case using session_step_over [OF step(2), of k] by auto
qed (use assms(2) in simp)

text \<open>A run of the session in which no lookup of the batch ends up dropped is a run of the batch.\<close>

lemma run_sessions:
  assumes "(session_step e l)\<^sup>*\<^sup>* (br_session s) z" and "\<forall>k \<in> set (br_lookups s). k < length (se_callers (br_session s))"
    and "\<forall>k \<in> set (br_lookups s). \<not> cancelled (se_callers z ! k)"
  shows "(run_step e l a width)\<^sup>*\<^sup>* s (s\<lparr>br_session := z\<rparr>)"
  using assms(1,3)
proof induction
  case (step z1 z2)
  have "\<not> cancelled (se_callers z1 ! k)" if k: "k \<in> set (br_lookups s)" for k
  proof
    assume c: "cancelled (se_callers z1 ! k)"
    then have "over (se_callers z1 ! k)" by (cases "se_callers z1 ! k") auto
    moreover have "k < length (se_callers z1)" using session_steps_over [OF step(1)] assms(2) k by blast
    ultimately have "se_callers z2 ! k = se_callers z1 ! k" using session_step_over(2) [OF step(2)] by blast
    then show False using c step.prems k by auto
  qed
  then have "(run_step e l a width)\<^sup>*\<^sup>* s (s\<lparr>br_session := z1\<rparr>)" using step.IH by blast
  moreover have "run_step e l a width (s\<lparr>br_session := z1\<rparr>) (s\<lparr>br_session := z2\<rparr>)"
    using run_session [of e l "s\<lparr>br_session := z1\<rparr>" z2 a width] step(2) step.prems by simp
  ultimately show ?case by (rule rtranclp.rtrancl_into_rtrancl)
qed simp

section \<open>The batch in the client is the batch over its lookups\<close>

definition ask_le :: "lookup \<Rightarrow> lookup \<Rightarrow> bool" where
  "ask_le f g \<longleftrightarrow> (\<forall>i host rt r. f i host rt = Some r \<longrightarrow> g i host rt = Some r)"

lemma batch_step_ask_le: "resolve_batch_full f a width b b' \<Longrightarrow> ask_le f g \<Longrightarrow> resolve_batch_full g a width b b'"
  by (induction rule: resolve_batch_full.induct) (auto simp: ask_le_def intro: resolve_batch_full.intros)

lemma batch_steps_ask_le: "(resolve_batch_full f a width)\<^sup>*\<^sup>* b b' \<Longrightarrow> ask_le f g \<Longrightarrow> (resolve_batch_full g a width)\<^sup>*\<^sup>* b b'"
  by (induction rule: rtranclp_induct) (auto intro: rtranclp.rtrancl_into_rtrancl batch_step_ask_le)

definition lookups_ok :: "('s, 'c, 'e) batch_run \<Rightarrow> bool" where
  "lookups_ok s \<longleftrightarrow>
     length (br_lookups s) = ba_calls (br_batch s)
     \<and> (\<forall>k \<in> set (br_lookups s). k < length (se_callers (br_session s)) \<and> \<not> cancelled (se_callers (br_session s) ! k))
     \<and> (\<forall>i < ba_calls (br_batch s). i \<notin> fst ` set (ba_in_flight (br_batch s)) \<longrightarrow> lookup_result s i \<noteq> None)"

lemma lookups_ok_start: "lookups_ok (run_start c hosts)"
  by (simp add: lookups_ok_def run_start_def batch_start_def)

lemma lookup_result_session:
  assumes "lookups_ok s" and "session_step e l (br_session s) z" and "lookup_result s i = Some r"
  shows "lookup_result (s\<lparr>br_session := z\<rparr>) i = Some r"
proof -
  let ?k = "br_lookups s ! i"
  have i: "i < length (br_lookups s)" using assms(3) by (simp add: lookup_result_def split: if_splits)
  then have "?k < length (se_callers (br_session s))" using assms(1) nth_mem by (auto simp: lookups_ok_def)
  moreover have "over (se_callers (br_session s) ! ?k)" using assms(3) by (auto simp: lookup_result_def split: if_splits caller.splits)
  ultimately have "se_callers z ! ?k = se_callers (br_session s) ! ?k" using session_step_over(2) [OF assms(2)] by blast
  then show ?thesis using i assms(3) by (simp add: lookup_result_def)
qed

lemma lookup_result_pull:
  assumes "lookups_ok s" and "lookup_result s i = Some r"
  shows "lookup_result ((pull_lookup rt res s)\<lparr>br_batch := b\<rparr>) i = Some r"
proof -
  have i: "i < length (br_lookups s)" using assms(2) by (simp add: lookup_result_def split: if_splits)
  then have "br_lookups s ! i < length (se_callers (br_session s))" using assms(1) nth_mem by (auto simp: lookups_ok_def)
  then show ?thesis using i assms(2)
    by (auto simp: lookup_result_def pull_lookup_def nth_append split: poll.split option.split sum.split)
qed

lemma lookups_ok_pull:
  assumes "lookups_ok s"
  shows "lookups_ok ((pull_lookup rt res s)\<lparr>br_batch := batch_pull res ((br_batch s)\<lparr>ba_hosts := st\<rparr>)\<rparr>)" (is "lookups_ok ?s'")
proof -
  let ?b = "br_batch s"
  have res: "lookup_result ?s' i \<noteq> None" if "i < ba_calls ?b" "i \<notin> fst ` set (ba_in_flight ?b)" for i
    using assms lookup_result_pull [OF assms] that by (fastforce simp: lookups_ok_def)
  show ?thesis
  proof (cases "\<exists>host. res = Ready (Some (Inr host))")
    case True
    then obtain host where r: "res = Ready (Some (Inr host))" by blast
    show ?thesis using assms res unfolding lookups_ok_def r
      by (auto simp: r pull_lookup_def batch_pull_def nth_append less_Suc_eq)
  next
    case False
    then have "pull_lookup rt res s = s" "ba_calls (batch_pull res (?b\<lparr>ba_hosts := st\<rparr>)) = ba_calls ?b"
      "ba_in_flight (batch_pull res (?b\<lparr>ba_hosts := st\<rparr>)) = ba_in_flight ?b"
      by (auto simp: pull_lookup_def batch_pull_def split: poll.split option.split sum.split)
    then show ?thesis using assms by (simp add: lookups_ok_def)
  qed
qed

lemma run_step_lookups:
  assumes "run_step e l a width s s'" and "lookups_ok s"
  shows "lookups_ok s'" and "ask_le (running_ask s) (running_ask s')"
    and "resolve_batch_full (running_ask s') a width (br_batch s) (br_batch s') \<or> br_batch s' = br_batch s"
proof -
  have "lookups_ok s' \<and> ask_le (running_ask s) (running_ask s')
    \<and> (resolve_batch_full (running_ask s') a width (br_batch s) (br_batch s') \<or> br_batch s' = br_batch s)"
    using assms(1)
  proof (cases rule: run_step.cases)
    case (run_poll progress res st)
    show ?thesis using lookups_ok_pull [OF assms(2)] lookup_result_pull [OF assms(2)]
        batch_poll [OF run_poll(2-4)] unfolding run_poll(1) by (auto simp: ask_le_def running_ask_def)
  next
    case (run_thread ok)
    then show ?thesis using assms(2) batch_thread [of _ a width "br_batch s" ok]
      by (auto simp: lookups_ok_def ask_le_def running_ask_def lookup_result_def)
  next
    case (run_reply call r)
    have same: "lookup_result s' = lookup_result s" by (simp add: run_reply(1))
    have "running_ask s' (fst call) (snd call) (ra_record_type a) = Some r" using run_reply(3) by (simp add: running_ask_def same)
    from batch_reply [of call "br_batch s" "running_ask s'" a, OF run_reply(2) this] have "resolve_batch_full (running_ask s') a width (br_batch s) (br_batch s')"
      by (simp add: run_reply(1))
    moreover have "lookups_ok s'"
    proof -
      have "lookup_result s i \<noteq> None" if "i < ba_calls (br_batch s)" "i \<notin> fst ` set (remove1 call (ba_in_flight (br_batch s)))" for i
      proof (cases "i = fst call")
        case False
        have "x \<in> set (remove1 call (ba_in_flight (br_batch s)))" if "x \<in> set (ba_in_flight (br_batch s))" "i = fst x" for x
          using that False in_set_remove1 [of x call "ba_in_flight (br_batch s)"] by blast
        then have "i \<notin> fst ` set (ba_in_flight (br_batch s))" using that(2) by blast
        then show ?thesis using assms(2) that(1) by (simp add: lookups_ok_def)
      qed (use run_reply(3) in simp)
      then show ?thesis using assms(2) unfolding lookups_ok_def same by (simp add: run_reply(1) batch_finish_def)
    qed
    ultimately show ?thesis by (simp add: ask_le_def running_ask_def same)
  next
    case (run_session z)
    note keep = lookup_result_session [OF assms(2) run_session(2)]
    have "lookups_ok s'"
      using assms(2) run_session(3) session_step_over(1) [OF run_session(2)] keep unfolding run_session(1) lookups_ok_def
      by fastforce
    then show ?thesis using keep by (simp add: run_session(1) ask_le_def running_ask_def)
  qed
  then show "lookups_ok s'" "ask_le (running_ask s) (running_ask s')"
    "resolve_batch_full (running_ask s') a width (br_batch s) (br_batch s') \<or> br_batch s' = br_batch s" by blast+
qed

lemma pull_lookup_session:
  "br_session (pull_lookup rt res s) = br_session s \<or> session_step e l (br_session s) (br_session (pull_lookup rt res s))"
  by (auto simp: pull_lookup_def intro: sess_call split: poll.split option.split sum.split)

definition run_inv ::
  "'s env \<Rightarrow> ('s, 'c) lookup_env \<Rightarrow> ('s, 'c) BlastDNSClient \<Rightarrow> batch_args \<Rightarrow> nat \<Rightarrow> ('e + string) list
     \<Rightarrow> ('s, 'c, 'e) batch_run \<Rightarrow> bool" where
  "run_inv e l c0 a width items s \<longleftrightarrow>
     session_inv e l c0 (br_session s) \<and> lookups_ok s
     \<and> (resolve_batch_full (running_ask s) a width)\<^sup>*\<^sup>* (batch_start items) (br_batch s)"

lemma run_inv_step:
  assumes "session_fresh e l cap c0" and "run_inv e l c0 a width items s" and "run_step e l a width s s'"
  shows "run_inv e l c0 a width items s'"
proof -
  have inv: "session_inv e l c0 (br_session s)" "lookups_ok s"
    "(resolve_batch_full (running_ask s) a width)\<^sup>*\<^sup>* (batch_start items) (br_batch s)"
    using assms(2) by (simp_all add: run_inv_def)
  note st = run_step_lookups [OF assms(3) inv(2)]
  have "br_session s' = br_session s \<or> session_step e l (br_session s) (br_session s')"
    using assms(3)
  proof (cases rule: run_step.cases)
    case (run_poll progress res st)
    then show ?thesis using pull_lookup_session [of "ra_record_type a" res s e l] by simp
  qed auto
  then have "session_inv e l c0 (br_session s')" using inv(1) session_inv_step [OF assms(1) inv(1)] by auto
  moreover have "(resolve_batch_full (running_ask s') a width)\<^sup>*\<^sup>* (batch_start items) (br_batch s')"
    using batch_steps_ask_le [OF inv(3) st(2)] st(3) by (auto intro: rtranclp.rtrancl_into_rtrancl)
  ultimately show ?thesis using st(1) by (simp add: run_inv_def)
qed

lemma run_inv_steps:
  assumes "session_fresh e l cap c0" and "run_inv e l c0 a width items s" and "(run_step e l a width)\<^sup>*\<^sup>* s s'"
  shows "run_inv e l c0 a width items s'"
  using assms(3) by induction (use assms(2) run_inv_step [OF assms(1)] in auto)

lemma run_inv_start: "session_fresh e l cap c0 \<Longrightarrow> run_inv e l c0 a width items (run_start c0 items)"
  using session_inv_start [of e l cap c0] lookups_ok_start [of c0 items] by (simp add: run_inv_def run_start_def)

section \<open>A batch can always be brought to its end\<close>

lemma poll_next_moves:
  assumes "poll_next (Some True) st = (res, st')"
  shows "res \<noteq> Pending" and "\<not> is_poisoned st \<Longrightarrow> \<not> is_poisoned st'"
  using assms
  by (auto simp: poll_next_def poll_handle_def run_task_def spawn_next_def split: option.splits task.splits list.splits if_splits)

lemma batch_pull_weight:
  assumes "poll_next (Some True) (ba_hosts b) = (res, st)" and "\<not> ba_ended b"
  shows "batch_weight (batch_pull res (b\<lparr>ba_hosts := st\<rparr>)) < batch_weight b"
  using poll_next_weight [OF assms(1)] poll_next_moves(1) [OF assms(1)] assms(2)
  by (auto simp: batch_pull_def batch_weight_def split: poll.splits option.splits sum.splits)

lemma batch_pull_hosts [simp]: "ba_hosts (batch_pull res b) = ba_hosts b"
  by (simp add: batch_pull_def split: poll.split option.split sum.split)

text \<open>The calls first: all that are under way return, and every worker comes to rest.\<close>

lemma run_settles:
  assumes "session_fresh e l cap c0" and "run_inv e l c0 a width items s"
  obtains z where "(run_step e l a width)\<^sup>*\<^sup>* s (s\<lparr>br_session := z\<rparr>)" and "quiescent (bc_sys (se_client z))"
    and "list_all over (se_callers z)"
proof -
  have inv: "session_inv e l c0 (br_session s)" "lookups_ok s" using assms(2) by (simp_all add: run_inv_def)
  obtain z where z: "(session_step e l)\<^sup>*\<^sup>* (br_session s) z" "quiescent (bc_sys (se_client z))"
    "list_all2 returned (se_callers (br_session s)) (se_callers z)" using session_finishes [OF assms(1) inv(1)] by blast
  have "over (se_callers z ! k) \<and> (\<not> cancelled (se_callers (br_session s) ! k) \<longrightarrow> \<not> cancelled (se_callers z ! k))"
    if "k < length (se_callers z)" for k
    using list_all2_nthD2 [OF z(3) that] by (auto simp: returned_def split: if_splits)
  moreover have "length (se_callers z) = length (se_callers (br_session s))" using list_all2_lengthD [OF z(3)] by simp
  ultimately have "list_all over (se_callers z)" "\<forall>k \<in> set (br_lookups s). \<not> cancelled (se_callers z ! k)"
    using inv(2) by (auto simp: list_all_length lookups_ok_def)
  with that [OF run_sessions [OF z(1)] z(2)] show thesis using inv(2) by (auto simp: lookups_ok_def)
qed

text \<open>Then the batch: it takes the result of a call, or asks the iterator for the next host.\<close>

lemma run_batch_moves:
  assumes "run_inv e l c0 a width items s" and "0 < width" and "list_all over (se_callers (br_session s))"
    and "\<not> batch_finished (br_batch s)"
  shows "\<exists>s'. run_step e l a width s s' \<and> batch_weight (br_batch s') < batch_weight (br_batch s)
    \<and> (is_poisoned (ba_hosts (br_batch s')) \<longrightarrow> is_poisoned (ba_hosts (br_batch s)))"
proof (cases "ba_in_flight (br_batch s)")
  case (Cons call rest)
  have ok: "lookups_ok s" using assms(1) by (simp add: run_inv_def)
  have "batch_inv (running_ask s) a width items (br_batch s)" using assms(1) batch_reach_inv by (auto simp: run_inv_def)
  then obtain seen replied where seen: "ba_calls (br_batch s) = length (oks seen)" "stream_inv items seen (ba_ended (br_batch s)) (ba_hosts (br_batch s))"
    "mset (ba_in_flight (br_batch s)) + mset replied = mset (enumerate 0 (oks seen))" unfolding batch_inv_def by blast
  have "call \<in> set (enumerate 0 (oks seen))"
    using seen(3) by (metis Cons list.set_intros(1) set_mset_mset union_iff)
  then have i: "fst call < length (br_lookups s)" using ok seen(1) by (auto simp: in_set_enumerate_eq lookups_ok_def)
  let ?p = "se_callers (br_session s) ! (br_lookups s ! fst call)"
  have "over ?p" "\<not> cancelled ?p" using ok assms(3) nth_mem [OF i] by (auto simp: lookups_ok_def list_all_length)
  then obtain r where "lookup_result s (fst call) = Some r" using i by (cases ?p) (auto simp: lookup_result_def)
  then have "run_step e l a width s (s\<lparr>br_batch := batch_finish a call r (br_batch s)\<rparr>)" by (intro run_reply) (simp_all add: Cons)
  moreover have "batch_weight (batch_finish a call r (br_batch s)) < batch_weight (br_batch s)"
    by (simp add: batch_weight_def batch_finish_def Cons)
  ultimately show ?thesis by (intro exI [of _ "s\<lparr>br_batch := batch_finish a call r (br_batch s)\<rparr>"]) (simp add: batch_finish_def)
next
  case Nil
  then have live: "\<not> ba_ended (br_batch s)" using assms(4) by (simp add: batch_finished_def)
  obtain res st where p: "poll_next (Some True) (ba_hosts (br_batch s)) = (res, st)" by fastforce
  from run_poll [of s width "Some True" res st e l a] live assms(2) Nil p batch_pull_weight [OF p live] poll_next_moves(2) [OF p]
  show ?thesis
    by (intro exI [of _ "(pull_lookup (ra_record_type a) res s)\<lparr>br_batch := batch_pull res ((br_batch s)\<lparr>ba_hosts := st\<rparr>)\<rparr>"]) auto
qed

lemma run_finishes:
  assumes "session_fresh e l cap c0" and "run_inv e l c0 a width items s" and "0 < width"
  shows "\<exists>s'. (run_step e l a width)\<^sup>*\<^sup>* s s' \<and> batch_finished (br_batch s') \<and> quiescent (bc_sys (se_client (br_session s')))
    \<and> list_all over (se_callers (br_session s')) \<and> (is_poisoned (ba_hosts (br_batch s')) \<longrightarrow> is_poisoned (ba_hosts (br_batch s)))"
  using assms(2)
proof (induction "batch_weight (br_batch s)" arbitrary: s rule: less_induct)
  case less
  obtain z where z: "(run_step e l a width)\<^sup>*\<^sup>* s (s\<lparr>br_session := z\<rparr>)" "quiescent (bc_sys (se_client z))"
    "list_all over (se_callers z)" by (rule run_settles [OF assms(1) less.prems])
  let ?s1 = "s\<lparr>br_session := z\<rparr>"
  have inv1: "run_inv e l c0 a width items ?s1" by (rule run_inv_steps [OF assms(1) less.prems z(1)])
  show ?case
  proof (cases "batch_finished (br_batch s)")
    case True
    then show ?thesis using z by (intro exI [of _ ?s1]) simp
  next
    case False
    from run_batch_moves [OF inv1 assms(3)] False z(3) obtain s2 where s2: "run_step e l a width ?s1 s2"
      "batch_weight (br_batch s2) < batch_weight (br_batch s)" "is_poisoned (ba_hosts (br_batch s2)) \<longrightarrow> is_poisoned (ba_hosts (br_batch s))"
      by auto
    from less.hyps [OF s2(2) run_inv_step [OF assms(1) inv1 s2(1)]] obtain s' where
      s': "(run_step e l a width)\<^sup>*\<^sup>* s2 s'" "batch_finished (br_batch s')" "quiescent (bc_sys (se_client (br_session s')))"
        "list_all over (se_callers (br_session s'))" "is_poisoned (ba_hosts (br_batch s')) \<longrightarrow> is_poisoned (ba_hosts (br_batch s2))" by blast
    have "(run_step e l a width)\<^sup>*\<^sup>* s s'" using z(1) s2(1) s'(1) by (metis converse_rtranclp_into_rtranclp rtranclp_trans)
    then show ?thesis using s' s2(3) by blast
  qed
qed

section \<open>Properties\<close>

text \<open>What the lookups of the batch have returned, host by host, less what the filters drop.\<close>

definition returned_results :: "batch_args \<Rightarrow> ('s, 'c, 'e) batch_run \<Rightarrow> ('e + string) list \<Rightarrow> (string \<times> result) list" where
  "returned_results a s items =
     filter (batch_keep a) (map (\<lambda>(i, host). (host, the (lookup_result s i))) (enumerate 0 (oks items)))"

lemma returned_results_batch: "returned_results a s items = batch_results (running_ask s) a items"
  unfolding returned_results_def batch_results_def
  by (intro arg_cong [where f = "filter _"] map_cong) (auto simp: call_result_def running_ask_def)

lemma run_delivers:
  assumes "run_inv e l c0 a width items s" and "batch_finished (br_batch s)" and "\<not> is_poisoned (ba_hosts (br_batch s))"
  shows "mset (ba_out (br_batch s)) = mset (returned_results a s items) \<and> (\<forall>i < length (oks items). lookup_result s i \<noteq> None)"
proof -
  have inv: "batch_inv (running_ask s) a width items (br_batch s)" and ok: "lookups_ok s"
    using assms(1) batch_reach_inv by (auto simp: run_inv_def)
  from inv obtain seen where "stream_inv items seen True (ba_hosts (br_batch s))" "ba_calls (br_batch s) = length (oks seen)"
    using assms(2) unfolding batch_inv_def batch_finished_def by metis
  then have "ba_calls (br_batch s) = length (oks items)" using assms(3) by (auto simp: stream_inv_def)
  then show ?thesis using batch_inv_out(2) [OF inv assms(2,3)] ok assms(2)
    by (simp add: returned_results_batch lookups_ok_def batch_finished_def)
qed

lemma sample_width_pos: "0 < batch_width (get_concurrency sample_client)"
proof -
  obtain os' where "with_config sample_host [''192.0.2.1'', ''192.0.2.2:5353''] config_default 0 sample_rlimit = Some (Inr sample_client, os')"
    using sample_build_Inr by (auto simp: sample_build_def)
  then show ?thesis
    by (rule with_config_Inr) (simp add: get_concurrency_def batch_width_def config_default_def DEFAULT_MAX_CONCURRENCY_def max_def)
qed

text \<open>
  C3. A batch on the running client is the batch over its lookups. However the batch interleaves with its
  lookups, with other callers, with the workers and with the controller, what it has done so far is a
  run of the batch alone, over lookups that return what those of the client returned. So no more than
  twice \<open>max_concurrency\<close> are in flight, and once the batch has ended, and the iterator did not panic, every host the
  iterator gave has had a lookup of its own that returned, and exactly these results are delivered,
  less those the filters drop.
\<close>

theorem batch_in_client:
  assumes "serves h e l config c0"
    and "(run_step e l a (batch_width (get_concurrency c0)))\<^sup>*\<^sup>* (run_start c0 items) s"
  shows "(resolve_batch_full (running_ask s) a (batch_width (get_concurrency c0)))\<^sup>*\<^sup>* (batch_start items) (br_batch s)
    \<and> length (ba_in_flight (br_batch s)) \<le> batch_width (get_concurrency c0)
    \<and> (batch_finished (br_batch s) \<and> \<not> is_poisoned (ba_hosts (br_batch s)) \<longrightarrow>
         mset (ba_out (br_batch s)) = mset (returned_results a s items) \<and> (\<forall>i < length (oks items). lookup_result s i \<noteq> None))"
proof -
  note fresh = serves_fresh [OF assms(1)]
  have inv: "run_inv e l c0 a (batch_width (get_concurrency c0)) items s"
    by (rule run_inv_steps [OF fresh run_inv_start [OF fresh] assms(2)])
  then have run: "(resolve_batch_full (running_ask s) a (batch_width (get_concurrency c0)))\<^sup>*\<^sup>* (batch_start items) (br_batch s)"
    by (simp add: run_inv_def)
  from batch_reach_inv [OF this] have "length (ba_in_flight (br_batch s)) \<le> batch_width (get_concurrency c0)" by (simp add: batch_inv_def)
  with run run_delivers [OF inv] show ?thesis by blast
qed

theorem batch_in_client_witness:
  "\<exists>s :: (nat, (Query, CacheEntry) lru_list, string) batch_run.
     (run_step sample_env sample_lookups sample_batch_args (batch_width (get_concurrency sample_client)))\<^sup>*\<^sup>*
       (run_start sample_client [Inl ''not utf-8'', Inr ''a.'']) s
     \<and> batch_finished (br_batch s) \<and> lookup_result s 0 \<noteq> None
     \<and> mset (ba_out (br_batch s)) = mset (filter (batch_keep sample_batch_args) [(''a.'', the (lookup_result s 0))])"
proof -
  let ?items = "[Inl ''not utf-8'', Inr ''a.''] :: (string + string) list" and ?w = "batch_width (get_concurrency sample_client)"
  note fresh = serves_fresh [OF sample_serves_all]
  from run_finishes [OF fresh run_inv_start [OF fresh] sample_width_pos, of sample_batch_args ?items]
  obtain s where s: "(run_step sample_env sample_lookups sample_batch_args ?w)\<^sup>*\<^sup>* (run_start sample_client ?items) s"
    "batch_finished (br_batch s)" "\<not> is_poisoned (ba_hosts (br_batch s))"
    by (auto simp: run_start_def batch_start_def BlockingIteratorStream_new_def)
  from batch_in_client [OF sample_serves_all s(1)] s show ?thesis
    by (intro exI [of _ s]) (simp add: returned_results_def)
qed

text \<open>
  C14. A batch on a client can never get stuck. Whatever the batch, its client and the client's other
  callers have been through, there is a way on to the end of the stream, without any lookup being
  dropped, after which no call is under way and every worker is idle; and if the iterator has not
  panicked, the whole batch is delivered on it.
\<close>

theorem batch_finishes_in_client:
  assumes "serves h e l config c0" and "0 < batch_width (get_concurrency c0)"
    and "(run_step e l a (batch_width (get_concurrency c0)))\<^sup>*\<^sup>* (run_start c0 items) s"
  shows "\<exists>s'. (run_step e l a (batch_width (get_concurrency c0)))\<^sup>*\<^sup>* s s' \<and> batch_finished (br_batch s')
    \<and> quiescent (bc_sys (se_client (br_session s'))) \<and> list_all over (se_callers (br_session s'))
    \<and> (\<not> is_poisoned (ba_hosts (br_batch s)) \<longrightarrow> mset (ba_out (br_batch s')) = mset (returned_results a s' items))"
proof -
  note fresh = serves_fresh [OF assms(1)]
  have inv: "run_inv e l c0 a (batch_width (get_concurrency c0)) items s"
    by (rule run_inv_steps [OF fresh run_inv_start [OF fresh] assms(3)])
  from run_finishes [OF fresh inv assms(2)] obtain s' where
    s': "(run_step e l a (batch_width (get_concurrency c0)))\<^sup>*\<^sup>* s s'" "batch_finished (br_batch s')"
      "quiescent (bc_sys (se_client (br_session s')))" "list_all over (se_callers (br_session s'))"
      "is_poisoned (ba_hosts (br_batch s')) \<longrightarrow> is_poisoned (ba_hosts (br_batch s))" by blast
  from run_delivers [OF run_inv_steps [OF fresh inv s'(1)] s'(2)] s' show ?thesis by blast
qed

theorem batch_finishes_in_client_witness:
  "\<exists>s :: (nat, (Query, CacheEntry) lru_list, string) batch_run.
     (run_step sample_env sample_lookups sample_batch_args (batch_width (get_concurrency sample_client)))\<^sup>*\<^sup>*
       (run_start sample_client [Inr ''a.'']) s
     \<and> batch_finished (br_batch s)
     \<and> mset (ba_out (br_batch s)) = mset (filter (batch_keep sample_batch_args) [(''a.'', the (lookup_result s 0))])"
  using batch_finishes_in_client [OF sample_serves_all sample_width_pos rtranclp.rtrancl_refl, of sample_batch_args "[Inr ''a.''] :: (string + string) list"]
  by (auto simp: returned_results_def run_start_def batch_start_def BlockingIteratorStream_new_def)

end
