(* ===== verification/Shutdown.thy ===== *)
theory Shutdown
  imports Callers
begin

text \<open>
  What becomes of a client's tasks when its last handle is dropped. The client held the only sender of
  the queue, so the queue is closed: a worker goes on as long as the queue has items, and its loop
  (\<open>run\<close> in \<open>src/worker.rs\<close>) ends at the first \<open>recv\<close> that finds it closed and empty. The control loop
  (\<open>spawn\<close> in \<open>src/controller.rs\<close>) holds the pool weakly and ends when no worker holds it any more; the
  ticker (\<open>spawn\<close> in \<open>src/limiter.rs\<close>) holds the pacer weakly and ends when neither a worker nor the
  control loop does. Nobody waits for these tasks; the theorems say that none is left behind.
\<close>

section \<open>State and steps\<close>

text \<open>The workers that have left their loop, and whether the other two tasks still run.\<close>

record 's closing =
  cl_sys :: "'s sys"
  cl_exited :: "nat set"
  cl_controller :: bool
  cl_ticker :: bool

definition closing_start :: "'s sys \<Rightarrow> 's closing" where
  "closing_start y =
     \<lparr>cl_sys = y, cl_exited = {}, cl_controller = (sy_controller y \<noteq> None), cl_ticker = (sy_controller y \<noteq> None)\<rparr>"

text \<open>Whether the weak pointer of the control loop, and that of the ticker, can be upgraded.\<close>

definition pool_held :: "'s closing \<Rightarrow> bool" where
  "pool_held d \<longleftrightarrow> (\<exists>w < length (sy_workers (cl_sys d)). w \<notin> cl_exited d)"

definition pacer_held :: "'s closing \<Rightarrow> bool" where
  "pacer_held d \<longleftrightarrow> pool_held d \<or> cl_controller d"

inductive close_step :: "'s env \<Rightarrow> 's closing \<Rightarrow> 's closing \<Rightarrow> bool" for e where
  close_work: "w \<notin> cl_exited d \<Longrightarrow> work e i w (cl_sys d) = Some y \<Longrightarrow> close_step e d (d\<lparr>cl_sys := y\<rparr>)"
| close_exit: "w < length (sy_workers (cl_sys d)) \<Longrightarrow> w \<notin> cl_exited d \<Longrightarrow> sy_workers (cl_sys d) ! w = Idle \<Longrightarrow> sy_queue (cl_sys d) = []
    \<Longrightarrow> close_step e d (d\<lparr>cl_exited := insert w (cl_exited d)\<rparr>)"
| close_tick: "cl_controller d \<Longrightarrow> pool_held d \<Longrightarrow> sy_controller (cl_sys d) = Some c
    \<Longrightarrow> controller_tick elapsed now (c, sy_shared (cl_sys d)) = Some (c', s)
    \<Longrightarrow> close_step e d (d\<lparr>cl_sys := (cl_sys d)\<lparr>sy_controller := Some c', sy_shared := s\<rparr>\<rparr>)"
| close_controller: "cl_controller d \<Longrightarrow> \<not> pool_held d \<Longrightarrow> close_step e d (d\<lparr>cl_controller := False\<rparr>)"
| close_refill: "cl_ticker d \<Longrightarrow> pacer_held d \<Longrightarrow> 0 \<le> seconds \<Longrightarrow> close_step e d (d\<lparr>cl_sys := pacer_refill e seconds (cl_sys d)\<rparr>)"
| close_ticker: "cl_ticker d \<Longrightarrow> \<not> pacer_held d \<Longrightarrow> close_step e d (d\<lparr>cl_ticker := False\<rparr>)"

definition all_ended :: "'s closing \<Rightarrow> bool" where
  "all_ended d \<longleftrightarrow> \<not> pool_held d \<and> \<not> cl_controller d \<and> \<not> cl_ticker d"

section \<open>The order in which the tasks end\<close>

definition closing_inv :: "'s sys \<Rightarrow> 's closing \<Rightarrow> bool" where
  "closing_inv y0 d \<longleftrightarrow>
     (\<forall>w \<in> cl_exited d. w < length (sy_workers (cl_sys d)) \<and> sy_workers (cl_sys d) ! w = Idle \<and> sy_queue (cl_sys d) = [])
     \<and> (sy_controller (cl_sys d) = None \<longleftrightarrow> sy_controller y0 = None)
     \<and> (sy_controller y0 = None \<longrightarrow> \<not> cl_controller d \<and> \<not> cl_ticker d)
     \<and> (sy_controller y0 \<noteq> None \<longrightarrow> (pool_held d \<longrightarrow> cl_controller d) \<and> (pacer_held d \<longrightarrow> cl_ticker d))"

lemma closing_inv_start: "closing_inv y (closing_start y)"
  by (auto simp: closing_inv_def closing_start_def)

text \<open>A worker that has left has no step, and what the others do does not bring it back.\<close>

lemma work_queue_empty:
  assumes "work e i w y = Some y'" and "sy_queue y = []"
  shows "sy_queue y' = []" and "sy_workers y ! w \<noteq> Idle"
proof -
  obtain oc where oc: "worker_step e i (sy_workers y ! w) (sy_shared y) (sy_queue y) = Some oc" "sy_queue y' = oc_queue oc"
    using assms(1) by (auto simp: work_def split: if_splits)
  then show "sy_workers y ! w \<noteq> Idle" using assms(2) by auto
  from worker_step_items [OF oc(1)] show "sy_queue y' = []" using oc assms(2)
    by (cases "sy_workers y ! w") (auto split: prod.splits option.splits sum.splits decision.splits)
qed

lemma work_frame:
  assumes "work e i w y = Some y'"
  shows "length (sy_workers y') = length (sy_workers y)" "sy_controller y' = sy_controller y" "v \<noteq> w \<Longrightarrow> sy_workers y' ! v = sy_workers y ! v"
  using assms by (auto simp: work_def split: if_splits)

lemma closing_inv_step:
  assumes "closing_inv y0 d" and "close_step e d d'"
  shows "closing_inv y0 d'"
  using assms(2)
proof (cases rule: close_step.cases)
  case (close_work w i y)
  have "pool_held d' = pool_held d" "pacer_held d' = pacer_held d"
    by (auto simp: close_work(1) pool_held_def pacer_held_def work_frame(1) [OF close_work(3)])
  moreover have "v < length (sy_workers y) \<and> sy_workers y ! v = Idle \<and> sy_queue y = []" if "v \<in> cl_exited d" for v
  proof -
    have "v \<noteq> w" using that close_work(2) by blast
    moreover have "v < length (sy_workers (cl_sys d)) \<and> sy_workers (cl_sys d) ! v = Idle \<and> sy_queue (cl_sys d) = []"
      using assms(1) that by (simp add: closing_inv_def)
    ultimately show ?thesis using work_frame [OF close_work(3)] work_queue_empty(1) [OF close_work(3)] by simp
  qed
  ultimately show ?thesis using assms(1) work_frame(2) [OF close_work(3)] by (auto simp: closing_inv_def close_work(1))
next
  case (close_exit w)
  then show ?thesis using assms(1) by (auto simp: closing_inv_def pool_held_def pacer_held_def)
next
  case (close_tick c elapsed now c' s)
  then show ?thesis using assms(1) by (auto simp: closing_inv_def pool_held_def pacer_held_def)
next
  case (close_refill seconds)
  then show ?thesis using assms(1) by (auto simp: closing_inv_def pool_held_def pacer_held_def pacer_refill_def)
qed (use assms(1) in \<open>auto simp: closing_inv_def pool_held_def pacer_held_def\<close>)

lemma closing_inv_steps: "(close_step e)\<^sup>*\<^sup>* d d' \<Longrightarrow> closing_inv y0 d \<Longrightarrow> closing_inv y0 d'"
  by (induction rule: rtranclp_induct) (auto intro: closing_inv_step)

section \<open>A closing client is still the system\<close>

lemma close_step_sys:
  assumes "closing_inv y0 d" and "close_step e d d'"
  shows "cl_sys d' = cl_sys d \<or> sys_step e (cl_sys d) (cl_sys d')" and "sy_issued (cl_sys d') = sy_issued (cl_sys d)"
    and "length (sy_workers (cl_sys d')) = length (sy_workers (cl_sys d))"
proof -
  have "(cl_sys d' = cl_sys d \<or> sys_step e (cl_sys d) (cl_sys d')) \<and> sy_issued (cl_sys d') = sy_issued (cl_sys d)
    \<and> length (sy_workers (cl_sys d')) = length (sy_workers (cl_sys d))"
    using assms(2)
  proof (cases rule: close_step.cases)
    case (close_work w i y)
    then show ?thesis using step_work [OF close_work(3)] by (auto simp: work_def split: if_splits)
  next
    case (close_tick c elapsed now c' s)
    then show ?thesis using step_tick [OF close_tick(4,5)] by simp
  next
    case (close_refill seconds)
    then have "sy_controller (cl_sys d) \<noteq> None" using assms(1) by (auto simp: closing_inv_def)
    then show ?thesis using step_refill [OF _ close_refill(4)] close_refill(1) by (auto simp: pacer_refill_def)
  qed auto
  then show "cl_sys d' = cl_sys d \<or> sys_step e (cl_sys d) (cl_sys d')" "sy_issued (cl_sys d') = sy_issued (cl_sys d)"
    "length (sy_workers (cl_sys d')) = length (sy_workers (cl_sys d))" by blast+
qed

lemma close_steps_sys:
  assumes "(close_step e)\<^sup>*\<^sup>* d d'" and "closing_inv y0 d" and "sys_reachable e y (cl_sys d)"
  shows "closing_inv y0 d' \<and> sys_reachable e y (cl_sys d') \<and> sy_issued (cl_sys d') = sy_issued (cl_sys d)
    \<and> length (sy_workers (cl_sys d')) = length (sy_workers (cl_sys d))"
  using assms(1)
proof induction
  case (step d1 d2)
  then have "closing_inv y0 d1" by blast
  from close_step_sys [OF this step(2)] closing_inv_step [OF this step(2)] step(3) show ?case
    by (auto intro: sys_run)
qed (use assms(2,3) in simp)

text \<open>The way the workers finish what is left is open to a closing client too.\<close>

lemma task_step_closes:
  assumes "task_step e (cl_sys d) y" and "closing_inv y0 d" and "pool_held d"
  shows "close_step e d (d\<lparr>cl_sys := y\<rparr>)" and "pool_held (d\<lparr>cl_sys := y\<rparr>)"
proof -
  show "pool_held (d\<lparr>cl_sys := y\<rparr>)" using assms(3) task_step_frame(3) [OF assms(1)] by (simp add: pool_held_def)
  from assms(1) show "close_step e d (d\<lparr>cl_sys := y\<rparr>)"
  proof (cases rule: task_step.cases)
    case (task_work i w)
    have "w \<notin> cl_exited d" using assms(2) work_queue_empty(2) [OF task_work] by (auto simp: closing_inv_def)
    then show ?thesis using task_work by (rule close_work)
  next
    case (task_refill seconds)
    have "pacer_held d" "cl_ticker d" using assms(2,3) task_refill(2) by (auto simp: closing_inv_def pacer_held_def)
    then show ?thesis using close_refill [of d seconds e] task_refill by simp
  qed
qed

lemma task_steps_close:
  assumes "(task_step e)\<^sup>*\<^sup>* (cl_sys d) y" and "closing_inv y0 d" and "pool_held d"
  shows "(close_step e)\<^sup>*\<^sup>* d (d\<lparr>cl_sys := y\<rparr>) \<and> pool_held (d\<lparr>cl_sys := y\<rparr>)"
  using assms(1)
proof induction
  case (step y1 y2)
  let ?d1 = "d\<lparr>cl_sys := y1\<rparr>"
  have "closing_inv y0 ?d1" using closing_inv_steps [of e d ?d1] step(3) assms(2) by blast
  from task_step_closes [of e ?d1, OF _ this] step(2,3) show ?case by (auto intro: rtranclp.rtrancl_into_rtrancl)
qed (use assms(3) in simp)

lemma workers_exit:
  assumes "quiescent (cl_sys d)" and "m \<le> length (sy_workers (cl_sys d))"
  shows "(close_step e)\<^sup>*\<^sup>* d (d\<lparr>cl_exited := cl_exited d \<union> {0..<m}\<rparr>)"
  using assms(2)
proof (induction m)
  case (Suc m)
  let ?d = "d\<lparr>cl_exited := cl_exited d \<union> {0..<m}\<rparr>" and ?d' = "d\<lparr>cl_exited := cl_exited d \<union> {0..<Suc m}\<rparr>"
  have "?d' = ?d \<or> close_step e ?d ?d'"
  proof (cases "m \<in> cl_exited d")
    case True
    then have "cl_exited d \<union> {0..<Suc m} = cl_exited d \<union> {0..<m}" by (auto simp: less_Suc_eq)
    then show ?thesis by simp
  next
    case False
    have "cl_exited d \<union> {0..<Suc m} = insert m (cl_exited d \<union> {0..<m})" by auto
    then show ?thesis using close_exit [of m ?d e] False Suc.prems assms(1) by (simp add: quiescent_def)
  qed
  then show ?case using Suc by (metis Suc_leD rtranclp.rtrancl_into_rtrancl)
qed simp

lemma no_worker_left:
  assumes "closing_inv y0 d" and "\<not> pool_held d" and "sy_workers (cl_sys d) \<noteq> []"
  shows "quiescent (cl_sys d)"
proof -
  have "0 \<in> cl_exited d" using assms(2,3) by (auto simp: pool_held_def)
  then have "sy_queue (cl_sys d) = []" using assms(1) by (auto simp: closing_inv_def)
  moreover have "\<forall>w < length (sy_workers (cl_sys d)). sy_workers (cl_sys d) ! w = Idle"
    using assms(1,2) by (auto simp: pool_held_def closing_inv_def)
  ultimately show ?thesis by (auto simp: quiescent_def in_set_conv_nth)
qed

text \<open>With the workers gone the control loop ends, and with it the ticker.\<close>

lemma others_end:
  assumes "\<not> pool_held d"
  shows "\<exists>d'. (close_step e)\<^sup>*\<^sup>* d d' \<and> all_ended d' \<and> cl_sys d' = cl_sys d"
proof -
  let ?d1 = "d\<lparr>cl_controller := False\<rparr>" and ?d2 = "d\<lparr>cl_controller := False, cl_ticker := False\<rparr>"
  have "?d1 = d \<or> close_step e d ?d1" using close_controller [of d e] assms by (cases "cl_controller d") auto
  moreover have "?d2 = ?d1 \<or> close_step e ?d1 ?d2"
    using close_ticker [of ?d1 e] assms by (cases "cl_ticker d") (auto simp: pacer_held_def pool_held_def)
  ultimately have "(close_step e)\<^sup>*\<^sup>* d ?d2" by (metis rtranclp.rtrancl_into_rtrancl rtranclp.rtrancl_refl)
  then show ?thesis using assms by (intro exI [of _ ?d2]) (simp add: all_ended_def pool_held_def)
qed

lemma closing_ends:
  assumes "semaphore (ev_sem e)" and "drain_inv e cap (cl_sys d)" and "0 < cap" and "length (sy_workers (cl_sys d)) < 2 ^ 64"
    and "closing_inv y0 d" and "sy_workers (cl_sys d) \<noteq> []"
  shows "\<exists>d'. (close_step e)\<^sup>*\<^sup>* d d' \<and> all_ended d' \<and> quiescent (cl_sys d')"
proof -
  obtain d1 where d1: "(close_step e)\<^sup>*\<^sup>* d d1" "quiescent (cl_sys d1)"
  proof (cases "pool_held d")
    case True
    from drains [OF assms(1-4,6)] obtain y where "(task_step e)\<^sup>*\<^sup>* (cl_sys d) y" "quiescent y" by blast
    then show thesis using task_steps_close [OF _ assms(5) True] that by fastforce
  qed (use no_worker_left [OF assms(5) _ assms(6)] that in blast)
  let ?d2 = "d1\<lparr>cl_exited := cl_exited d1 \<union> {0..<length (sy_workers (cl_sys d1))}\<rparr>"
  have "(close_step e)\<^sup>*\<^sup>* d1 ?d2" by (rule workers_exit [OF d1(2)]) simp
  moreover obtain d3 where "(close_step e)\<^sup>*\<^sup>* ?d2 d3" "all_ended d3" "cl_sys d3 = cl_sys d1"
    using others_end [of ?d2 e] by (auto simp: pool_held_def)
  ultimately show ?thesis using d1 by (metis rtranclp_trans)
qed

section \<open>Properties\<close>

text \<open>A client that has been used, none of whose calls is under way any more.\<close>

definition droppable :: "('s, 'c) session \<Rightarrow> bool" where
  "droppable z \<longleftrightarrow> bc_workers_spawned (se_client z) \<and> list_all over (se_callers z)"

abbreviation dropped :: "('s, 'c) session \<Rightarrow> 's closing" where
  "dropped z \<equiv> closing_start (bc_sys (se_client z))"

lemma dropped_runs:
  assumes "session_fresh e l cap c0" and "(session_step e l)\<^sup>*\<^sup>* (session_start c0) z" and "droppable z"
    and "(close_step e)\<^sup>*\<^sup>* (dropped z) d"
  shows "closing_inv (bc_sys (se_client z)) d" and "sys_reachable e (bc_sys (started l c0)) (cl_sys d)"
    and "sy_issued (cl_sys d) = sy_issued (bc_sys (se_client z))"
    and "drain_inv e cap (cl_sys d)" and "length (sy_workers (cl_sys d)) < 2 ^ 64" and "sy_workers (cl_sys d) \<noteq> []"
proof -
  have run: "session_run e l c0 z" using session_reach_inv [OF assms(1,2)] by (simp add: session_inv_def)
  then have reach: "sys_reachable e (bc_sys (started l c0)) (bc_sys (se_client z))" using assms(3) by (simp add: session_run_def droppable_def)
  from close_steps_sys [OF assms(4) closing_inv_start] reach
  have d: "closing_inv (bc_sys (se_client z)) d" "sys_reachable e (bc_sys (started l c0)) (cl_sys d)"
    "sy_issued (cl_sys d) = sy_issued (bc_sys (se_client z))" "length (sy_workers (cl_sys d)) = length (sy_workers (bc_sys (se_client z)))"
    by (auto simp: closing_start_def)
  then show "closing_inv (bc_sys (se_client z)) d" "sys_reachable e (bc_sys (started l c0)) (cl_sys d)"
    "sy_issued (cl_sys d) = sy_issued (bc_sys (se_client z))" by simp_all
  show "drain_inv e cap (cl_sys d)" by (rule sys_reachable_drain(1) [OF d(2)]) (use assms(1) in \<open>simp_all add: session_fresh_def\<close>)
  show "length (sy_workers (cl_sys d)) < 2 ^ 64" "sy_workers (cl_sys d) \<noteq> []"
    using session_drain_inv [OF assms(1) run] assms(3) d(4) by (auto simp: droppable_def)
qed

lemma serves_controller:
  assumes "serves h e l config c0"
  shows "sy_controller (bc_sys (started l c0)) = None \<longleftrightarrow> \<not> adaptive config"
proof -
  obtain resolvers now os os' where c: "with_config h resolvers config now os = Some (Inr c0, os')" and env: "semaphore (ho_sem h)"
    "ev_sem e = ho_sem h" "le_sem l = ho_sem h" "length (le_probe_replies l) = length (bc_resolvers c0)"
    using assms by (auto simp: serves_def)
  from client_fresh(5) [OF env(1,2) c env(4), of "le_connector l", folded env(3)] show ?thesis by simp
qed

text \<open>At rest every permit is free.\<close>

lemma permits_back:
  assumes "sys_inv e cap y" and "quiescent y" and "h \<in> set (resolvers_of y)"
  shows "free_permits (ev_sem e) h = cap"
proof -
  have "filter (holds k) (sy_workers y) = []" for k using assms(2) by (auto simp: quiescent_def filter_empty_conv holds_def)
  then show ?thesis using assms(1,3) by (auto simp: sys_inv_def Let_def in_set_conv_nth)
qed

text \<open>
  C4. A dropped client winds down in order. Once the last handle is gone, and however the tasks interleave, a
  worker leaves only when the queue is empty and it has nothing in hand. If the client adapts, the
  control loop outlives every worker, and the ticker outlives the control loop, so that nobody is left
  waiting for a token that no one would refill. When all tasks have ended, every item that was ever put
  on the queue has been answered, also those whose callers have gone, and every permit is back.
\<close>

theorem closing_order:
  assumes "serves h e l config c0" and "(session_step e l)\<^sup>*\<^sup>* (session_start c0) z" and "droppable z"
    and "(close_step e)\<^sup>*\<^sup>* (dropped z) d"
  shows "(\<forall>w \<in> cl_exited d. sy_workers (cl_sys d) ! w = Idle \<and> sy_queue (cl_sys d) = [])
    \<and> (adaptive config \<longrightarrow> (pool_held d \<longrightarrow> cl_controller d) \<and> (cl_controller d \<longrightarrow> cl_ticker d))
    \<and> (\<forall>w < length (sy_workers (cl_sys d)). awaits_token (sy_workers (cl_sys d) ! w) \<longrightarrow> cl_ticker d)
    \<and> (all_ended d \<longrightarrow> set (map fst (sy_answers (cl_sys d))) = {0..<sy_issued (bc_sys (se_client z))}
         \<and> (\<forall>h \<in> set (resolvers_of (cl_sys d)). free_permits (ev_sem e) h = unat (max (max_inflight_per_resolver config) 1)))"
proof -
  note fresh = serves_fresh [OF assms(1)]
  note d = dropped_runs [OF fresh assms(2-4)]
  have sem: "semaphore (ev_sem e)" "drain_inv e (unat (max (max_inflight_per_resolver config) 1)) (bc_sys (started l c0))"
    "sys_fresh e (unat (max (max_inflight_per_resolver config) 1)) (bc_sys (started l c0))" using fresh by (simp_all add: session_fresh_def)
  have ctl: "sy_controller (cl_sys d) = None \<longleftrightarrow> \<not> adaptive config"
    using sys_reachable_drain(4) [OF d(2) sem(1,2)] serves_controller [OF assms(1)] by simp
  have "cl_ticker d" if "w < length (sy_workers (cl_sys d))" "awaits_token (sy_workers (cl_sys d) ! w)" for w
  proof -
    have "sy_controller (cl_sys d) \<noteq> None" using d(4) that nth_mem [OF that(1)] by (auto simp: drain_inv_def unpaced_inv_def)
    moreover have "pool_held d" using d(1) that by (auto simp: closing_inv_def pool_held_def)
    ultimately show ?thesis using d(1) by (auto simp: closing_inv_def pacer_held_def)
  qed
  moreover have "set (map fst (sy_answers (cl_sys d))) = {0..<sy_issued (bc_sys (se_client z))}
      \<and> (\<forall>h \<in> set (resolvers_of (cl_sys d)). free_permits (ev_sem e) h = unat (max (max_inflight_per_resolver config) 1))" if "all_ended d"
  proof -
    have q: "quiescent (cl_sys d)" using no_worker_left [OF d(1) _ d(6)] that by (simp add: all_ended_def)
    note inv = sys_reachable_inv [OF d(2) sem(1,3)]
    show ?thesis using ids_inv_rest [OF inv(2) q] permits_back [OF inv(1) q] d(3) by simp
  qed
  ultimately show ?thesis using d(1) ctl by (auto simp: closing_inv_def pacer_held_def)
qed

text \<open>
  C15. No task of a dropped client is left behind. Whatever the client has been through, and however far it
  has wound down already, there is a way on to the end of every worker, of the control loop and of the
  ticker.
\<close>

theorem client_winds_down:
  assumes "serves h e l config c0" and "(session_step e l)\<^sup>*\<^sup>* (session_start c0) z" and "droppable z"
    and "(close_step e)\<^sup>*\<^sup>* (dropped z) d"
  shows "\<exists>d'. (close_step e)\<^sup>*\<^sup>* d d' \<and> all_ended d' \<and> quiescent (cl_sys d')"
proof -
  note fresh = serves_fresh [OF assms(1)]
  note d = dropped_runs [OF fresh assms(2-4)]
  show ?thesis by (rule closing_ends [OF _ d(4) _ d(5,1,6)]) (use fresh in \<open>simp_all add: session_fresh_def\<close>)
qed

text \<open>A client whose one lookup was dropped while its item was on the queue.\<close>

lemma sample_dropped:
  obtains z where "(session_step sample_env sample_lookups)\<^sup>*\<^sup>* (session_start sample_client) z" "droppable z"
    "se_callers z = [Cancelled [0]]" "sy_issued (bc_sys (se_client z)) = 1"
proof -
  obtain c where w: "(session_step sample_env sample_lookups)\<^sup>*\<^sup>* (session_start sample_client) \<lparr>se_client = c, se_callers = [Waiting ''a.'' RT_A [0]]\<rparr>"
    "bc_workers_spawned c" by (rule sample_waiting)
  let ?z = "\<lparr>se_client = c, se_callers = [Waiting ''a.'' RT_A [0]]\<rparr>" and ?z' = "\<lparr>se_client = c, se_callers = [Cancelled [0]]\<rparr>"
  have "session_step sample_env sample_lookups ?z ?z'" using sess_cancel [of 0 ?z sample_env sample_lookups] by simp
  then have r: "(session_step sample_env sample_lookups)\<^sup>*\<^sup>* (session_start sample_client) ?z'"
    by (rule rtranclp.rtrancl_into_rtrancl [of "session_step sample_env sample_lookups", OF w(1)])
  note fresh = serves_fresh [OF sample_serves_all]
  have "tickets_inv ?z'" using session_reach_inv [OF fresh r] by (simp add: session_inv_def)
  then have "mset [0..<sy_issued (bc_sys c)] = mset [0]" by (simp add: tickets_inv_def)
  then have "sy_issued (bc_sys c) = 1" by (metis One_nat_def diff_zero length_Cons length_upt list.size(3) size_mset)
  then show thesis using that [OF r] w(2) by (simp add: droppable_def)
qed

theorem client_winds_down_witness:
  "\<exists>z d. (session_step sample_env sample_lookups)\<^sup>*\<^sup>* (session_start sample_client) z \<and> se_callers z = [Cancelled [0]]
     \<and> (close_step sample_env)\<^sup>*\<^sup>* (dropped z) d \<and> all_ended d"
proof (rule sample_dropped)
  fix z
  assume z: "(session_step sample_env sample_lookups)\<^sup>*\<^sup>* (session_start sample_client) z" "droppable z" "se_callers z = [Cancelled [0]]"
  from client_winds_down [OF sample_serves_all z(1,2) rtranclp.rtrancl_refl] z show ?thesis by blast
qed

theorem closing_order_witness:
  "\<exists>(z :: (nat, (Query, CacheEntry) lru_list) session) d. (close_step sample_env)\<^sup>*\<^sup>* (dropped z) d \<and> se_callers z = [Cancelled [0]] \<and> all_ended d
     \<and> set (map fst (sy_answers (cl_sys d))) = {0}"
proof (rule sample_dropped)
  fix z
  assume z: "(session_step sample_env sample_lookups)\<^sup>*\<^sup>* (session_start sample_client) z" "droppable z" "se_callers z = [Cancelled [0]]"
    "sy_issued (bc_sys (se_client z)) = 1"
  note fresh = serves_fresh [OF sample_serves_all]
  note d0 = dropped_runs [OF fresh z(1,2) rtranclp.rtrancl_refl]
  obtain d where d: "(close_step sample_env)\<^sup>*\<^sup>* (dropped z) d" "all_ended d"
    using closing_ends [OF _ d0(4) _ d0(5,1,6)] fresh by (auto simp: session_fresh_def)
  from closing_order [OF sample_serves_all z(1,2) d(1)] d z(3,4) show ?thesis by (intro exI [of _ z] exI [of _ d]) auto
qed

end
