(* ===== verification/Handles.thy ===== *)
theory Handles
  imports Client
begin

text \<open>
  Several handles on one client. \<open>BlastDNSClient\<close> of \<open>src/client.rs\<close> derives \<open>Clone\<close>: a clone shares the
  pool, the limiter, the queue and the cache, which are behind pointers, but has its own copy of the
  cell \<open>workers_spawned\<close>, since cloning a \<open>OnceCell\<close> copies what it holds. A handle starts workers at its first
  use when its own cell is empty, whatever the cells of the other handles hold.
\<close>

section \<open>State and operations\<close>

text \<open>
  The parts all handles share, and the cell of each. Each start makes a pacer and a control loop of its
  own; those of an earlier start go on beside it and are not followed here, where only the workers are counted.
\<close>

record ('s, 'c) handles =
  hd_client :: "('s, 'c) BlastDNSClient"
  hd_cells :: "bool list"

definition first_handle :: "('s, 'c) BlastDNSClient \<Rightarrow> ('s, 'c) handles" where
  "first_handle c = \<lparr>hd_client = c, hd_cells = [bc_workers_spawned c]\<rparr>"

definition clone_handle :: "nat \<Rightarrow> ('s, 'c) handles \<Rightarrow> ('s, 'c) handles" where
  "clone_handle i d = (if i < length (hd_cells d) then d\<lparr>hd_cells := hd_cells d @ [hd_cells d ! i]\<rparr> else d)"

text \<open>The start of a lookup through one handle, up to the point where the workers run.\<close>

definition use_handle :: "'s sem_ops \<Rightarrow> connector \<Rightarrow> query_end list \<Rightarrow> nat \<Rightarrow> ('s, 'c) handles \<Rightarrow> ('s, 'c) handles" where
  "use_handle S cn outs i d =
     (if i < length (hd_cells d)
      then let c = ensure_workers S cn outs ((hd_client d)\<lparr>bc_workers_spawned := hd_cells d ! i\<rparr>)
           in d\<lparr>hd_client := c, hd_cells := (hd_cells d)[i := bc_workers_spawned c]\<rparr>
      else d)"

definition use_all :: "'s sem_ops \<Rightarrow> connector \<Rightarrow> query_end list \<Rightarrow> ('s, 'c) handles \<Rightarrow> ('s, 'c) handles" where
  "use_all S cn outs d = fold (use_handle S cn outs) [0 ..< length (hd_cells d)] d"

definition worker_count :: "('s, 'c) handles \<Rightarrow> nat" where
  "worker_count d = length (sy_workers (bc_sys (hd_client d)))"

definition worker_target :: "BlastDNSConfig \<Rightarrow> nat" where
  "worker_target config = unat (max (max_concurrency config) 1)"

section \<open>Counting the workers\<close>

lemma clones_of_first:
  "(clone_handle 0 ^^ n) d = (if hd_cells d = [] then d else d\<lparr>hd_cells := hd_cells d @ replicate n (hd_cells d ! 0)\<rparr>)"
  by (induction n) (auto simp: clone_handle_def nth_append replicate_append_same)

lemma worker_count_cells [simp]: "worker_count (d\<lparr>hd_cells := bs\<rparr>) = worker_count d"
  by (simp add: worker_count_def)

lemma use_handle_facts:
  assumes "i < length (hd_cells d)"
  shows "hd_cells (use_handle S cn outs i d) = (hd_cells d)[i := True]"
    and "bc_config (hd_client (use_handle S cn outs i d)) = bc_config (hd_client d)"
    and "worker_count (use_handle S cn outs i d)
         = worker_count d + (if hd_cells d ! i then 0 else worker_target (bc_config (hd_client d)))"
  using assms
  by (simp_all add: use_handle_def ensure_workers_def start_sys_def worker_spawn_many worker_count_def worker_target_def Let_def)

text \<open>Using the handles one after the other starts one set of workers for each empty cell.\<close>

lemma fold_use_handle:
  assumes "m \<le> length (hd_cells d)"
  shows "let d' = fold (use_handle S cn outs) [0 ..< m] d
         in length (hd_cells d') = length (hd_cells d) \<and> (\<forall>i \<ge> m. hd_cells d' ! i = hd_cells d ! i)
            \<and> bc_config (hd_client d') = bc_config (hd_client d)
            \<and> worker_count d' = worker_count d + length (filter Not (take m (hd_cells d))) * worker_target (bc_config (hd_client d))"
  using assms
proof (induction m)
  case (Suc m)
  then show ?case by (simp add: Let_def use_handle_facts take_Suc_conv_app_nth)
qed simp

lemma use_all_count:
  "worker_count (use_all S cn outs d)
   = worker_count d + length (filter Not (hd_cells d)) * worker_target (bc_config (hd_client d))"
  using fold_use_handle [of "length (hd_cells d)" d S cn outs] by (simp add: use_all_def Let_def)

text \<open>
  C31. Of a client that has just been built, n clones made before the first use start n further sets of
  max_concurrency workers on the one queue and the one pool; clones made after the first use start none.
\<close>

theorem clones_multiply_workers:
  assumes "with_config h rs config now os = Some (Inr c, os')"
  shows "worker_count (use_all S cn outs ((clone_handle 0 ^^ n) (first_handle c))) = Suc n * worker_target config
         \<and> worker_count (use_all S cn outs ((clone_handle 0 ^^ n) (use_handle S cn outs 0 (first_handle c)))) = worker_target config"
proof -
  have c: "\<not> bc_workers_spawned c \<and> bc_config c = config \<and> sy_workers (bc_sys c) = []"
    using assms by (rule with_config_Inr) (simp add: idle_sys_def)
  let ?d = "use_handle S cn outs 0 (first_handle c)"
  have "worker_count ?d = worker_target config" "hd_cells ?d = [True]"
    using c use_handle_facts [of 0 "first_handle c" S cn outs] by (simp_all add: first_handle_def worker_count_def)
  moreover have "bc_config (hd_client ?d) = config"
    using c use_handle_facts(2) [of 0 "first_handle c" S cn outs] by (simp add: first_handle_def)
  moreover have "worker_count (first_handle c) = 0" "hd_cells (first_handle c) = [False]" "hd_client (first_handle c) = c"
    using c by (simp_all add: first_handle_def worker_count_def)
  ultimately show ?thesis using c by (simp add: use_all_count clones_of_first)
qed

theorem clones_multiply_workers_witness:
  "worker_count (use_all counting_sem sample_connector [] ((clone_handle 0 ^^ 2) (first_handle sample_client))) = 768"
proof -
  obtain os' where b: "with_config sample_host [''192.0.2.1'', ''192.0.2.2:5353''] config_default 0 sample_rlimit = Some (Inr sample_client, os')"
    using sample_build_Inr by (auto simp: sample_build_def)
  have "worker_target config_default = 256"
    by (simp add: worker_target_def config_default_def DEFAULT_MAX_CONCURRENCY_def u64_simps)
  with clones_multiply_workers [OF b, of counting_sem sample_connector "[]" 2] show ?thesis by simp
qed

end
