(* ===== verification/Mock.thy ===== *)
theory Mock
  imports Resolver
begin

text \<open>
  \<open>src/mock.rs\<close>: the mock client, its configuration and the responses it fabricates. Regular
  expressions and the DNS library's text parsers are the fields of \<open>mock_lib\<close>: compiling and matching
  a pattern, reading a record type, a name and record data (an error is its rendering), printing a
  record type, and encoding the fabricated message. A \<open>HashMap\<close> that is iterated is the list of its
  entries in the order of the iteration.
\<close>

record 're mock_lib =
  ml_regex_new :: "string \<Rightarrow> 're option"
  ml_is_match :: "'re \<Rightarrow> string \<Rightarrow> bool"
  ml_record_type :: "string \<Rightarrow> RecordType option"
  ml_show_record_type :: "RecordType \<Rightarrow> string"
  ml_name :: "string \<Rightarrow> string + Name"
  ml_rdata :: "RecordType \<Rightarrow> string \<Rightarrow> string + RData"
  ml_encode :: "DnsResponse \<Rightarrow> string + unit"

record 're MockBlastDNSClient =
  mock_data :: "string \<rightharpoonup> (RecordType \<rightharpoonup> string list)"
  regex_patterns :: "('re \<times> (RecordType \<rightharpoonup> string list)) list"
  nxdomain_hosts :: "string set"
  nxdomain_patterns :: "'re list"

definition mock_new :: "'re MockBlastDNSClient" where
  "mock_new = \<lparr>mock_data = Map.empty, regex_patterns = [], nxdomain_hosts = {}, nxdomain_patterns = []\<rparr>"

definition mock_clear :: "'re MockBlastDNSClient \<Rightarrow> 're MockBlastDNSClient" where
  "mock_clear m = m\<lparr>mock_data := Map.empty, regex_patterns := [], nxdomain_hosts := {}, nxdomain_patterns := []\<rparr>"

section \<open>Configuring\<close>

definition strip_prefix :: "string \<Rightarrow> string \<Rightarrow> string option" where
  "strip_prefix pre s = (if take (length pre) s = pre then Some (drop (length pre) s) else None)"

type_synonym records = "(string \<times> string list) list"

definition insert_record ::
  "'re mock_lib \<Rightarrow> string \<times> string list \<Rightarrow> (RecordType \<rightharpoonup> string list) \<Rightarrow> (RecordType \<rightharpoonup> string list)" where
  "insert_record L ra m =
     (case ml_record_type L (fst ra) of Some rt \<Rightarrow> m(rt \<mapsto> snd ra) | None \<Rightarrow> m)"

definition insert_exact ::
  "'re mock_lib \<Rightarrow> string \<Rightarrow> string \<times> string list \<Rightarrow> (string \<rightharpoonup> (RecordType \<rightharpoonup> string list))
     \<Rightarrow> (string \<rightharpoonup> (RecordType \<rightharpoonup> string list))" where
  "insert_exact L host ra data =
     (case ml_record_type L (fst ra) of
        Some rt \<Rightarrow> data(host \<mapsto> (case data host of Some m \<Rightarrow> m | None \<Rightarrow> Map.empty)(rt \<mapsto> snd ra))
      | None \<Rightarrow> data)"

definition mock_response :: "'re mock_lib \<Rightarrow> string \<times> records \<Rightarrow> 're MockBlastDNSClient \<Rightarrow> 're MockBlastDNSClient" where
  "mock_response L hr m =
     (case hr of (host, recs) \<Rightarrow>
        (case strip_prefix ''regex:'' host of
           Some pattern \<Rightarrow>
             (case ml_regex_new L pattern of
                Some regex \<Rightarrow> m\<lparr>regex_patterns := regex_patterns m @ [(regex, fold (insert_record L) recs Map.empty)]\<rparr>
              | None \<Rightarrow> m)
         | None \<Rightarrow> m\<lparr>mock_data := fold (insert_exact L host) recs (mock_data m)\<rparr>))"

definition mock_nxdomain :: "'re mock_lib \<Rightarrow> string \<Rightarrow> 're MockBlastDNSClient \<Rightarrow> 're MockBlastDNSClient" where
  "mock_nxdomain L host m =
     (case strip_prefix ''regex:'' host of
        Some pattern \<Rightarrow>
          (case ml_regex_new L pattern of
             Some regex \<Rightarrow> m\<lparr>nxdomain_patterns := nxdomain_patterns m @ [regex]\<rparr>
           | None \<Rightarrow> m)
      | None \<Rightarrow> m\<lparr>nxdomain_hosts := insert host (nxdomain_hosts m)\<rparr>)"

definition mock_dns ::
  "'re mock_lib \<Rightarrow> (string \<times> records) list \<Rightarrow> string list \<Rightarrow> 're MockBlastDNSClient \<Rightarrow> 're MockBlastDNSClient" where
  "mock_dns L responses nxdomains m =
     fold (mock_nxdomain L) nxdomains (fold (mock_response L) responses (mock_clear m))"

section \<open>Fabricating responses\<close>

definition parse_rdata :: "'re mock_lib \<Rightarrow> RecordType \<Rightarrow> string \<Rightarrow> BlastDNSError + RData option" where
  "parse_rdata L record_type rdata_str =
     (case ml_rdata L record_type rdata_str of
        Inr rdata \<Rightarrow> Inr (Some rdata)
      | Inl e \<Rightarrow> Inl (Configuration (''invalid mock '' @ ml_show_record_type L record_type @ '' record `'' @ rdata_str @ ''`: '' @ e)))"

fun answer_records ::
  "'re mock_lib \<Rightarrow> Name \<Rightarrow> RecordType \<Rightarrow> string list \<Rightarrow> BlastDNSError + DnsRecord list" where
  "answer_records L name rt [] = Inr []"
| "answer_records L name rt (s # ss) =
     (case parse_rdata L rt s of
        Inl e \<Rightarrow> Inl e
      | Inr None \<Rightarrow> answer_records L name rt ss
      | Inr (Some rdata) \<Rightarrow>
          map_sum id (Cons \<lparr>r_name = name, r_type = rt, r_ttl = 300, r_data = rdata\<rparr>) (answer_records L name rt ss))"

definition fabricate_response_with_code ::
  "'re mock_lib \<Rightarrow> string \<Rightarrow> RecordType \<Rightarrow> string list \<Rightarrow> ResponseCode \<Rightarrow> result" where
  "fabricate_response_with_code L host rt answers_data code =
     (case ml_name L (fqdn host) of
        Inl e \<Rightarrow> Inl (Configuration (''invalid name: '' @ e))
      | Inr name \<Rightarrow>
          (case answer_records L name rt answers_data of
             Inl e \<Rightarrow> Inl e
           | Inr answers \<Rightarrow>
               let message =
                 \<lparr>dr_id = 12345, dr_message_type = MT_Response, dr_op_code = OC_Query, dr_authoritative = False,
                  dr_truncated = False, dr_recursion_desired = True, dr_recursion_available = True,
                  dr_authentic_data = False, dr_checking_disabled = False, dr_response_code = code,
                  dr_queries = [(name, rt)], dr_answers = answers\<rparr>
               in case ml_encode L message of
                    Inl e \<Rightarrow> Inl (Configuration (''failed to create response: '' @ e))
                  | Inr _ \<Rightarrow> Inr message))"

definition fabricate_response :: "'re mock_lib \<Rightarrow> string \<Rightarrow> RecordType \<Rightarrow> string list \<Rightarrow> result" where
  "fabricate_response L host rt answers_data = fabricate_response_with_code L host rt answers_data NoError"

definition fabricate_nxdomain_response :: "'re mock_lib \<Rightarrow> string \<Rightarrow> RecordType \<Rightarrow> result" where
  "fabricate_nxdomain_response L host rt = fabricate_response_with_code L host rt [] NXDomain"

section \<open>Resolving\<close>

definition exact_answers :: "'re MockBlastDNSClient \<Rightarrow> string \<Rightarrow> RecordType \<Rightarrow> string list option" where
  "exact_answers m host rt = Option.bind (mock_data m host) (\<lambda>host_data. host_data rt)"

fun regex_answers ::
  "'re mock_lib \<Rightarrow> ('re \<times> (RecordType \<rightharpoonup> string list)) list \<Rightarrow> string \<Rightarrow> RecordType \<Rightarrow> string list option" where
  "regex_answers L [] host rt = None"
| "regex_answers L ((pattern, record_map) # ps) host rt =
     (case (if ml_is_match L pattern host then record_map rt else None) of
        Some answers_data \<Rightarrow> Some answers_data
      | None \<Rightarrow> regex_answers L ps host rt)"

definition resolve_full_impl :: "'re mock_lib \<Rightarrow> 're MockBlastDNSClient \<Rightarrow> string \<Rightarrow> RecordType \<Rightarrow> result" where
  "resolve_full_impl L m host rt =
     (if host \<in> nxdomain_hosts m then fabricate_nxdomain_response L host rt
      else if list_ex (\<lambda>pattern. ml_is_match L pattern host) (nxdomain_patterns m)
        then fabricate_nxdomain_response L host rt
      else case exact_answers m host rt of
             Some answers_data \<Rightarrow> fabricate_response L host rt answers_data
           | None \<Rightarrow>
               (case regex_answers L (regex_patterns m) host rt of
                  Some answers_data \<Rightarrow> fabricate_response L host rt answers_data
                | None \<Rightarrow> fabricate_response L host rt []))"

definition mock_resolve_full :: "'re mock_lib \<Rightarrow> 're MockBlastDNSClient \<Rightarrow> string \<Rightarrow> RecordType \<Rightarrow> result" where
  "mock_resolve_full L m host rt =
     resolve_full_impl L m (if rt = RT_PTR then format_ptr_query host else host) rt"

text \<open>The mock as an implementation of the trait: every call is answered from the same configuration.\<close>

definition mock_ask :: "'re mock_lib \<Rightarrow> 're MockBlastDNSClient \<Rightarrow> lookup" where
  "mock_ask L m i host rt = Some (mock_resolve_full L m host rt)"

interpretation mock: dns_resolver "mock_ask L m" for L m
  by unfold_locales (simp add: mock_ask_def mock_resolve_full_def)

interpretation mock_batch: batch_resolver "mock_ask L m" default_concurrency for L m
  by unfold_locales (simp_all add: mock_ask_def batch_width_def default_concurrency_def)

section \<open>What a configuration means\<close>

text \<open>
  The configuration read declaratively: the host is told not to exist, or an exact entry lists its
  answers, or the first compiled pattern that matches and has the type does.
\<close>

definition told_nxdomain :: "'re mock_lib \<Rightarrow> string list \<Rightarrow> string \<Rightarrow> bool" where
  "told_nxdomain L nxdomains host \<longleftrightarrow>
     (\<exists>x \<in> set nxdomains.
        case strip_prefix ''regex:'' x of
          None \<Rightarrow> x = host
        | Some p \<Rightarrow> (case ml_regex_new L p of Some regex \<Rightarrow> ml_is_match L regex host | None \<Rightarrow> False))"

lemma mock_nxdomain_frame [simp]:
  "mock_data (fold (mock_nxdomain L) xs m) = mock_data m"
  "regex_patterns (fold (mock_nxdomain L) xs m) = regex_patterns m"
  by (induction xs arbitrary: m) (simp_all add: mock_nxdomain_def split: option.splits)

lemma mock_response_frame [simp]:
  "nxdomain_hosts (fold (mock_response L) xs m) = nxdomain_hosts m"
  "nxdomain_patterns (fold (mock_response L) xs m) = nxdomain_patterns m"
  by (induction xs arbitrary: m) (auto simp: mock_response_def split: option.splits prod.splits)

lemma fold_nxdomain:
  "(host \<in> nxdomain_hosts (fold (mock_nxdomain L) xs m) \<or> list_ex (\<lambda>p. ml_is_match L p host) (nxdomain_patterns (fold (mock_nxdomain L) xs m)))
   \<longleftrightarrow> told_nxdomain L xs host \<or> host \<in> nxdomain_hosts m \<or> list_ex (\<lambda>p. ml_is_match L p host) (nxdomain_patterns m)"
  by (induction xs arbitrary: m) (auto simp: told_nxdomain_def mock_nxdomain_def split: option.splits)

lemma mock_dns_nxdomain:
  "host \<in> nxdomain_hosts (mock_dns L rs xs m) \<or> list_ex (\<lambda>p. ml_is_match L p host) (nxdomain_patterns (mock_dns L rs xs m))
   \<longleftrightarrow> told_nxdomain L xs host"
  by (simp add: mock_dns_def fold_nxdomain mock_clear_def)

text \<open>The records of one entry, as a map.\<close>

definition record_map :: "'re mock_lib \<Rightarrow> records \<Rightarrow> RecordType \<rightharpoonup> string list" where
  "record_map L recs = fold (insert_record L) recs Map.empty"

lemma record_map_snoc: "record_map L (recs @ [ra]) = insert_record L ra (record_map L recs)"
  by (simp add: record_map_def)

lemma fold_insert_exact:
  "Option.bind (fold (insert_exact L host) recs data host') (\<lambda>m. m rt)
     = (if host' = host then
          (case record_map L recs rt of Some as \<Rightarrow> Some as | None \<Rightarrow> Option.bind (data host) (\<lambda>m. m rt))
        else Option.bind (data host') (\<lambda>m. m rt))"
proof (induction recs rule: rev_induct)
  case (snoc ra recs)
  then show ?case
    by (cases "ml_record_type L (fst ra)"; cases "fold (insert_exact L host) recs data host")
      (auto simp: insert_exact_def record_map_snoc insert_record_def split: option.splits)
qed (simp add: record_map_def)

lemma exact_answers_response:
  "exact_answers (mock_response L (h, recs) m) host rt =
     (if h = host \<and> strip_prefix ''regex:'' h = None
      then (case record_map L recs rt of Some as \<Rightarrow> Some as | None \<Rightarrow> exact_answers m host rt)
      else exact_answers m host rt)"
  by (auto simp: exact_answers_def mock_response_def fold_insert_exact split: option.splits)

lemma exact_answers_fold:
  assumes "distinct (map fst rs)"
  shows "exact_answers (fold (mock_response L) rs m) host rt =
    (case (case strip_prefix ''regex:'' host of Some _ \<Rightarrow> None | None \<Rightarrow> Option.bind (map_of rs host) (\<lambda>recs. record_map L recs rt)) of
       Some as \<Rightarrow> Some as | None \<Rightarrow> exact_answers m host rt)"
  using assms
proof (induction rs arbitrary: m)
  case (Cons r rs)
  obtain h recs where r: "r = (h, recs)" by (cases r)
  have "map_of rs h = None" using Cons.prems by (simp add: r map_of_eq_None_iff)
  then show ?case using Cons by (auto simp: r exact_answers_response split: option.splits)
qed (simp split: option.splits)

definition compiled :: "'re mock_lib \<Rightarrow> string \<times> records \<Rightarrow> ('re \<times> (RecordType \<rightharpoonup> string list)) option" where
  "compiled L hr =
     Option.bind (strip_prefix ''regex:'' (fst hr)) (\<lambda>p. map_option (\<lambda>regex. (regex, record_map L (snd hr))) (ml_regex_new L p))"

lemma regex_patterns_fold:
  "regex_patterns (fold (mock_response L) rs m) = regex_patterns m @ List.map_filter (compiled L) rs"
  by (induction rs arbitrary: m)
    (auto simp: mock_response_def compiled_def record_map_def map_filter_simps split: option.splits Option.bind_splits)

definition mock_meaning ::
  "'re mock_lib \<Rightarrow> (string \<times> records) list \<Rightarrow> string list \<Rightarrow> string \<Rightarrow> RecordType \<Rightarrow> ResponseCode \<times> string list" where
  "mock_meaning L responses nxdomains host rt =
     (if told_nxdomain L nxdomains host then (NXDomain, [])
      else case (case strip_prefix ''regex:'' host of Some _ \<Rightarrow> None
                 | None \<Rightarrow> Option.bind (map_of responses host) (\<lambda>recs. record_map L recs rt)) of
             Some as \<Rightarrow> (NoError, as)
           | None \<Rightarrow>
               (case List.map_filter (\<lambda>(regex, m). if ml_is_match L regex host then m rt else None)
                       (List.map_filter (compiled L) responses) of
                  as # _ \<Rightarrow> (NoError, as) | [] \<Rightarrow> (NoError, [])))"

lemma regex_answers_first:
  "regex_answers L ps host rt =
     (case List.map_filter (\<lambda>(regex, m). if ml_is_match L regex host then m rt else None) ps of as # _ \<Rightarrow> Some as | [] \<Rightarrow> None)"
  by (induction L ps host rt rule: regex_answers.induct) (auto simp: map_filter_simps split: option.splits)

lemma resolve_full_impl_mock:
  assumes "distinct (map fst responses)"
  shows "resolve_full_impl L (mock_dns L responses nxdomains m) host rt =
    (case mock_meaning L responses nxdomains host rt of (code, as) \<Rightarrow> fabricate_response_with_code L host rt as code)"
proof (cases "told_nxdomain L nxdomains host")
  case True
  then show ?thesis using mock_dns_nxdomain [of host L responses nxdomains m]
    by (auto simp: resolve_full_impl_def mock_meaning_def fabricate_nxdomain_response_def)
next
  case False
  let ?m = "mock_dns L responses nxdomains m"
  have ex: "exact_answers ?m host rt = (case strip_prefix ''regex:'' host of Some _ \<Rightarrow> None
      | None \<Rightarrow> Option.bind (map_of responses host) (\<lambda>recs. record_map L recs rt))"
    using exact_answers_fold [OF assms, of L "mock_clear m" host rt]
    by (auto simp: exact_answers_def mock_dns_def mock_clear_def split: option.splits)
  have re: "regex_patterns ?m = List.map_filter (compiled L) responses"
    by (simp add: mock_dns_def regex_patterns_fold mock_clear_def)
  show ?thesis using False mock_dns_nxdomain [of host L responses nxdomains m]
    by (auto simp: resolve_full_impl_def mock_meaning_def ex re regex_answers_first fabricate_response_def
        split: option.splits list.splits)
qed

lemma answer_records_Inr:
  "answer_records L name rt as = Inr rs \<longleftrightarrow>
     map (ml_rdata L rt) as = map Inr (map r_data rs) \<and> (\<forall>r \<in> set rs. r_name r = name \<and> r_type r = rt \<and> r_ttl r = 300)"
proof (induction as arbitrary: rs)
  case (Cons s ss)
  show ?case
  proof (cases rs)
    case Nil
    then show ?thesis by (cases "answer_records L name rt ss") (auto simp: parse_rdata_def split: sum.splits)
  next
    case (Cons r rs')
    have "r = \<lparr>r_name = name, r_type = rt, r_ttl = 300, r_data = d\<rparr> \<longleftrightarrow> d = r_data r \<and> r_name r = name \<and> r_type r = rt \<and> r_ttl r = 300" for d
      by (cases r) auto
    then show ?thesis using Cons.IH [of rs'] Cons
      by (cases "answer_records L name rt ss") (auto simp: parse_rdata_def split: sum.splits)
  qed
qed auto

section \<open>Properties\<close>

text \<open>A library in which a pattern is a suffix and names and data are taken as they are.\<close>

definition suffix_lib :: "string mock_lib" where
  "suffix_lib =
     \<lparr>ml_regex_new = Some, ml_is_match = (\<lambda>p host. length p \<le> length host \<and> drop (length host - length p) host = p),
      ml_record_type = (\<lambda>s. if s = ''A'' then Some RT_A else if s = ''TXT'' then Some RT_TXT else None),
      ml_show_record_type = (\<lambda>rt. if rt = RT_A then ''A'' else ''TXT''), ml_name = Inr,
      ml_rdata = (\<lambda>rt s. if s = [] then Inl ''no data'' else Inr s), ml_encode = (\<lambda>_. Inr ())\<rparr>"

lemma suffix_lib_sel [simp]:
  "ml_name suffix_lib = Inr" "ml_rdata suffix_lib = (\<lambda>rt s. if s = [] then Inl ''no data'' else Inr s)"
  "ml_encode suffix_lib = (\<lambda>_. Inr ())"
  by (simp_all add: suffix_lib_def)

definition sample_responses :: "(string \<times> records) list" where
  "sample_responses =
     [(''regex:.example'', [(''A'', [''192.0.2.9'']), (''TXT'', [''wild'']), (''BOGUS'', [''x''])]),
      (''www.example'', [(''A'', [''192.0.2.1'', ''192.0.2.2''])])]"

definition sample_mock :: "string MockBlastDNSClient" where
  "sample_mock = mock_dns suffix_lib sample_responses [''regex:.invalid'', ''gone.example''] mock_new"



text \<open>
  A fabricated response carries the configured data and nothing else. It is returned exactly
  when the name parses, every configured string parses as data of the asked type and the message can
  be encoded; then its answers are those data in the configured order, under the asked name, type and
  a TTL of 300 seconds, and its one question is the one asked. A string that does not parse makes the
  lookup fail with a configuration error; it is never skipped.
\<close>

theorem fabricated_response:
  "(case fabricate_response_with_code L host rt as code of
      Inr resp \<Rightarrow>
        (\<exists>name. ml_name L (fqdn host) = Inr name \<and> dr_queries resp = [(name, rt)]
           \<and> map (ml_rdata L rt) as = map Inr (rdata_strings resp)
           \<and> (\<forall>r \<in> set (dr_answers resp). r_name r = name \<and> r_type r = rt \<and> r_ttl r = 300)
           \<and> dr_response_code resp = code \<and> ml_encode L resp = Inr ())
    | Inl err \<Rightarrow> (\<exists>text. err = Configuration text))"
proof (cases "ml_name L (fqdn host)")
  case (Inr name)
  show ?thesis
  proof (cases "answer_records L name rt as")
    case (Inl e)
    have "\<exists>text. e = Configuration text" using Inl
    proof (induction as arbitrary: e)
      case (Cons s ss)
      then show ?case by (cases "answer_records L name rt ss") (auto simp: parse_rdata_def split: sum.splits)
    qed simp
    then show ?thesis using Inr Inl by (simp add: fabricate_response_with_code_def)
  next
    case ans: (Inr rs)
    then show ?thesis using Inr answer_records_Inr [of L name rt as rs]
      by (auto simp: fabricate_response_with_code_def Let_def rdata_strings_def split: sum.splits)
  qed
qed (simp add: fabricate_response_with_code_def)

theorem fabricated_response_witness:
  "mock_resolve_full suffix_lib (mock_dns suffix_lib [(''a'', [(''A'', [''192.0.2.1'', []])])] [] mock_new) ''a'' RT_A
     = Inl (Configuration ''invalid mock A record ``: no data'')
   \<and> (\<exists>resp. fabricate_response_with_code suffix_lib ''a'' RT_A [''192.0.2.1''] NoError = Inr resp
        \<and> rdata_strings resp = [''192.0.2.1''] \<and> dr_queries resp = [(''a.'', RT_A)])"
proof -
  have "mock_resolve_full suffix_lib (mock_dns suffix_lib [(''a'', [(''A'', [''192.0.2.1'', []])])] [] mock_new) ''a'' RT_A
     = Inl (Configuration ''invalid mock A record ``: no data'')" by code_simp
  moreover obtain resp where resp: "fabricate_response_with_code suffix_lib ''a'' RT_A [''192.0.2.1''] NoError = Inr resp"
    by (simp add: fabricate_response_with_code_def parse_rdata_def fqdn_def Let_def)
  moreover have "rdata_strings resp = [''192.0.2.1''] \<and> dr_queries resp = [(''a.'', RT_A)]"
    using fabricated_response [of suffix_lib "''a''" RT_A "[''192.0.2.1'']" NoError]
    by (auto simp: resp fqdn_def)
  ultimately show ?thesis by blast
qed

end
