(* ===== verification/Cli.thy ===== *)
theory Cli
  imports Client
begin

text \<open>
  \<open>src/main.rs\<close>: the command line tool. What \<open>clap\<close> parsed is the record \<open>Args\<close>; reading the two
  input files is the operating system's and an argument. Modelled are the reading of record types and
  of the lists of resolvers and hosts, the configuration made from the arguments, the start of the run
  and the lines it prints, one JSON object per result. Turning a JSON value into text, and a message
  into a JSON value, is the serialiser's.
\<close>

section \<open>Text\<close>

definition ascii_upper :: "char \<Rightarrow> char" where
  "ascii_upper c = (let n = of_char c :: nat in if 97 \<le> n \<and> n \<le> 122 then char_of (n - 32) else c)"

definition cli_parse_record_type :: "(string \<Rightarrow> RecordType option) \<Rightarrow> string \<Rightarrow> string + RecordType" where
  "cli_parse_record_type from_str val =
     (case from_str (map ascii_upper (trim val)) of
        Some rt \<Rightarrow> Inr rt
      | None \<Rightarrow> Inl (''invalid record type `'' @ val @ ''`''))"

abbreviation newline :: char where "newline \<equiv> CHR 10"

definition strip_cr :: "string \<Rightarrow> string" where
  "strip_cr l = (if l \<noteq> [] \<and> last l = CHR 13 then butlast l else l)"

text \<open>\<open>str::lines\<close>: a line ends at a newline, which goes with a carriage return before it.\<close>

function str_lines :: "string \<Rightarrow> string list" where
  "str_lines s =
     (if s = [] then []
      else case dropWhile (\<lambda>c. c \<noteq> newline) s of
             [] \<Rightarrow> [s]
           | _ # rest \<Rightarrow> strip_cr (takeWhile (\<lambda>c. c \<noteq> newline) s) # str_lines rest)"
  by pat_completeness auto
termination
proof (relation "measure length")
  fix s rest :: string and c
  assume "dropWhile (\<lambda>c. c \<noteq> newline) s = c # rest"
  then show "(rest, s) \<in> measure length"
    using length_dropWhile_le [of "\<lambda>c. c \<noteq> newline" s] by simp
qed simp

declare str_lines.simps [simp del]

text \<open>What both loaders make of a line: the part before a \<open>#\<close>, trimmed.\<close>

definition clean_line :: "string \<Rightarrow> string" where
  "clean_line l = trim (takeWhile (\<lambda>c. c \<noteq> CHR ''#'') l)"

definition load_resolvers :: "string \<Rightarrow> string + string \<Rightarrow> string + string list" where
  "load_resolvers path contents =
     (case contents of
        Inl e \<Rightarrow> Inl e
      | Inr buf \<Rightarrow>
          let out = filter (\<lambda>l. l \<noteq> []) (map clean_line (str_lines buf))
          in if out = [] then Inl (''resolver list `'' @ path @ ''` is empty'') else Inr out)"

definition load_hosts :: "string + (string + string) list \<Rightarrow> string + string list" where
  "load_hosts reader =
     map_sum id (List.map_filter (\<lambda>line. case line of Inl _ \<Rightarrow> None
       | Inr l \<Rightarrow> let trimmed = clean_line l in if trimmed = [] then None else Some trimmed)) reader"

section \<open>Arguments\<close>

record Args =
  arg_resolvers :: string
  arg_record_type :: RecordType
  arg_max_inflight_per_resolver :: usize
  arg_max_concurrency :: usize
  arg_rate_limit :: f64
  arg_resolver_probe :: bool
  arg_no_adaptive :: bool
  arg_persistent_socket :: bool
  arg_timeout_ms :: u64
  arg_retries :: usize
  arg_purgatory_threshold :: usize
  arg_purgatory_sentence_ms :: u64
  arg_skip_empty :: bool
  arg_skip_errors :: bool
  arg_brief :: bool
  arg_cache_capacity :: usize

definition cli_config :: "Args \<Rightarrow> BlastDNSConfig" where
  "cli_config args =
     \<lparr>max_inflight_per_resolver = max (arg_max_inflight_per_resolver args) 1,
      max_concurrency = max (arg_max_concurrency args) 1,
      rate_limit = (if 0 < arg_rate_limit args then Some (arg_rate_limit args) else None),
      adaptive = (\<not> arg_no_adaptive args),
      resolver_probe = arg_resolver_probe args,
      persistent_socket = arg_persistent_socket args,
      request_timeout = from_millis (max (arg_timeout_ms args) 1),
      max_retries = arg_retries args,
      purgatory_threshold = arg_purgatory_threshold args,
      purgatory_sentence = from_millis (arg_purgatory_sentence_ms args),
      cache_capacity = arg_cache_capacity args,
      cache_min_ttl = DEFAULT_CACHE_MIN_TTL,
      cache_max_ttl = DEFAULT_CACHE_MAX_TTL\<rparr>"

definition cli_batch_args :: "Args \<Rightarrow> batch_args" where
  "cli_batch_args args =
     (if arg_brief args then resolve_batch_args (arg_record_type args)
      else \<lparr>ra_record_type = arg_record_type args, ra_skip_empty = arg_skip_empty args, ra_skip_errors = arg_skip_errors args\<rparr>)"

datatype cli_error = LoadResolvers string string | LoadHosts string | BuildClient BlastDNSError

definition cli_start ::
  "('os, 's, 'c) host \<Rightarrow> Args \<Rightarrow> string + string \<Rightarrow> string + (string + string) list \<Rightarrow> instant \<Rightarrow> 'os
     \<Rightarrow> ((cli_error + ('s, 'c) BlastDNSClient \<times> batch_args \<times> cli_error batch) \<times> 'os) option" where
  "cli_start h args resolver_file host_file now os =
     (case load_resolvers (arg_resolvers args) resolver_file of
        Inl e \<Rightarrow> Some (Inl (LoadResolvers (arg_resolvers args) e), os)
      | Inr resolvers \<Rightarrow>
          (case load_hosts host_file of
             Inl e \<Rightarrow> Some (Inl (LoadHosts e), os)
           | Inr hosts \<Rightarrow>
               map_option (\<lambda>(r, os'). (map_sum BuildClient (\<lambda>c. (c, cli_batch_args args, batch_start (map Inr hosts))) r, os'))
                 (with_config h resolvers (cli_config args) now os)))"

section \<open>Output\<close>

text \<open>The \<open>Debug\<close> form of a duration: the largest unit that fits, with the digits it needs.\<close>

definition show_nat :: "nat \<Rightarrow> string" where
  "show_nat n = show_int 10 (int n)"

definition show_decimal :: "nat \<Rightarrow> nat \<Rightarrow> nat \<Rightarrow> string" where
  "show_decimal digits whole part =
     show_nat whole
     @ (if part = 0 then []
        else ''.'' @ trim_end_matches (\<lambda>c. c = CHR ''0'')
               (replicate (digits - length (show_nat part)) (CHR ''0'') @ show_nat part))"

definition show_duration :: "duration \<Rightarrow> string" where
  "show_duration d =
     (if 1000000000 \<le> d then show_decimal 9 (d div 1000000000) (d mod 1000000000) @ ''s''
      else if 1000000 \<le> d then show_decimal 6 (d div 1000000) (d mod 1000000) @ ''ms''
      else if 1000 \<le> d then show_decimal 3 (d div 1000) (d mod 1000) @ [char_of (0xC2 :: nat), char_of (0xB5 :: nat)] @ ''s''
      else show_nat d @ ''ns'')"

definition show_error :: "BlastDNSError \<Rightarrow> string" where
  "show_error e =
     (case e of
        NoResolvers \<Rightarrow> ''no resolvers provided''
      | InvalidResolver r \<Rightarrow> ''invalid resolver `'' @ r @ ''`''
      | InvalidHostname n _ \<Rightarrow> ''invalid hostname `'' @ n @ ''`''
      | QueueClosed \<Rightarrow> ''request queue closed''
      | WorkerDropped \<Rightarrow> ''resolver workers dropped before delivering a response''
      | ResolverSetupFailed a _ \<Rightarrow> ''failed to initialize resolver '' @ show_socket_addr a
      | ResolverRequestFailed a _ \<Rightarrow> ''resolver '' @ show_socket_addr a @ '' query failed''
      | QueryTimedOut a t \<Rightarrow> ''resolver '' @ show_socket_addr a @ '' did not answer within '' @ show_duration t
      | Configuration s \<Rightarrow> ''configuration error: '' @ s)"

datatype Json = JNull | JBool bool | JNum int | JFloat f64 | JStr string | JArr "Json list" | JObj "(string \<times> Json) list"

record json_lib =
  jl_to_string :: "Json \<Rightarrow> string + string"
  jl_message :: "DnsResponse \<Rightarrow> Json"
  jl_show_record_type :: "RecordType \<Rightarrow> string"

definition brief_payload :: "string \<times> string \<times> string list \<Rightarrow> Json" where
  "brief_payload res =
     (case res of (host, record_type, answers) \<Rightarrow>
        JObj [(''host'', JStr host), (''record_type'', JStr record_type), (''answers'', JArr (map JStr answers))])"

definition full_payload :: "json_lib \<Rightarrow> string \<times> result \<Rightarrow> Json" where
  "full_payload J res =
     (case res of
        (host, Inr response) \<Rightarrow> JObj [(''host'', JStr host), (''response'', jl_message J response)]
      | (host, Inl err) \<Rightarrow> JObj [(''host'', JStr host), (''error'', JStr (show_error err))])"

text \<open>The loop over the results: the lines printed, and the error that ended it, if one did.\<close>

fun print_results :: "('a \<Rightarrow> string + string) \<Rightarrow> 'a list \<Rightarrow> string list \<times> string option" where
  "print_results to_line [] = ([], None)"
| "print_results to_line (x # xs) =
     (case to_line x of
        Inl e \<Rightarrow> ([], Some e)
      | Inr l \<Rightarrow> (case print_results to_line xs of (ls, r) \<Rightarrow> (l # ls, r)))"

definition cli_output :: "json_lib \<Rightarrow> Args \<Rightarrow> (string \<times> result) list \<Rightarrow> string list \<times> string option" where
  "cli_output J args results =
     (if arg_brief args
      then print_results (\<lambda>x. jl_to_string J (brief_payload x)) (resolve_batch (jl_show_record_type J) (arg_record_type args) results)
      else print_results (\<lambda>x. jl_to_string J (full_payload J x)) results)"

text \<open>
  The arguments are normalised as a configuration that crosses the Python boundary is, but for the
  sentence of a benched resolver, which is taken as it is given, zero included.
\<close>

lemma cli_config_wire:
  "cli_config args =
     (config_from_wire \<lparr>w_max_inflight_per_resolver = arg_max_inflight_per_resolver args, w_max_concurrency = arg_max_concurrency args,
        w_rate_limit = Some (arg_rate_limit args), w_adaptive = (\<not> arg_no_adaptive args), w_resolver_probe = arg_resolver_probe args,
        w_persistent_socket = arg_persistent_socket args, w_request_timeout_ms = arg_timeout_ms args, w_max_retries = arg_retries args,
        w_purgatory_threshold = arg_purgatory_threshold args, w_purgatory_sentence_ms = arg_purgatory_sentence_ms args,
        w_cache_capacity = arg_cache_capacity args, w_cache_min_ttl_secs = 10, w_cache_max_ttl_secs = 86400\<rparr>)
     \<lparr>purgatory_sentence := from_millis (arg_purgatory_sentence_ms args)\<rparr>"
  by (simp add: cli_config_def config_from_wire_def DEFAULT_CACHE_MIN_TTL_def DEFAULT_CACHE_MAX_TTL_def)

lemma cli_client_ttls:
  assumes "with_config h resolvers (cli_config args) now os = Some (Inr c, os')"
  shows "ttls_ok c"
  using assms
  by (rule with_config_Inr)
    (auto simp: ttls_ok_def cli_config_def SimpleCache_new_def DEFAULT_CACHE_MIN_TTL_def DEFAULT_CACHE_MAX_TTL_def from_secs_def)

section \<open>Lists survive being written out\<close>

lemma leading_ws_eq_0_iff: "[] \<notin> set ws \<Longrightarrow> leading_ws ws t = 0 \<longleftrightarrow> (\<forall>w \<in> set ws. take (length w) t \<noteq> w)"
proof (cases "filter (\<lambda>w. take (length w) t = w) ws")
  case Nil
  then show ?thesis by (simp add: leading_ws_def filter_empty_conv)
next
  case (Cons w rest)
  moreover assume "[] \<notin> set ws"
  moreover have "w \<in> set ws \<and> take (length w) t = w"
    using Cons by (metis (mono_tags, lifting) list.set_intros(1) mem_Collect_eq set_filter)
  ultimately show ?thesis by (auto simp: leading_ws_def)
qed

lemma leading_ws_take:
  assumes "leading_ws ws s = 0" and "[] \<notin> set ws"
  shows "leading_ws ws (take n s) = 0"
proof -
  have "take (length w) (take n s) \<noteq> w" if "w \<in> set ws" for w
  proof
    assume w: "take (length w) (take n s) = w"
    then have "length w \<le> n" by (metis length_take min.bounded_iff order_refl)
    then have "take (length w) s = w" using w by (simp add: min_def)
    then show False using assms leading_ws_eq_0_iff that by blast
  qed
  then show ?thesis using assms(2) by (simp add: leading_ws_eq_0_iff)
qed

lemma strip_ws_drop: "\<exists>k. strip_ws ws s = drop k s"
proof (induction ws s rule: strip_ws.induct)
  case (1 ws s)
  show ?case
  proof (cases "leading_ws ws s = 0 \<or> s = []")
    case True
    then show ?thesis by (subst strip_ws.simps) (auto intro: exI [of _ 0])
  next
    case False
    with 1 obtain k where "strip_ws ws (drop (leading_ws ws s) s) = drop k (drop (leading_ws ws s) s)" by blast
    then show ?thesis using False by (subst strip_ws.simps) (auto intro: exI [of _ "k + leading_ws ws s"])
  qed
qed

lemma strip_ws_clean: "[] \<notin> set ws \<Longrightarrow> leading_ws ws (strip_ws ws s) = 0"
proof (induction ws s rule: strip_ws.induct)
  case (1 ws s)
  then show ?case
    by (subst strip_ws.simps) (auto simp: leading_ws_eq_0_iff)
qed

lemma strip_ws_id: "leading_ws ws s = 0 \<Longrightarrow> strip_ws ws s = s"
  by (subst strip_ws.simps) simp

lemma no_empty_ws: "[] \<notin> set whitespace" "[] \<notin> set (map rev whitespace)" "[CHR 13] \<in> set whitespace"
  by code_simp+

definition trimmed :: "string \<Rightarrow> bool" where
  "trimmed s \<longleftrightarrow> leading_ws whitespace s = 0 \<and> leading_ws (map rev whitespace) (rev s) = 0"

lemma trimmed_trim: "trimmed (trim s)"
proof -
  let ?p = "strip_ws whitespace s"
  obtain k where k: "strip_ws (map rev whitespace) (rev ?p) = drop k (rev ?p)" using strip_ws_drop by blast
  then have "trim s = take (length ?p - k) ?p" by (simp add: trim_def rev_drop)
  moreover have "leading_ws whitespace ?p = 0" by (rule strip_ws_clean [OF no_empty_ws(1)])
  ultimately have "leading_ws whitespace (trim s) = 0" using leading_ws_take [OF _ no_empty_ws(1)] by simp
  moreover have "leading_ws (map rev whitespace) (rev (trim s)) = 0"
    using strip_ws_clean [OF no_empty_ws(2)] by (simp add: trim_def)
  ultimately show ?thesis by (simp add: trimmed_def)
qed

lemma trim_id: "trimmed s \<Longrightarrow> trim s = s"
  by (simp add: trimmed_def trim_def strip_ws_id)

lemma trim_subset: "set (trim s) \<subseteq> set s"
proof -
  obtain j k where "trim s = rev (drop k (rev (drop j s)))" using strip_ws_drop unfolding trim_def by metis
  then show ?thesis using set_drop_subset [of k "rev (drop j s)"] set_drop_subset [of j s] by auto
qed

lemma strip_cr_trimmed:
  assumes "trimmed l"
  shows "strip_cr l = l"
proof (cases l rule: rev_cases)
  case (snoc xs c)
  have "[CHR 13] \<in> set (map rev whitespace)" using no_empty_ws(3) by (metis list.set_map image_eqI rev_singleton_conv)
  then have "take 1 (rev l) \<noteq> [CHR 13]"
    using assms leading_ws_eq_0_iff [OF no_empty_ws(2), of "rev l"]
    by (metis One_nat_def length_Cons list.size(3) trimmed_def)
  then show ?thesis by (simp add: strip_cr_def snoc)
qed (simp add: strip_cr_def)

lemma str_lines_no_newline: "l \<in> set (str_lines s) \<Longrightarrow> newline \<notin> set l"
proof (induction s rule: str_lines.induct)
  case (1 s)
  have cr: "set (strip_cr l) \<subseteq> set l" for l by (auto simp: strip_cr_def dest: in_set_butlastD)
  show ?case
  proof (cases "dropWhile (\<lambda>c. c \<noteq> newline) s")
    case Nil
    then have "str_lines s = (if s = [] then [] else [s])" by (subst str_lines.simps) (simp only: list.case)
    then have "l = s" using "1.prems" by (simp split: if_splits)
    then show ?thesis using Nil by (auto simp: dropWhile_eq_Nil_conv)
  next
    case (Cons c rest)
    then have "l = strip_cr (takeWhile (\<lambda>c. c \<noteq> newline) s) \<or> l \<in> set (str_lines rest)" "s \<noteq> []"
      using "1.prems" str_lines.simps [of s] by (auto split: if_splits)
    then show ?thesis using "1.IH" [OF _ Cons] cr [of "takeWhile (\<lambda>c. c \<noteq> newline) s"] by (auto dest: set_takeWhileD)
  qed
qed

text \<open>An entry of a list: cleaning it changes nothing.\<close>

definition entry :: "string \<Rightarrow> bool" where
  "entry l \<longleftrightarrow> l \<noteq> [] \<and> trimmed l \<and> newline \<notin> set l \<and> CHR ''#'' \<notin> set l"

lemma clean_line_entry: "newline \<notin> set l \<Longrightarrow> clean_line l \<noteq> [] \<Longrightarrow> entry (clean_line l)"
  using trim_subset [of "takeWhile (\<lambda>c. c \<noteq> CHR ''#'') l"]
  by (auto simp: entry_def clean_line_def trimmed_trim dest: set_takeWhileD)

lemma clean_line_id: "entry l \<Longrightarrow> clean_line l = l"
proof -
  assume "entry l"
  then have "takeWhile (\<lambda>c. c \<noteq> CHR ''#'') l = l" by (auto simp: entry_def takeWhile_eq_all_conv)
  moreover have "trim l = l" using \<open>entry l\<close> by (simp add: entry_def trim_id)
  ultimately show ?thesis unfolding clean_line_def by (simp only:)
qed

definition write_lines :: "string list \<Rightarrow> string" where
  "write_lines ls = concat (map (\<lambda>l. l @ [newline]) ls)"

lemma str_lines_write: "\<forall>l \<in> set ls. entry l \<Longrightarrow> str_lines (write_lines ls) = ls"
proof (induction ls)
  case Nil
  then show ?case by (simp add: write_lines_def str_lines.simps)
next
  case (Cons l ls)
  then have l: "newline \<notin> set l" "trimmed l" by (auto simp: entry_def)
  then have "dropWhile (\<lambda>c. c \<noteq> newline) (l @ newline # write_lines ls) = newline # write_lines ls"
    "takeWhile (\<lambda>c. c \<noteq> newline) (l @ newline # write_lines ls) = l"
    by (auto simp: dropWhile_append takeWhile_append)
  then show ?case using Cons l
    by (subst str_lines.simps) (simp add: write_lines_def strip_cr_trimmed)
qed

lemma load_resolvers_entries: "load_resolvers path (Inr buf) = Inr out \<Longrightarrow> out \<noteq> [] \<and> (\<forall>l \<in> set out. entry l)"
  by (auto simp: load_resolvers_def Let_def clean_line_entry str_lines_no_newline split: if_splits)

section \<open>Properties\<close>

text \<open>
  A list of resolvers survives being written out: the entries read from a file, one to a line,
  read back as the same entries. So comments, blank lines, surrounding white space and line endings
  of either kind leave no trace, and no entry is empty or carries a comment.
\<close>

theorem load_resolvers_roundtrip:
  assumes "load_resolvers path (Inr buf) = Inr out"
  shows "load_resolvers path' (Inr (write_lines out)) = Inr out \<and> (\<forall>l \<in> set out. l \<noteq> [] \<and> CHR ''#'' \<notin> set l \<and> trim l = l)"
proof -
  have e: "out \<noteq> []" "\<forall>l \<in> set out. entry l" using load_resolvers_entries [OF assms] by auto
  then have "filter (\<lambda>l. l \<noteq> []) (map clean_line out) = out"
    by (auto simp: clean_line_id entry_def intro!: filter_True map_idI trans [OF arg_cong [where f = "filter _"]])
  then show ?thesis using e by (auto simp: load_resolvers_def Let_def str_lines_write entry_def trim_id)
qed

theorem load_resolvers_roundtrip_witness:
  "load_resolvers ''r.txt'' (Inr (write_lines [''192.0.2.1'', ''192.0.2.2:53''])) = Inr [''192.0.2.1'', ''192.0.2.2:53'']"
proof -
  have "load_resolvers ''r.txt'' (Inr ('' 192.0.2.1 # first'' @ [CHR 13, newline] @ ''# none'' @ [newline, newline] @ ''192.0.2.2:53''))
      = Inr [''192.0.2.1'', ''192.0.2.2:53'']" by code_simp
  from load_resolvers_roundtrip [OF this] show ?thesis by blast
qed

lemma print_results_all: "(\<And>x. to_line x = Inr (f x)) \<Longrightarrow> print_results to_line xs = (map f xs, None)"
  by (induction xs) simp_all

lemma mset_map_filter: "mset xs = mset ys \<Longrightarrow> mset (List.map_filter f xs) = mset (List.map_filter f ys)"
  by (simp add: List.map_filter_def)

lemma load_hosts_oks: "load_hosts (Inr ls) = Inr (filter (\<lambda>l. l \<noteq> []) (map clean_line (oks ls)))"
  by (induction ls) (auto simp: load_hosts_def map_filter_simps Let_def split: sum.splits)

lemma cli_start_Inr:
  assumes "cli_start h args resolver_file host_file now os = Some (Inr (c, a, b0), os')"
  shows "\<exists>hosts. load_hosts host_file = Inr hosts \<and> a = cli_batch_args args \<and> b0 = batch_start (map Inr hosts)"
  using assms by (auto simp: cli_start_def map_sum_Inr_iff split: sum.splits)

text \<open>What is printed for the results of a run, in whatever order they came.\<close>

definition expected_lines :: "json_lib \<Rightarrow> (Json \<Rightarrow> string) \<Rightarrow> Args \<Rightarrow> (string \<times> result) list \<Rightarrow> string list" where
  "expected_lines J text args results =
     (if arg_brief args then map (text \<circ> brief_payload) (resolve_batch (jl_show_record_type J) (arg_record_type args) results)
      else map (text \<circ> full_payload J) results)"

lemma expected_lines_mset:
  assumes "mset xs = mset ys"
  shows "mset (expected_lines J text args xs) = mset (expected_lines J text args ys)"
  using assms by (simp add: expected_lines_def resolve_batch_def mset_map_filter [OF assms])


text \<open>A file with two resolvers, and one host to look up with the default options.\<close>

definition sample_args :: Args where
  "sample_args =
     \<lparr>arg_resolvers = ''r.txt'', arg_record_type = RT_A, arg_max_inflight_per_resolver = DEFAULT_MAX_INFLIGHT_PER_RESOLVER,
      arg_max_concurrency = DEFAULT_MAX_CONCURRENCY, arg_rate_limit = 0, arg_resolver_probe = False, arg_no_adaptive = False,
      arg_persistent_socket = False, arg_timeout_ms = 1000, arg_retries = DEFAULT_MAX_RETRIES,
      arg_purgatory_threshold = DEFAULT_PURGATORY_THRESHOLD, arg_purgatory_sentence_ms = 1000, arg_skip_empty = False,
      arg_skip_errors = False, arg_brief = False, arg_cache_capacity = DEFAULT_CACHE_CAPACITY\<rparr>"

lemma sample_args_config: "cli_config sample_args = config_default"
  by (simp add: cli_config_def sample_args_def config_default_def DEFAULT_REQUEST_TIMEOUT_def DEFAULT_PURGATORY_SENTENCE_def
      DEFAULT_MAX_INFLIGHT_PER_RESOLVER_def DEFAULT_MAX_CONCURRENCY_def)

lemma one_host_run:
  assumes "ask 0 host (ra_record_type a) = Some r" and "0 < width"
  shows "\<exists>b. (resolve_batch_full ask a width)\<^sup>*\<^sup>* (batch_start [Inr host]) b \<and> batch_finished b \<and> \<not> is_poisoned (ba_hosts b)"
proof -
  let ?out = "filter (batch_keep a) [(host, r)]"
  note steps = batch_at_rest_steps [where ask = ask and a = a and width = width]
  have s1: "resolve_batch_full ask a width (batch_start [Inr host]) (at_rest [] False 1 [(0, host)] [])"
    using steps(1) [of "[]" host "[]" 0 "[]"] assms(2) by (simp add: batch_start_def BlockingIteratorStream_new_def)
  have s2: "resolve_batch_full ask a width (at_rest [] False 1 [(0, host)] []) (at_rest [] False 1 [] ?out)"
    using steps(4) [of "(0, host)" "[(0, host)]" r "[]" False 1 "[]"] assms(1) by simp
  have s3: "resolve_batch_full ask a width (at_rest [] False 1 [] ?out) (at_rest [] True 1 [] ?out)"
    by (rule steps(3)) (use assms(2) in simp)
  let ?step = "resolve_batch_full ask a width"
  have "?step\<^sup>*\<^sup>* (batch_start [Inr host]) (at_rest [] True 1 [] ?out)"
    by (rule converse_rtranclp_into_rtranclp [of ?step, OF s1], rule converse_rtranclp_into_rtranclp [of ?step, OF s2],
        rule r_into_rtranclp [of ?step, OF s3])
  then show ?thesis by (intro exI [of _ "at_rest [] True 1 [] ?out"]) (simp add: batch_finished_def)
qed


end
