(* ===== verification/Zone.thy ===== *)
theory Zone
  imports Dns Utils
begin

text \<open>
  \<open>src/zone_transfer.rs\<close>: a full zone transfer over a connection of its own. Reading a name,
  connecting and the stream of messages the server sends belong to the DNS library and are arguments;
  the stream is the list of what it yields until it ends.
\<close>

record ZoneTransferResult =
  zt_zone :: string
  zt_nameserver :: SocketAddr
  zt_records :: "DnsRecord list"

record zone_lib =
  zl_name :: "string \<Rightarrow> ProtoErrorKind + Name"
  zl_connect :: "SocketAddr \<Rightarrow> duration \<Rightarrow> ProtoErrorKind + unit"
  zl_transfer :: "SocketAddr \<Rightarrow> Name \<Rightarrow> (ClientErrorKind + DnsResponse) list"

fun collect_transfer ::
  "SocketAddr \<Rightarrow> DnsRecord list \<Rightarrow> (ClientErrorKind + DnsResponse) list \<Rightarrow> BlastDNSError + DnsRecord list" where
  "collect_transfer addr all_records [] = Inr all_records"
| "collect_transfer addr all_records (Inl e # rest) = Inl (ResolverRequestFailed addr e)"
| "collect_transfer addr all_records (Inr response # rest) =
     collect_transfer addr (all_records @ dr_answers response) rest"

definition zone_transfer ::
  "zone_lib \<Rightarrow> string \<Rightarrow> string \<Rightarrow> duration \<Rightarrow> BlastDNSError + ZoneTransferResult" where
  "zone_transfer L nameserver zone timeout =
     (case parse_resolver nameserver of
        Inl e \<Rightarrow> Inl e
      | Inr addr \<Rightarrow>
          (case zl_name L (fqdn zone) of
             Inl e \<Rightarrow> Inl (InvalidHostname zone e)
           | Inr zone_name \<Rightarrow>
               (case zl_connect L addr timeout of
                  Inl e \<Rightarrow> Inl (ResolverSetupFailed addr e)
                | Inr _ \<Rightarrow>
                    map_sum id (\<lambda>records. \<lparr>zt_zone = zone, zt_nameserver = addr, zt_records = records\<rparr>)
                      (collect_transfer addr [] (zl_transfer L addr zone_name)))))"

lemma collect_transfer_Inr:
  "collect_transfer addr acc ms = Inr rs \<longleftrightarrow> (\<exists>resps. ms = map Inr resps \<and> rs = acc @ concat (map dr_answers resps))"
proof (induction addr acc ms rule: collect_transfer.induct)
  case (3 addr acc response rest)
  then show ?case by (auto simp: Cons_eq_map_conv)
qed auto

lemma collect_transfer_Inl:
  "collect_transfer addr acc ms = Inl err \<Longrightarrow>
     \<exists>resps e rest. ms = map Inr resps @ Inl e # rest \<and> err = ResolverRequestFailed addr e"
proof (induction addr acc ms rule: collect_transfer.induct)
  case (2 addr acc e rest)
  then show ?case by (intro exI [of _ "[]"]) auto
next
  case (3 addr acc response rest)
  then obtain resps e rest' where "rest = map Inr resps @ Inl e # rest'" "err = ResolverRequestFailed addr e" by auto
  then show ?case by (intro exI [of _ "response # resps"]) auto
qed simp

text \<open>
  A zone transfer is all or nothing. It returns records exactly when the address and the zone
  name parse, the connection stands and every message of the transfer arrived; then it returns the
  records of all of them, in order. After an error in the middle the caller gets that error, under the
  server's address, and none of the records received before it.
\<close>

theorem zone_transfer_whole:
  "zone_transfer L nameserver zone timeout = Inr res \<longleftrightarrow>
     (\<exists>addr name resps. parse_resolver nameserver = Inr addr \<and> zl_name L (fqdn zone) = Inr name
        \<and> zl_connect L addr timeout = Inr () \<and> zl_transfer L addr name = map Inr resps
        \<and> res = \<lparr>zt_zone = zone, zt_nameserver = addr, zt_records = concat (map dr_answers resps)\<rparr>)"
  by (auto simp: zone_transfer_def collect_transfer_Inr map_sum_Inr_iff split: sum.splits)

end
