(* ===== verification/Python.thy ===== *)
theory Python
  imports Cli Mock Zone "HOL-Library.AList"
begin

text \<open>
  \<open>src/python.rs\<close>: the Python bindings, as far as they are more than glue: record type arguments,
  exceptions, the methods of both clients, statistics, the dictionaries of results, the iterator over a
  Python iterable, and the batching of a stream of results into lists of at most a thousand. What
  belongs to Python or to the serialiser (which exception classes are loaded, extracting arguments, JSON
  text) is an argument. A method that returns a future is what the future comes to.
\<close>

section \<open>Exceptions\<close>

datatype PyErr =
    PyValueError string
  | PyRuntimeError string
  | PyStopAsyncIteration string
  | ConfigurationError string
  | NoResolversError string
  | ResolverError string

text \<open>
  The three cells that hold the package's exception classes once they are set; of what they hold it
  matters whether it is a class. The module they come from may fail to load, and what it lacks is
  \<^term>\<open>None\<close>, on which \<open>unwrap\<close> panics.
\<close>

record exception_types =
  ex_configuration :: "bool option"
  ex_no_resolvers :: "bool option"
  ex_resolver :: "bool option"

definition get_or_init :: "'a option \<Rightarrow> 'a option \<Rightarrow> 'a option option" where
  "get_or_init cell attr = (case cell of Some t \<Rightarrow> Some cell | None \<Rightarrow> map_option Some attr)"

definition init_exception_types :: "exception_types option \<Rightarrow> exception_types \<Rightarrow> exception_types option" where
  "init_exception_types loaded ex =
     (case loaded of
        None \<Rightarrow> Some ex
      | Some m \<Rightarrow>
          (case get_or_init (ex_configuration ex) (ex_configuration m) of
             None \<Rightarrow> None
           | Some conf \<Rightarrow>
               (case get_or_init (ex_no_resolvers ex) (ex_no_resolvers m) of
                  None \<Rightarrow> None
                | Some none \<Rightarrow>
                    map_option (\<lambda>res. \<lparr>ex_configuration = conf, ex_no_resolvers = none, ex_resolver = res\<rparr>)
                      (get_or_init (ex_resolver ex) (ex_resolver m)))))"

definition make_pyerr :: "bool \<Rightarrow> (string \<Rightarrow> PyErr) \<Rightarrow> string \<Rightarrow> PyErr option" where
  "make_pyerr is_class exc msg = (if is_class then Some (exc msg) else None)"

text \<open>The cells are those after the attempt to set them with which the conversion begins.\<close>

definition blastdns_error_to_pyerr :: "exception_types \<Rightarrow> BlastDNSError \<Rightarrow> PyErr" where
  "blastdns_error_to_pyerr ex err =
     (let msg = show_error err;
          result = (case err of
                      NoResolvers \<Rightarrow> Option.bind (ex_no_resolvers ex) (\<lambda>t. make_pyerr t NoResolversError msg)
                    | InvalidResolver _ \<Rightarrow> Option.bind (ex_configuration ex) (\<lambda>t. make_pyerr t ConfigurationError msg)
                    | InvalidHostname _ _ \<Rightarrow> Option.bind (ex_configuration ex) (\<lambda>t. make_pyerr t ConfigurationError msg)
                    | Configuration _ \<Rightarrow> Option.bind (ex_configuration ex) (\<lambda>t. make_pyerr t ConfigurationError msg)
                    | ResolverRequestFailed _ _ \<Rightarrow> Option.bind (ex_resolver ex) (\<lambda>t. make_pyerr t ResolverError msg)
                    | QueryTimedOut _ _ \<Rightarrow> Option.bind (ex_resolver ex) (\<lambda>t. make_pyerr t ResolverError msg)
                    | ResolverSetupFailed _ _ \<Rightarrow> Option.bind (ex_resolver ex) (\<lambda>t. make_pyerr t ResolverError msg)
                    | WorkerDropped \<Rightarrow> Option.bind (ex_resolver ex) (\<lambda>t. make_pyerr t ResolverError msg)
                    | QueueClosed \<Rightarrow> Option.bind (ex_resolver ex) (\<lambda>t. make_pyerr t ResolverError msg))
      in case result of
           Some e \<Rightarrow> e
         | None \<Rightarrow> PyRuntimeError (''blastdns exception types not initialized (packaging bug?): '' @ msg))"

text \<open>
  Setting the cells again changes nothing, and once they are set from a module that has the three
  classes, every error of the library is raised as one of them.
\<close>

lemma init_exception_types_again:
  "init_exception_types (Some m) ex = Some ex' \<Longrightarrow> init_exception_types m' ex' = Some ex'"
  by (cases ex', cases m') (auto simp: init_exception_types_def get_or_init_def split: option.splits)

lemma errors_have_classes:
  assumes "init_exception_types (Some \<lparr>ex_configuration = Some True, ex_no_resolvers = Some True, ex_resolver = Some True\<rparr>)
      \<lparr>ex_configuration = None, ex_no_resolvers = None, ex_resolver = None\<rparr> = Some ex"
  shows "blastdns_error_to_pyerr ex err
    \<in> {NoResolversError (show_error err), ConfigurationError (show_error err), ResolverError (show_error err)}"
  using assms
  by (cases err) (auto simp: init_exception_types_def get_or_init_def blastdns_error_to_pyerr_def make_pyerr_def)

section \<open>Arguments and results\<close>

definition py_parse_record_type :: "(string \<Rightarrow> RecordType option) \<Rightarrow> string option \<Rightarrow> PyErr + RecordType" where
  "py_parse_record_type from_str input =
     (case input of
        None \<Rightarrow> Inr RT_A
      | Some val \<Rightarrow>
          let trimmed_val = trim val
          in if trimmed_val = [] then Inr RT_A
             else case from_str (map ascii_upper trimmed_val) of
                    Some rt \<Rightarrow> Inr rt
                  | None \<Rightarrow> Inl (PyValueError (''invalid record type `'' @ val @ ''`'')))"

text \<open>The data of a record as the DNS library presents it: the addresses and names in it.\<close>

datatype rdata_view =
    RdA string | RdAAAA string | RdCNAME Name | RdNS Name | RdPTR Name | RdANAME Name
  | RdMX u16 Name | RdSRV Name | RdSOA Name | RdNAPTR Name | RdOther

text \<open>
  The libraries: what of a message the model's records do not carry (two sections, and the values the
  serialiser makes of library types) comes from here too.
\<close>

record py_lib =
  pl_exceptions :: exception_types
  pl_record_type :: "string \<Rightarrow> RecordType option"
  pl_show_record_type :: "RecordType \<Rightarrow> string"
  pl_config_json :: "string \<Rightarrow> string + BlastDNSConfigWire"
  pl_to_vec :: "Json \<Rightarrow> string + string"
  pl_rdata :: "DnsRecord \<Rightarrow> rdata_view"
  pl_dns_class :: "DnsRecord \<Rightarrow> string"
  pl_rdata_value :: "DnsRecord \<Rightarrow> Json option"
  pl_header_value :: "DnsResponse \<Rightarrow> Json option"
  pl_queries_value :: "DnsResponse \<Rightarrow> Json option"
  pl_signature_value :: "DnsResponse \<Rightarrow> Json option"
  pl_edns_value :: "DnsResponse \<Rightarrow> Json option"
  pl_name_servers :: "DnsResponse \<Rightarrow> DnsRecord list"
  pl_additionals :: "DnsResponse \<Rightarrow> DnsRecord list"

definition py_new ::
  "py_lib \<Rightarrow> ('os, 's, 'c) host \<Rightarrow> string list \<Rightarrow> string option \<Rightarrow> instant \<Rightarrow> 'os
     \<Rightarrow> ((PyErr + ('s, 'c) BlastDNSClient) \<times> 'os) option" where
  "py_new P h resolvers config_json now os =
     (case (case config_json of
              Some json \<Rightarrow>
                (case pl_config_json P json of
                   Inl e \<Rightarrow> Inl (PyValueError (''invalid config JSON: '' @ e))
                 | Inr wire \<Rightarrow> Inr (config_from_wire wire))
            | None \<Rightarrow> Inr config_default) of
        Inl e \<Rightarrow> Some (Inl e, os)
      | Inr config \<Rightarrow>
          map_option (\<lambda>(r, os'). (map_sum (blastdns_error_to_pyerr (pl_exceptions P)) id r, os'))
            (with_config h resolvers config now os))"

definition ascii_lower :: "char \<Rightarrow> char" where
  "ascii_lower c = (let n = of_char c :: nat in if 65 \<le> n \<and> n \<le> 90 then char_of (n + 32) else c)"

definition normalize_name :: "Name \<Rightarrow> string" where
  "normalize_name n = map ascii_lower (trim_end_matches (\<lambda>c. c = CHR ''.'') n)"

definition targets_for_rdata :: "string \<Rightarrow> rdata_view \<Rightarrow> (string \<times> string) list" where
  "targets_for_rdata rdtype data =
     (case data of
        RdA addr \<Rightarrow> [(rdtype, addr)]
      | RdAAAA addr \<Rightarrow> [(rdtype, addr)]
      | RdCNAME n \<Rightarrow> [(rdtype, normalize_name n)]
      | RdNS n \<Rightarrow> [(rdtype, normalize_name n)]
      | RdPTR n \<Rightarrow> [(rdtype, normalize_name n)]
      | RdANAME n \<Rightarrow> [(rdtype, normalize_name n)]
      | RdMX _ n \<Rightarrow> [(rdtype, normalize_name n)]
      | RdSRV n \<Rightarrow> [(rdtype, normalize_name n)]
      | RdSOA n \<Rightarrow> [(rdtype, normalize_name n)]
      | RdNAPTR n \<Rightarrow> [(rdtype, normalize_name n)]
      | RdOther \<Rightarrow> [])"

definition or_null :: "Json option \<Rightarrow> Json" where
  "or_null v = (case v of Some j \<Rightarrow> j | None \<Rightarrow> JNull)"

definition record_to_extended_value :: "py_lib \<Rightarrow> DnsRecord \<Rightarrow> Json" where
  "record_to_extended_value P r =
     JObj [(''name_labels'', JStr (r_name r)), (''ttl'', JNum (uint (r_ttl r))), (''dns_class'', JStr (pl_dns_class P r)),
           (''rdata'', or_null (pl_rdata_value P r)), (''text'', JStr (r_data r)),
           (''targets'', JArr (map (\<lambda>(t, host). JArr [JStr t, JStr host])
              (targets_for_rdata (pl_show_record_type P (r_type r)) (pl_rdata P r))))]"

definition message_to_extended_value :: "py_lib \<Rightarrow> DnsResponse \<Rightarrow> Json" where
  "message_to_extended_value P m =
     (let to_records = \<lambda>rs. JArr (map (record_to_extended_value P) rs)
      in JObj [(''header'', or_null (pl_header_value P m)), (''queries'', or_null (pl_queries_value P m)),
               (''answers'', to_records (dr_answers m)), (''name_servers'', to_records (pl_name_servers P m)),
               (''additionals'', to_records (pl_additionals P m)), (''signature'', or_null (pl_signature_value P m)),
               (''edns'', or_null (pl_edns_value P m))])"

definition dns_response_to_bytes :: "py_lib \<Rightarrow> DnsResponse \<Rightarrow> PyErr + string" where
  "dns_response_to_bytes P response =
     map_sum (\<lambda>e. PyValueError (''failed to serialize response: '' @ e)) id (pl_to_vec P (message_to_extended_value P response))"

definition error_to_bytes :: "py_lib \<Rightarrow> BlastDNSError \<Rightarrow> PyErr + string" where
  "error_to_bytes P err =
     map_sum (\<lambda>e. PyValueError (''failed to serialize error payload: '' @ e)) id (pl_to_vec P (JObj [(''error'', JStr (show_error err))]))"

definition result_to_bytes :: "py_lib \<Rightarrow> result \<Rightarrow> PyErr + string" where
  "result_to_bytes P r = (case r of Inr response \<Rightarrow> dns_response_to_bytes P response | Inl err \<Rightarrow> error_to_bytes P err)"

text \<open>The getters of a client.\<close>

definition py_resolvers :: "('s, 'c) BlastDNSClient \<Rightarrow> string list" where
  "py_resolvers c = client_resolvers c"

definition stats_value :: "ResolverStats \<Rightarrow> Json" where
  "stats_value st =
     JObj [(''resolver'', JStr (rs_resolver st)), (''attempted'', JNum (uint (rs_attempted st))),
           (''answered'', JNum (uint (rs_answered st))), (''empty'', JNum (uint (rs_empty st))),
           (''timeout'', JNum (uint (rs_timeout st))), (''error'', JNum (uint (rs_error st))),
           (''rtt_mean_us'', JNum (uint (rs_rtt_mean_us st))), (''rtt_min_us'', JNum (uint (rs_rtt_min_us st))),
           (''purgatory_entries'', JNum (uint (rs_purgatory_entries st))), (''truncated'', JNum (uint (rs_truncated st))),
           (''rate_qps'', (case rs_rate_qps st of None \<Rightarrow> JNull | Some q \<Rightarrow> JFloat q))]"

definition py_stats :: "py_lib \<Rightarrow> ('s, 'c) BlastDNSClient \<Rightarrow> PyErr + string" where
  "py_stats P c =
     map_sum (\<lambda>e. PyValueError (''failed to serialize stats: '' @ e)) id (pl_to_vec P (JArr (map stats_value (client_stats c))))"

definition py_resolve ::
  "py_lib \<Rightarrow> Resolver.lookup \<Rightarrow> string \<Rightarrow> string option \<Rightarrow> (PyErr + string list) option" where
  "py_resolve P ask host record_type =
     (case py_parse_record_type (pl_record_type P) record_type of
        Inl e \<Rightarrow> Some (Inl e)
      | Inr rt \<Rightarrow> map_option (map_sum (blastdns_error_to_pyerr (pl_exceptions P)) id) (resolve ask host rt))"

definition py_resolve_full ::
  "py_lib \<Rightarrow> Resolver.lookup \<Rightarrow> string \<Rightarrow> string option \<Rightarrow> (PyErr + string) option" where
  "py_resolve_full P ask host record_type =
     (case py_parse_record_type (pl_record_type P) record_type of
        Inl e \<Rightarrow> Some (Inl e)
      | Inr rt \<Rightarrow>
          map_option (\<lambda>r. case r of Inl err \<Rightarrow> Inl (blastdns_error_to_pyerr (pl_exceptions P) err)
                          | Inr response \<Rightarrow> dns_response_to_bytes P response) (ask 0 host rt))"

definition py_record_types :: "py_lib \<Rightarrow> string list \<Rightarrow> PyErr + RecordType list" where
  "py_record_types P record_types =
     collect_results (map (\<lambda>rt. py_parse_record_type (pl_record_type P) (Some rt)) record_types)"

text \<open>
  A dictionary keyed by the text of the record type; \<open>order\<close> is the order in which the map of
  results is walked.
\<close>

definition py_resolve_multi ::
  "py_lib \<Rightarrow> Resolver.lookup \<Rightarrow> RecordType list \<Rightarrow> string \<Rightarrow> string list \<Rightarrow> (PyErr + (string \<rightharpoonup> string list)) option" where
  "py_resolve_multi P ask order host record_types =
     (case py_record_types P record_types of
        Inl e \<Rightarrow> Some (Inl e)
      | Inr rts \<Rightarrow>
          map_option (map_sum (blastdns_error_to_pyerr (pl_exceptions P))
              (\<lambda>m. hash_map (List.map_filter (\<lambda>rt. map_option (Pair (pl_show_record_type P rt)) (m rt)) order)))
            (resolve_multi ask host rts))"

fun py_dict :: "('v \<Rightarrow> PyErr + 'w) \<Rightarrow> (string \<times> 'v) list \<Rightarrow> (string \<rightharpoonup> 'w) \<Rightarrow> PyErr + (string \<rightharpoonup> 'w)" where
  "py_dict conv [] dict = Inr dict"
| "py_dict conv ((k, v) # kvs) dict =
     (case conv v of Inl e \<Rightarrow> Inl e | Inr w \<Rightarrow> py_dict conv kvs (dict(k \<mapsto> w)))"

definition py_resolve_multi_full ::
  "py_lib \<Rightarrow> Resolver.lookup \<Rightarrow> RecordType list \<Rightarrow> string \<Rightarrow> string list \<Rightarrow> (PyErr + (string \<rightharpoonup> string)) option" where
  "py_resolve_multi_full P ask order host record_types =
     (case py_record_types P record_types of
        Inl e \<Rightarrow> Some (Inl e)
      | Inr rts \<Rightarrow>
          map_option (\<lambda>r. case r of
                Inl err \<Rightarrow> Inl (blastdns_error_to_pyerr (pl_exceptions P) err)
              | Inr m \<Rightarrow> py_dict (result_to_bytes P)
                            (List.map_filter (\<lambda>rt. map_option (Pair (pl_show_record_type P rt)) (m rt)) order) Map.empty)
            (resolve_multi_full ask host rts))"

section \<open>Hosts from a Python iterable\<close>

text \<open>
  What a Python iterator gives when asked: an item, or an exception it raises. Extracting Rust values
  from Python objects, and the order in which the hash map of hosts is walked, are Python's.
\<close>

datatype 'v py_item = Yielded 'v | Raised PyErr

record 'v py_extract =
  pe_key :: "'v \<Rightarrow> PyErr + string"
  pe_names :: "'v \<Rightarrow> PyErr + string list"
  pe_records :: "'v \<Rightarrow> PyErr + records"
  pe_hash_order :: "(string \<times> records) list \<Rightarrow> (string \<times> records) list"

definition python_host_next :: "'v py_extract \<Rightarrow> 'v py_item list \<Rightarrow> (PyErr + string) option \<times> 'v py_item list" where
  "python_host_next X iter =
     (case iter of
        [] \<Rightarrow> (None, [])
      | Yielded item # rest \<Rightarrow> (Some (pe_key X item), rest)
      | Raised e # rest \<Rightarrow> (Some (Inl e), rest))"

text \<open>What the stream of hosts gets, asking until the end.\<close>

function python_hosts :: "'v py_extract \<Rightarrow> 'v py_item list \<Rightarrow> (PyErr + string) list" where
  "python_hosts X iter =
     (case python_host_next X iter of
        (None, _) \<Rightarrow> []
      | (Some host, rest) \<Rightarrow> host # python_hosts X rest)"
  by pat_completeness auto
termination
  by (relation "measure (length \<circ> snd)") (auto simp: python_host_next_def split: list.splits py_item.splits)

declare python_hosts.simps [simp del]

text \<open>The two batch methods: the arguments of the batch and the state its stream starts in.\<close>

definition py_resolve_batch ::
  "py_lib \<Rightarrow> 'v py_extract \<Rightarrow> PyErr + 'v py_item list \<Rightarrow> string option \<Rightarrow> PyErr + batch_args \<times> PyErr batch" where
  "py_resolve_batch P X hosts record_type =
     (case py_parse_record_type (pl_record_type P) record_type of
        Inl e \<Rightarrow> Inl e
      | Inr rt \<Rightarrow>
          (case hosts of
             Inl e \<Rightarrow> Inl e
           | Inr py_iter \<Rightarrow> Inr (resolve_batch_args rt, batch_start (python_hosts X py_iter))))"

definition py_resolve_batch_full ::
  "py_lib \<Rightarrow> 'v py_extract \<Rightarrow> PyErr + 'v py_item list \<Rightarrow> string option \<Rightarrow> bool \<Rightarrow> bool \<Rightarrow> PyErr + batch_args \<times> PyErr batch" where
  "py_resolve_batch_full P X hosts record_type skip_empty skip_errors =
     (case py_parse_record_type (pl_record_type P) record_type of
        Inl e \<Rightarrow> Inl e
      | Inr rt \<Rightarrow>
          (case hosts of
             Inl e \<Rightarrow> Inl e
           | Inr py_iter \<Rightarrow>
               Inr (\<lparr>ra_record_type = rt, ra_skip_empty = skip_empty, ra_skip_errors = skip_errors\<rparr>,
                    batch_start (python_hosts X py_iter))))"

section \<open>Batches\<close>

text \<open>
  \<open>__anext__\<close>. The stream is what it still has to give, each item with the time at which it is there;
  \<open>now\<close> is the time of the check at the head of the loop.
\<close>

definition BATCH_LIMIT :: nat where "BATCH_LIMIT = 1000"

definition BATCH_TIMEOUT :: duration where "BATCH_TIMEOUT = from_millis 200"

fun anext_loop ::
  "('a \<Rightarrow> PyErr + 'b) \<Rightarrow> instant \<Rightarrow> instant \<Rightarrow> 'b list \<Rightarrow> (instant \<times> 'a) list \<Rightarrow> (PyErr + 'b list) \<times> (instant \<times> 'a) list" where
  "anext_loop conv start now batch [] =
     ((if BATCH_LIMIT \<le> length batch \<or> batch \<noteq> [] \<and> BATCH_TIMEOUT \<le> now - start then Inr batch
       else if batch = [] then Inl (PyStopAsyncIteration ''end of stream'') else Inr batch), [])"
| "anext_loop conv start now batch ((t, x) # items) =
     (if BATCH_LIMIT \<le> length batch \<or> batch \<noteq> [] \<and> BATCH_TIMEOUT \<le> now - start then (Inr batch, (t, x) # items)
      else case conv x of
             Inl e \<Rightarrow> (Inl e, items)
           | Inr payload \<Rightarrow> anext_loop conv start (max now t) (batch @ [payload]) items)"

definition anext ::
  "py_lib \<Rightarrow> instant \<Rightarrow> (instant \<times> string \<times> result) list
     \<Rightarrow> (PyErr + (string \<times> string) list) \<times> (instant \<times> string \<times> result) list" where
  "anext P start items = anext_loop (\<lambda>(host, r). map_sum id (Pair host) (result_to_bytes P r)) start start [] items"

definition anext_basic ::
  "instant \<Rightarrow> (instant \<times> string \<times> string \<times> string list) list
     \<Rightarrow> (PyErr + (string \<times> string \<times> string list) list) \<times> (instant \<times> string \<times> string \<times> string list) list" where
  "anext_basic start items = anext_loop Inr start start [] items"

section \<open>The rest of the module\<close>

fun mock_entries ::
  "'v py_extract \<Rightarrow> ('v \<times> 'v) list \<Rightarrow> (string \<times> records) list \<Rightarrow> string list
     \<Rightarrow> PyErr + (string \<times> records) list \<times> string list" where
  "mock_entries X [] responses nxdomains = Inr (responses, nxdomains)"
| "mock_entries X ((key, v) # rest) responses nxdomains =
     (case pe_key X key of
        Inl e \<Rightarrow> Inl e
      | Inr key_str \<Rightarrow>
          if key_str = ''_NXDOMAIN'' then
            (case pe_names X v of Inl e \<Rightarrow> Inl e | Inr names \<Rightarrow> mock_entries X rest responses names)
          else
            (case pe_records X v of
               Inl e \<Rightarrow> Inl e
             | Inr host_records \<Rightarrow> mock_entries X rest (AList.update key_str host_records responses) nxdomains))"

definition py_mock_dns ::
  "'re mock_lib \<Rightarrow> 'v py_extract \<Rightarrow> bool \<Rightarrow> ('v \<times> 'v) list option \<Rightarrow> 're MockBlastDNSClient
     \<Rightarrow> PyErr + 're MockBlastDNSClient" where
  "py_mock_dns L X unshared data m =
     (if \<not> unshared then Inl (PyRuntimeError ''Cannot modify mock client with outstanding references'')
      else case data of
             None \<Rightarrow> Inl (PyValueError ''expected dict'')
           | Some entries \<Rightarrow>
               map_sum id (\<lambda>(responses, nxdomains). mock_dns L (pe_hash_order X responses) nxdomains m)
                 (mock_entries X entries [] []))"

text \<open>The mock's methods are the client's, over the mock's lookups.\<close>

definition py_mock_new :: "'re MockBlastDNSClient" where
  "py_mock_new = mock_new"

definition py_mock_resolve ::
  "py_lib \<Rightarrow> 're mock_lib \<Rightarrow> 're MockBlastDNSClient \<Rightarrow> string \<Rightarrow> string option \<Rightarrow> (PyErr + string list) option" where
  "py_mock_resolve P L m host record_type =
     (case py_parse_record_type (pl_record_type P) record_type of
        Inl e \<Rightarrow> Some (Inl e)
      | Inr rt \<Rightarrow> map_option (map_sum (blastdns_error_to_pyerr (pl_exceptions P)) id) (resolve (mock_ask L m) host rt))"

definition py_mock_resolve_full ::
  "py_lib \<Rightarrow> 're mock_lib \<Rightarrow> 're MockBlastDNSClient \<Rightarrow> string \<Rightarrow> string option \<Rightarrow> PyErr + string" where
  "py_mock_resolve_full P L m host record_type =
     (case py_parse_record_type (pl_record_type P) record_type of
        Inl e \<Rightarrow> Inl e
      | Inr rt \<Rightarrow>
          (case mock_resolve_full L m host rt of
             Inl err \<Rightarrow> Inl (blastdns_error_to_pyerr (pl_exceptions P) err)
           | Inr response \<Rightarrow> dns_response_to_bytes P response))"

definition py_mock_resolve_multi ::
  "py_lib \<Rightarrow> 're mock_lib \<Rightarrow> 're MockBlastDNSClient \<Rightarrow> RecordType list \<Rightarrow> string \<Rightarrow> string list
     \<Rightarrow> (PyErr + (string \<rightharpoonup> string list)) option" where
  "py_mock_resolve_multi P L m order host record_types = py_resolve_multi P (mock_ask L m) order host record_types"

definition py_mock_resolve_multi_full ::
  "py_lib \<Rightarrow> 're mock_lib \<Rightarrow> 're MockBlastDNSClient \<Rightarrow> RecordType list \<Rightarrow> string \<Rightarrow> string list
     \<Rightarrow> (PyErr + (string \<rightharpoonup> string)) option" where
  "py_mock_resolve_multi_full P L m order host record_types = py_resolve_multi_full P (mock_ask L m) order host record_types"

definition py_mock_resolve_batch ::
  "py_lib \<Rightarrow> 'v py_extract \<Rightarrow> PyErr + 'v py_item list \<Rightarrow> string option \<Rightarrow> PyErr + batch_args \<times> PyErr batch" where
  "py_mock_resolve_batch P X hosts record_type = py_resolve_batch P X hosts record_type"

definition py_mock_resolve_batch_full ::
  "py_lib \<Rightarrow> 'v py_extract \<Rightarrow> PyErr + 'v py_item list \<Rightarrow> string option \<Rightarrow> bool \<Rightarrow> bool \<Rightarrow> PyErr + batch_args \<times> PyErr batch" where
  "py_mock_resolve_batch_full P X hosts record_type skip_empty skip_errors =
     py_resolve_batch_full P X hosts record_type skip_empty skip_errors"

text \<open>Whatever the dictionary, a host is configured once, as the mock's meaning presupposes.\<close>

lemma mock_entries_distinct:
  "mock_entries X entries responses nxdomains = Inr (rs, ns) \<Longrightarrow> distinct (map fst responses) \<Longrightarrow> distinct (map fst rs)"
  by (induction X entries responses nxdomains rule: mock_entries.induct)
    (auto simp: distinct_update split: sum.splits if_splits)

definition get_system_resolvers_py :: "(string + SocketAddr list) \<Rightarrow> (IpAddr list \<Rightarrow> IpAddr list) \<Rightarrow> PyErr + string list" where
  "get_system_resolvers_py conf hash_collect =
     map_sum (\<lambda>e. PyRuntimeError (''Failed to get system resolvers: '' @ show_error e)) (map show_ip)
       (get_system_resolvers conf hash_collect)"

text \<open>\<open>Duration::from_secs_f64\<close>: the nearest nanosecond; a negative or too large number is a panic.\<close>

definition from_secs_f64 :: "f64 \<Rightarrow> duration option" where
  "from_secs_f64 secs =
     (let ns = rne (secs * 1000000000) in if secs < 0 \<or> 2 ^ 64 * 1000000000 \<le> ns then None else Some (nat ns))"

definition zone_transfer_py ::
  "py_lib \<Rightarrow> zone_lib \<Rightarrow> string \<Rightarrow> string \<Rightarrow> f64 \<Rightarrow> (PyErr + (string \<times> string \<times> string) list) option" where
  "zone_transfer_py P L nameserver zone timeout_secs =
     map_option (\<lambda>timeout.
       map_sum (blastdns_error_to_pyerr (pl_exceptions P))
         (\<lambda>res. map (\<lambda>r. (r_name r, pl_show_record_type P (r_type r), r_data r)) (zt_records res))
         (zone_transfer L nameserver zone timeout))
       (from_secs_f64 timeout_secs)"

text \<open>
  Logging: the subscriber of the process can be installed once, and whoever was first keeps it. The
  filter of the environment is an argument.
\<close>

definition init_logging :: "(string \<Rightarrow> 'f) \<Rightarrow> 'f \<Rightarrow> string option \<Rightarrow> 'f option \<Rightarrow> bool \<times> 'f option" where
  "init_logging directives default_env filter_arg subscriber =
     (let env_filter = (case filter_arg of Some directive \<Rightarrow> directives directive | None \<Rightarrow> default_env)
      in case subscriber of None \<Rightarrow> (True, Some env_filter) | Some f \<Rightarrow> (False, Some f))"

lemma init_logging_once:
  "init_logging directives default_env a s = (ok, s') \<Longrightarrow> s' \<noteq> None \<and> init_logging directives' default_env' b s' = (False, s')"
  by (auto simp: init_logging_def split: option.splits)

section \<open>Properties\<close>

lemma python_hosts_map: "python_hosts X iter = map (\<lambda>i. case i of Yielded v \<Rightarrow> pe_key X v | Raised e \<Rightarrow> Inl e) iter"
  by (induction iter) (subst python_hosts.simps, simp add: python_host_next_def split: py_item.split)+

text \<open>
  C39. A zone transfer asked for from Python is all or nothing, if its timeout is a duration. The rows come
  back exactly when the address and the zone's name parse, the connection stands within the timeout and
  every message of the transfer arrived, and then they are those of all messages, in order; otherwise an
  exception is raised and no row is returned. A negative timeout, or one beyond the range of a duration,
  does not raise an exception of the package: it panics.
\<close>

theorem zone_transfer_py_whole:
  "(zone_transfer_py P L nameserver zone secs = None \<longleftrightarrow> secs < 0 \<or> 2 ^ 64 * 1000000000 \<le> rne (secs * 1000000000))
   \<and> (zone_transfer_py P L nameserver zone secs = Some (Inr rows) \<longleftrightarrow>
       (\<exists>timeout addr name resps. from_secs_f64 secs = Some timeout \<and> parse_resolver nameserver = Inr addr
          \<and> zl_name L (fqdn zone) = Inr name \<and> zl_connect L addr timeout = Inr () \<and> zl_transfer L addr name = map Inr resps
          \<and> rows = map (\<lambda>r. (r_name r, pl_show_record_type P (r_type r), r_data r)) (concat (map dr_answers resps))))"
  by (auto simp: zone_transfer_py_def from_secs_f64_def Let_def map_sum_Inr_iff zone_transfer_whole)

lemma anext_loop_splits:
  assumes "\<And>x. conv x = Inr (f x)" and "length batch \<le> BATCH_LIMIT"
  shows "case anext_loop conv start now batch items of
      (Inl e, rest) \<Rightarrow> batch = [] \<and> items = [] \<and> e = PyStopAsyncIteration ''end of stream''
    | (Inr b, rest) \<Rightarrow> \<exists>taken. items = taken @ rest \<and> b = batch @ map (f \<circ> snd) taken \<and> b \<noteq> [] \<and> length b \<le> BATCH_LIMIT
        \<and> (rest \<noteq> [] \<longrightarrow> length b = BATCH_LIMIT \<or> start + BATCH_TIMEOUT \<le> foldl max now (map fst taken))"
  using assms(2)
proof (induction items arbitrary: now batch)
  case Nil
  then show ?case by (auto simp: BATCH_LIMIT_def)
next
  case (Cons tx items)
  obtain t x where tx: "tx = (t, x)" by (cases tx)
  show ?case
  proof (cases "BATCH_LIMIT \<le> length batch \<or> batch \<noteq> [] \<and> BATCH_TIMEOUT \<le> now - start")
    case True
    then have "batch \<noteq> []" by (auto simp: BATCH_LIMIT_def)
    then show ?thesis using True Cons.prems by (auto simp: tx BATCH_TIMEOUT_def from_millis_def intro!: exI [of _ "[]"])
  next
    case False
    then have "length (batch @ [f x]) \<le> BATCH_LIMIT" by simp
    from Cons.IH [OF this, of "max now t"] False show ?thesis
      by (auto simp: tx assms(1) split: prod.splits sum.splits intro!: exI [of _ "(t, x) # _"])
  qed
qed

text \<open>
  C38. Batching neither loses nor reorders results. As long as results can be serialised, each call of
  \<open>__anext__\<close> takes a prefix of the stream, at least one and at most a thousand items, and returns
  exactly their payloads in order; it leaves something behind only when the thousand are full or 200
  milliseconds have passed. It raises \<open>StopAsyncIteration\<close> exactly when the stream has ended.
\<close>

theorem anext_whole:
  assumes "\<And>r. result_to_bytes P r = Inr (bytes r)"
  shows "case anext P start items of
      (Inl e, rest) \<Rightarrow> items = [] \<and> e = PyStopAsyncIteration ''end of stream''
    | (Inr b, rest) \<Rightarrow> \<exists>taken. items = taken @ rest \<and> b = map (\<lambda>(t, host, r). (host, bytes r)) taken
        \<and> taken \<noteq> [] \<and> length taken \<le> 1000
        \<and> (rest \<noteq> [] \<longrightarrow> length taken = 1000 \<or> start + 200000000 \<le> foldl max start (map fst taken))"
proof -
  let ?conv = "\<lambda>(host, r). map_sum id (Pair host) (result_to_bytes P r)" and ?f = "\<lambda>(host, r). (host, bytes r)"
  have "?conv x = Inr (?f x)" for x using assms by (cases x) simp
  from anext_loop_splits [where conv = ?conv and f = ?f and batch = "[]" and start = start and now = start and items = items, OF this] show ?thesis
    by (fastforce simp: anext_def BATCH_LIMIT_def BATCH_TIMEOUT_def from_millis_def split_def o_def split: prod.splits sum.splits)
qed

definition sample_py :: py_lib where
  "sample_py =
     \<lparr>pl_exceptions = \<lparr>ex_configuration = Some True, ex_no_resolvers = Some True, ex_resolver = Some True\<rparr>, pl_record_type = (\<lambda>_. Some RT_A),
      pl_show_record_type = (\<lambda>_. ''A''), pl_config_json = Inl, pl_to_vec = (\<lambda>_. Inr ''{}''), pl_rdata = (\<lambda>_. RdOther),
      pl_dns_class = (\<lambda>_. ''IN''), pl_rdata_value = (\<lambda>_. None), pl_header_value = (\<lambda>_. None), pl_queries_value = (\<lambda>_. None),
      pl_signature_value = (\<lambda>_. None), pl_edns_value = (\<lambda>_. None), pl_name_servers = (\<lambda>_. []), pl_additionals = (\<lambda>_. [])\<rparr>"

theorem anext_whole_witness:
  "let items = [(5, ''a'', Inl WorkerDropped), (300000000, ''b'', Inl QueueClosed), (300000001, ''c'', Inl QueueClosed)]
   in \<exists>taken. items = taken @ snd (anext sample_py 0 items) \<and> length taken = 2"
proof -
  let ?items = "[(5, ''a'', Inl WorkerDropped), (300000000, ''b'', Inl QueueClosed), (300000001, ''c'', Inl QueueClosed)]"
  have "result_to_bytes sample_py r = Inr ''{}''" for r
    by (cases r) (simp_all add: result_to_bytes_def sample_py_def dns_response_to_bytes_def error_to_bytes_def)
  from anext_whole [where P = sample_py and start = 0 and items = ?items, OF this] have
    "case anext sample_py 0 ?items of (Inl e, rest) \<Rightarrow> ?items = [] \<and> e = PyStopAsyncIteration ''end of stream''
     | (Inr b, rest) \<Rightarrow> \<exists>taken. ?items = taken @ rest" by (force split: prod.splits sum.splits)
  moreover have "isl (fst (anext sample_py 0 ?items)) = False" "length (snd (anext sample_py 0 ?items)) = 1" by code_simp+
  ultimately obtain taken where "?items = taken @ snd (anext sample_py 0 ?items)"
    by (cases "anext sample_py 0 ?items"; cases "fst (anext sample_py 0 ?items)") auto
  moreover from this have "length taken + length (snd (anext sample_py 0 ?items)) = 3" by (metis length_append length_Cons list.size(3) numeral_3_eq_3)
  ultimately show ?thesis using \<open>length (snd (anext sample_py 0 ?items)) = 1\<close> unfolding Let_def by (intro exI [of _ taken]) simp
qed

end
