(* ===== verification/Sim.thy ===== *)
theory Sim
  imports Limiter Config Dns
begin

text \<open>
  \<open>src/sim.rs\<close>: the simulated resolver the crate's tests run against, a server that loses queries
  deterministically: one in so many, and those beyond a capacity. One event of the server is the
  arrival of a datagram (decoded, or not a message), the end of the task that answers it, or a request
  over TCP. A TCP connection is the bytes the peer sends, served frame by frame. Whether sockets can be
  bound and the encoding of messages are the environment's.
\<close>

definition SIM_BURST_ALLOWANCE :: duration where "SIM_BURST_ALLOWANCE = from_millis 50"

record SimConfig =
  sc_latency :: duration
  sc_capacity_qps :: "f64 option"
  sc_drop_one_in :: "u64 option"
  sc_refuse_one_in :: "u64 option"
  sc_truncate_udp :: bool

definition SimConfig_default :: SimConfig where
  "SimConfig_default =
     \<lparr>sc_latency = from_millis 1, sc_capacity_qps = None, sc_drop_one_in = None, sc_refuse_one_in = None,
      sc_truncate_udp = False\<rparr>"

record Counters =
  co_received :: u64
  co_answered :: u64
  co_dropped :: u64
  co_tcp_served :: u64
  co_budget_ns :: u64

definition Counters_zero :: Counters where
  "Counters_zero = \<lparr>co_received = 0, co_answered = 0, co_dropped = 0, co_tcp_served = 0, co_budget_ns = 0\<rparr>"

section \<open>Loss\<close>

definition sim_interval_ns :: "SimConfig \<Rightarrow> u64 option" where
  "sim_interval_ns config =
     map_option (\<lambda>qps. if qps = 0 then - 1 else u64_of_f64 (max (round_f64 (f64_div 1000000000 qps)) 1))
       (sc_capacity_qps config)"

definition one_in :: "u64 option \<Rightarrow> u64 \<Rightarrow> bool" where
  "one_in n seq = (case n of Some n \<Rightarrow> 0 < n \<and> seq mod n = 0 | None \<Rightarrow> False)"

text \<open>
  \<open>should_drop\<close>, and the budget it leaves. Only the one receiving task moves the budget, so the
  compare-and-swap finds the value it loaded; a spurious failure repeats the same step.
\<close>

definition should_drop :: "SimConfig \<Rightarrow> u64 \<Rightarrow> u64 \<Rightarrow> u64 \<Rightarrow> bool \<times> u64" where
  "should_drop config now_ns seq current =
     (if one_in (sc_drop_one_in config) seq then (True, current)
      else case sim_interval_ns config of
             None \<Rightarrow> (False, current)
           | Some interval_ns \<Rightarrow>
               if saturating_add now_ns (of_nat SIM_BURST_ALLOWANCE) < current then (True, current)
               else (False, saturating_add (max current now_ns) interval_ns))"

section \<open>Responses\<close>

definition TRUNCATED_ANSWER_COUNT :: nat where "TRUNCATED_ANSWER_COUNT = 2"

definition FULL_ANSWER_COUNT :: nat where "FULL_ANSWER_COUNT = 8"

definition sim_answers :: "Query list \<Rightarrow> nat \<Rightarrow> DnsRecord list" where
  "sim_answers queries answer_count =
     (case queries of
        (name, RT_A) # _ \<Rightarrow>
          map (\<lambda>i. \<lparr>r_name = name, r_type = RT_A, r_ttl = 60, r_data = show_ipv4 [127, 0, 0, of_nat (i + 1)]\<rparr>) [0..<answer_count]
      | _ \<Rightarrow> [])"

definition build_response_sized :: "DnsResponse \<Rightarrow> bool \<Rightarrow> nat \<Rightarrow> bool \<Rightarrow> DnsResponse" where
  "build_response_sized request refuse answer_count truncated =
     (let response =
        \<lparr>dr_id = dr_id request, dr_message_type = MT_Response, dr_op_code = dr_op_code request, dr_authoritative = False,
         dr_truncated = False, dr_recursion_desired = dr_recursion_desired request, dr_recursion_available = True,
         dr_authentic_data = False, dr_checking_disabled = False, dr_response_code = NoError,
         dr_queries = dr_queries request, dr_answers = []\<rparr>
      in if refuse then response\<lparr>dr_response_code := Refused\<rparr>
         else response\<lparr>dr_answers := sim_answers (dr_queries request) answer_count, dr_truncated := truncated\<rparr>)"

definition build_response :: "DnsResponse \<Rightarrow> bool \<Rightarrow> DnsResponse" where
  "build_response request refuse = build_response_sized request refuse FULL_ANSWER_COUNT False"

section \<open>The server\<close>

record sim =
  si_counters :: Counters
  si_tasks :: "(DnsResponse \<times> bool) list"

definition sim_start :: sim where
  "sim_start = \<lparr>si_counters = Counters_zero, si_tasks = []\<rparr>"

definition sim_receive :: "SimConfig \<Rightarrow> u64 \<Rightarrow> DnsResponse option \<Rightarrow> sim \<Rightarrow> sim" where
  "sim_receive config now_ns request s =
     (let c = si_counters s;
          seq = co_received c + 1;
          (lost, budget) = should_drop config now_ns seq (co_budget_ns c);
          c = c\<lparr>co_received := seq, co_budget_ns := budget\<rparr>
      in if lost then s\<lparr>si_counters := c\<lparr>co_dropped := co_dropped c + 1\<rparr>\<rparr>
         else case request of
                None \<Rightarrow> s\<lparr>si_counters := c\<lparr>co_dropped := co_dropped c + 1\<rparr>\<rparr>
              | Some req \<Rightarrow>
                  s\<lparr>si_counters := c, si_tasks := si_tasks s @ [(req, one_in (sc_refuse_one_in config) seq)]\<rparr>)"

definition task_response :: "SimConfig \<Rightarrow> DnsResponse \<times> bool \<Rightarrow> DnsResponse" where
  "task_response config task =
     (if sc_truncate_udp config then build_response_sized (fst task) (snd task) TRUNCATED_ANSWER_COUNT True
      else build_response (fst task) (snd task))"

text \<open>A task ends; \<open>sent\<close> says whether its response was encoded and sent.\<close>

definition sim_answer :: "bool \<Rightarrow> DnsResponse \<times> bool \<Rightarrow> sim \<Rightarrow> sim" where
  "sim_answer sent task s =
     s\<lparr>si_tasks := remove1 task (si_tasks s),
       si_counters := (if sent then (si_counters s)\<lparr>co_answered := co_answered (si_counters s) + 1\<rparr> else si_counters s)\<rparr>"

definition sim_tcp :: "DnsResponse \<Rightarrow> sim \<Rightarrow> DnsResponse \<times> sim" where
  "sim_tcp request s =
     (build_response request False,
      s\<lparr>si_counters := (si_counters s)\<lparr>co_tcp_served := co_tcp_served (si_counters s) + 1\<rparr>\<rparr>)"

section \<open>The TCP side\<close>

text \<open>Two bytes, most significant first, and back: the length DNS puts before a message on TCP.\<close>

definition from_be_bytes :: "u8 \<Rightarrow> u8 \<Rightarrow> u16" where
  "from_be_bytes a b = of_nat (256 * unat a + unat b)"

definition to_be_bytes :: "u16 \<Rightarrow> u8 list" where
  "to_be_bytes w = [of_nat (unat w div 256), of_nat (unat w mod 256)]"

definition framed :: "u8 list \<Rightarrow> u8 list" where
  "framed bytes = to_be_bytes (of_nat (length bytes)) @ bytes"

text \<open>The two calls of \<open>read_exact\<close>; \<^term>\<open>None\<close> if the bytes run out in either.\<close>

definition read_frame :: "u8 list \<Rightarrow> (u8 list \<times> u8 list) option" where
  "read_frame bs =
     (case bs of
        a # b # rest \<Rightarrow> let len = unat (from_be_bytes a b) in if length rest < len then None else Some (take len rest, drop len rest)
      | _ \<Rightarrow> None)"

text \<open>
  One connection: what is written and what is counted. The peer takes \<open>room\<close> responses before it
  closes; \<open>D\<close> and \<open>E\<close> decode and encode messages.
\<close>

fun serve_tcp ::
  "(u8 list \<Rightarrow> DnsResponse option) \<Rightarrow> (DnsResponse \<Rightarrow> u8 list option) \<Rightarrow> nat \<Rightarrow> u8 list \<Rightarrow> sim \<Rightarrow> u8 list \<times> sim" where
  "serve_tcp D E 0 bs s = ([], s)"
| "serve_tcp D E (Suc room) bs s =
     (case read_frame bs of
        None \<Rightarrow> ([], s)
      | Some (buf, rest) \<Rightarrow>
          (case D buf of
             None \<Rightarrow> ([], s)
           | Some request \<Rightarrow>
               (case sim_tcp request s of (response, s1) \<Rightarrow>
                  (case E response of
                     None \<Rightarrow> ([], s)
                   | Some bytes \<Rightarrow> (case serve_tcp D E room rest s1 of (out, s2) \<Rightarrow> (framed bytes @ out, s2))))))"

section \<open>A running resolver\<close>

record SimResolver =
  sr_addr :: SocketAddr
  sr_sim :: sim
  sr_serving :: bool
  sr_serving_tcp :: "bool option"

text \<open>\<open>start\<close>: the UDP socket, and for a resolver that truncates a TCP listener on the same address. A
  socket that cannot be bound is a panic.\<close>

definition SimResolver_start :: "SimConfig \<Rightarrow> SocketAddr option \<Rightarrow> (SocketAddr \<Rightarrow> bool) \<Rightarrow> SimResolver option" where
  "SimResolver_start config udp_addr tcp_binds =
     (case udp_addr of
        None \<Rightarrow> None
      | Some addr \<Rightarrow>
          if sc_truncate_udp config then
            (if tcp_binds addr then Some \<lparr>sr_addr = addr, sr_sim = sim_start, sr_serving = True, sr_serving_tcp = Some True\<rparr> else None)
          else Some \<lparr>sr_addr = addr, sr_sim = sim_start, sr_serving = True, sr_serving_tcp = None\<rparr>)"

definition SimResolver_drop :: "SimResolver \<Rightarrow> SimResolver" where
  "SimResolver_drop r = r\<lparr>sr_serving := False, sr_serving_tcp := map_option (\<lambda>_. False) (sr_serving_tcp r)\<rparr>"

definition sim_addr :: "SimResolver \<Rightarrow> string" where
  "sim_addr r = show_socket_addr (sr_addr r)"

definition sim_received :: "SimResolver \<Rightarrow> u64" where
  "sim_received r = co_received (si_counters (sr_sim r))"

definition sim_answered :: "SimResolver \<Rightarrow> u64" where
  "sim_answered r = co_answered (si_counters (sr_sim r))"

definition sim_dropped :: "SimResolver \<Rightarrow> u64" where
  "sim_dropped r = co_dropped (si_counters (sr_sim r))"

definition sim_tcp_served :: "SimResolver \<Rightarrow> u64" where
  "sim_tcp_served r = co_tcp_served (si_counters (sr_sim r))"

section \<open>Frames survive the connection\<close>

lemma be_bytes_roundtrip: "\<exists>a b. to_be_bytes w = [a, b] \<and> from_be_bytes a b = w"
proof -
  let ?n = "unat w"
  have n: "?n < 65536" using unsigned_less [of w] by simp
  then have "?n div 256 < 256" by (simp add: div_less_iff_less_mult)
  then have "unat (of_nat (?n div 256) :: u8) = ?n div 256" "unat (of_nat (?n mod 256) :: u8) = ?n mod 256"
    by (simp_all add: unat_of_nat)
  then have "from_be_bytes (of_nat (?n div 256)) (of_nat (?n mod 256)) = w"
    by (simp add: from_be_bytes_def of_nat_unat)
  then show ?thesis by (simp add: to_be_bytes_def)
qed

lemma read_frame_framed:
  assumes "length bytes < 2 ^ 16"
  shows "read_frame (framed bytes @ rest) = Some (bytes, rest)"
proof -
  obtain a b where ab: "to_be_bytes (of_nat (length bytes)) = [a, b]" "from_be_bytes a b = of_nat (length bytes)"
    using be_bytes_roundtrip by blast
  moreover have "unat (of_nat (length bytes) :: u16) = length bytes" using assms by (simp add: unat_of_nat)
  ultimately show ?thesis by (simp add: read_frame_def framed_def)
qed

lemma read_frame_shorter: "read_frame bs = Some (f, rest) \<Longrightarrow> length rest < length bs"
  by (auto simp: read_frame_def Let_def split: list.splits if_splits)

lemma sim_answers_more:
  assumes "m \<le> n"
  shows "\<exists>cut. sim_answers queries n = sim_answers queries m @ cut"
proof -
  have "[0..<n] = [0..<m] @ [m..<n]" using assms by (metis upt_add_eq_append le_add_diff_inverse le0)
  then show ?thesis by (auto simp: sim_answers_def split: list.split prod.split RecordType.split)
qed

text \<open>What the other end reads.\<close>

function read_frames :: "u8 list \<Rightarrow> u8 list list" where
  "read_frames bs = (case read_frame bs of None \<Rightarrow> [] | Some (f, rest) \<Rightarrow> f # read_frames rest)"
  by pat_completeness auto
termination
  by (relation "measure length") (auto simp: read_frame_shorter)

declare read_frames.simps [simp del]

lemma serve_tcp_frames:
  assumes "\<forall>q \<in> set qs. length (wire q) < 2 ^ 16 \<and> D (wire q) = Some q \<and> E (build_response q False) = Some (reply q)"
    and "read_frame partial = None" and "length qs \<le> room"
  shows "fst (serve_tcp D E room (concat (map (\<lambda>q. framed (wire q)) qs) @ partial) s) = concat (map (\<lambda>q. framed (reply q)) qs)
    \<and> co_tcp_served (si_counters (snd (serve_tcp D E room (concat (map (\<lambda>q. framed (wire q)) qs) @ partial) s)))
        = co_tcp_served (si_counters s) + of_nat (length qs)"
  using assms(1,3)
proof (induction qs arbitrary: room s)
  case Nil
  then show ?case using assms(2) by (cases room) simp_all
next
  case (Cons q qs)
  then obtain room' where room: "room = Suc room'" by (cases room) auto
  have q: "length (wire q) < 2 ^ 16" "D (wire q) = Some q" "E (build_response q False) = Some (reply q)" using Cons.prems by auto
  have "read_frame (framed (wire q) @ concat (map (\<lambda>q. framed (wire q)) qs) @ partial) = Some (wire q, concat (map (\<lambda>q. framed (wire q)) qs) @ partial)"
    by (rule read_frame_framed [OF q(1)])
  then show ?case using Cons.IH [of room' "snd (sim_tcp q s)"] Cons.prems q room
    by (auto simp: sim_tcp_def split: prod.splits)
qed

lemma read_frames_framed:
  assumes "\<forall>b \<in> set bss. length b < 2 ^ 16"
  shows "read_frames (concat (map framed bss)) = bss"
  using assms
proof (induction bss)
  case Nil
  then show ?case by (simp add: read_frames.simps read_frame_def)
next
  case (Cons b bss)
  then have "read_frame (framed b @ concat (map framed bss)) = Some (b, concat (map framed bss))"
    by (intro read_frame_framed) simp
  then show ?case using Cons by (subst read_frames.simps) simp
qed

section \<open>How many are lost\<close>

text \<open>A run of arrivals that all decode.\<close>

definition receive_all :: "SimConfig \<Rightarrow> (u64 \<times> DnsResponse) list \<Rightarrow> sim \<Rightarrow> sim" where
  "receive_all config arrivals s = fold (\<lambda>(now, req). sim_receive config now (Some req)) arrivals s"

lemma receive_all_snoc: "receive_all config (xs @ [(now, req)]) s = sim_receive config now (Some req) (receive_all config xs s)"
  by (simp add: receive_all_def)

lemma sim_receive_counters:
  "si_counters (sim_receive config now (Some req) s) =
     (let c = si_counters s; d = should_drop config now (co_received c + 1) (co_budget_ns c)
      in c\<lparr>co_received := co_received c + 1, co_budget_ns := snd d, co_dropped := co_dropped c + of_bool (fst d)\<rparr>)"
  by (auto simp: sim_receive_def Let_def split: prod.splits)

lemma receive_all_received: "co_received (si_counters (receive_all config xs s)) = co_received (si_counters s) + of_nat (length xs)"
  by (induction xs rule: rev_induct) (auto simp: receive_all_snoc sim_receive_counters Let_def, simp add: receive_all_def)

lemma Suc_div_step: "0 < k \<Longrightarrow> Suc n div k = n div k + of_bool (Suc n mod k = 0)"
  by (simp add: div_Suc)

lemma one_in_drops:
  assumes "sc_capacity_qps config = None" and "sc_drop_one_in config = Some k" and "0 < k" and "length xs < 2 ^ 64"
  shows "unat (co_dropped (si_counters (receive_all config xs sim_start))) = length xs div unat k"
  using assms(4)
proof (induction xs rule: rev_induct)
  case (snoc x xs)
  obtain now req where x: "x = (now, req)" by (cases x)
  let ?c = "si_counters (receive_all config xs sim_start)"
  have len: "Suc (length xs) < 2 ^ 64" using snoc.prems by simp
  have k: "0 < unat k" using assms(3) by (simp add: word_less_nat_alt)
  have "co_received ?c + 1 = of_nat (Suc (length xs))"
    by (simp add: receive_all_received sim_start_def Counters_zero_def)
  then have "unat ((co_received ?c + 1) mod k) = Suc (length xs) mod unat k"
    using len by (simp add: unat_mod_distrib unat_of_nat_u64 del: of_nat_Suc)
  then have d: "fst (should_drop config now (co_received ?c + 1) b) = (Suc (length xs) mod unat k = 0)" for b
    using assms(1-3) by (auto simp: should_drop_def one_in_def sim_interval_ns_def word_eq_0_iff_unat)
  have le: "length xs div unat k + 1 < 2 ^ 64" using len div_le_dividend [of "length xs" "unat k"] by linarith
  have IH: "unat (co_dropped ?c) = length xs div unat k" using snoc by simp
  have "unat (co_dropped ?c + of_bool P) = unat (co_dropped ?c) + of_bool P" for P
    using le IH by (cases P) (auto intro: trans [OF unat_add_no_wrap])
  then show ?case using IH Suc_div_step [OF k, of "length xs"]
    by (simp add: x receive_all_snoc sim_receive_counters Let_def d)
qed (simp add: receive_all_def sim_start_def Counters_zero_def)

lemma allowance_u64: "unat (of_nat SIM_BURST_ALLOWANCE :: u64) = 50000000"
  by (simp add: SIM_BURST_ALLOWANCE_def from_millis_def unat_of_nat_u64)

text \<open>One arrival under a capacity, read through \<open>unat\<close> where nothing saturates.\<close>

lemma should_drop_budget:
  assumes "sim_interval_ns config = Some i" and "unat now \<le> t" and "t + 50000000 + unat i < 2 ^ 64"
    and "unat b \<le> t + 50000000 + unat i"
  shows "case should_drop config now seq b of (lost, b') \<Rightarrow>
    unat b' \<le> t + 50000000 + unat i \<and> unat b + of_bool (\<not> lost) * unat i \<le> unat b'
    \<and> (unat b \<le> unat now + 50000000 \<and> \<not> one_in (sc_drop_one_in config) seq \<longrightarrow> \<not> lost \<and> unat b' = max (unat b) (unat now) + unat i)"
proof -
  have sat: "unat (saturating_add now (of_nat SIM_BURST_ALLOWANCE)) = unat now + 50000000"
    using assms(2,3) by (simp add: u64_simps allowance_u64)
  have "unat (saturating_add (max b now) i) = max (unat b) (unat now) + unat i" if "unat b \<le> unat now + 50000000"
    using that assms(2,3) by (simp add: u64_simps)
  then show ?thesis using assms
    by (auto simp: should_drop_def word_less_nat_alt sat)
qed

lemma capacity_admits:
  assumes "sim_interval_ns config = Some i" and "\<forall>x \<in> set xs. unat (fst x) \<le> t"
    and "t + 50000000 + unat i < 2 ^ 64" and "length xs < 2 ^ 64"
  defines "c \<equiv> si_counters (receive_all config xs sim_start)"
  shows "unat (co_dropped c) \<le> length xs \<and> (length xs - unat (co_dropped c)) * unat i \<le> unat (co_budget_ns c)
    \<and> unat (co_budget_ns c) \<le> t + 50000000 + unat i"
  unfolding c_def using assms(2,4)
proof (induction xs rule: rev_induct)
  case (snoc x xs)
  obtain now req where x: "x = (now, req)" by (cases x)
  let ?c = "si_counters (receive_all config xs sim_start)"
  obtain lost b where d: "should_drop config now (co_received ?c + 1) (co_budget_ns ?c) = (lost, b)" by fastforce
  have IH: "unat (co_dropped ?c) \<le> length xs" "(length xs - unat (co_dropped ?c)) * unat i \<le> unat (co_budget_ns ?c)"
    "unat (co_budget_ns ?c) \<le> t + 50000000 + unat i" using snoc by auto
  have "unat now \<le> t" using snoc.prems(1) by (auto simp: x)
  from should_drop_budget [OF assms(1) this assms(3) IH(3), of "co_received ?c + 1"] d
  have b: "unat b \<le> t + 50000000 + unat i" "unat (co_budget_ns ?c) + of_bool (\<not> lost) * unat i \<le> unat b" by auto
  have "unat (co_dropped ?c + of_bool lost) = unat (co_dropped ?c) + of_bool lost"
    using IH(1) snoc.prems(2) by (cases lost) (auto intro: trans [OF unat_add_no_wrap])
  moreover have "Suc (length xs) - unat (co_dropped ?c) = Suc (length xs - unat (co_dropped ?c))" using IH(1) by simp
  ultimately show ?case using IH b
    by (cases lost) (auto simp: x receive_all_snoc sim_receive_counters Let_def d)
qed (simp add: receive_all_def sim_start_def Counters_zero_def)

lemma spaced_admitted:
  assumes "sim_interval_ns config = Some i" and "sc_drop_one_in config = None"
    and "\<forall>x \<in> set xs. unat (fst x) \<le> t" and "t + 50000000 + unat i < 2 ^ 64"
    and "\<And>j. Suc j < length xs \<Longrightarrow> unat (fst (xs ! j)) + unat i \<le> unat (fst (xs ! Suc j))"
  defines "c \<equiv> si_counters (receive_all config xs sim_start)"
  shows "co_dropped c = 0 \<and> unat (co_budget_ns c) \<le> (if xs = [] then 0 else unat (fst (last xs)) + unat i)"
  unfolding c_def using assms(3,5)
proof (induction xs rule: rev_induct)
  case (snoc x xs)
  obtain now req where x: "x = (now, req)" by (cases x)
  let ?c = "si_counters (receive_all config xs sim_start)"
  have sp: "unat (fst (xs ! j)) + unat i \<le> unat (fst (xs ! Suc j))" if "Suc j < length xs" for j
    using snoc.prems(2) [of j] that by (simp add: nth_append)
  have IH: "co_dropped ?c = 0" "unat (co_budget_ns ?c) \<le> (if xs = [] then 0 else unat (fst (last xs)) + unat i)"
    using snoc.IH [OF _ sp] snoc.prems(1) by auto
  have t: "unat now \<le> t" using snoc.prems(1) by (auto simp: x)
  have "unat (co_budget_ns ?c) \<le> unat now"
  proof (cases xs rule: rev_cases)
    case (snoc ys y)
    then show ?thesis using snoc.prems(2) [of "length ys"] IH(2) by (simp add: x nth_append)
  qed (use IH(2) in simp)
  moreover obtain lost b where d: "should_drop config now (co_received ?c + 1) (co_budget_ns ?c) = (lost, b)" by fastforce
  moreover have "\<not> one_in (sc_drop_one_in config) seq" for seq by (simp add: assms(2) one_in_def)
  ultimately have "\<not> lost" "unat b = unat now + unat i"
    using should_drop_budget [OF assms(1) t assms(4), of "co_budget_ns ?c" "co_received ?c + 1"] t by (auto simp: max_def)
  then show ?case using IH(1) by (simp add: x receive_all_snoc sim_receive_counters Let_def d)
qed (simp add: receive_all_def sim_start_def Counters_zero_def)

section \<open>Properties\<close>

text \<open>
  The simulated resolver loses what it says and nothing else. Told to drop one in \<open>k\<close>, of \<open>n\<close>
  queries it drops exactly \<open>n div k\<close>. With a capacity, the queries it admits up to a time, at one
  interval each, fit into that time plus the burst allowance and one interval; and arrivals at least an
  interval apart are never dropped.
\<close>

theorem sim_loss_exact:
  fixes config :: SimConfig
  assumes "\<forall>x \<in> set xs. unat (fst x) \<le> t" and "length xs < 2 ^ 64"
  defines "c \<equiv> si_counters (receive_all config xs sim_start)"
  shows "(sc_capacity_qps config = None \<and> sc_drop_one_in config = Some k \<and> 0 < k \<longrightarrow> unat (co_dropped c) = length xs div unat k)
    \<and> (sim_interval_ns config = Some i \<and> t + 50000000 + unat i < 2 ^ 64
        \<longrightarrow> (length xs - unat (co_dropped c)) * unat i \<le> t + 50000000 + unat i
          \<and> (sc_drop_one_in config = None \<and> (\<forall>j. Suc j < length xs \<longrightarrow> unat (fst (xs ! j)) + unat i \<le> unat (fst (xs ! Suc j)))
               \<longrightarrow> co_dropped c = 0))"
proof (intro conjI impI)
  assume "sc_capacity_qps config = None \<and> sc_drop_one_in config = Some k \<and> 0 < k"
  then show "unat (co_dropped c) = length xs div unat k" using one_in_drops [of config k xs] assms(2) by (simp add: c_def)
next
  assume i: "sim_interval_ns config = Some i \<and> t + 50000000 + unat i < 2 ^ 64"
  show "(length xs - unat (co_dropped c)) * unat i \<le> t + 50000000 + unat i"
    using capacity_admits [OF conjunct1 [OF i] assms(1) conjunct2 [OF i] assms(2)] by (auto simp: c_def)
  assume "sc_drop_one_in config = None \<and> (\<forall>j. Suc j < length xs \<longrightarrow> unat (fst (xs ! j)) + unat i \<le> unat (fst (xs ! Suc j)))"
  then show "co_dropped c = 0" using spaced_admitted [OF conjunct1 [OF i] _ assms(1) conjunct2 [OF i]] by (auto simp: c_def)
qed

theorem sim_loss_exact_witness:
  "co_dropped (si_counters (receive_all (SimConfig_default\<lparr>sc_capacity_qps := Some 1000\<rparr>)
      [(0, plain_response NoError []), (1000000, plain_response NoError [])] sim_start)) = 0"
proof -
  let ?cfg = "SimConfig_default\<lparr>sc_capacity_qps := Some 1000\<rparr>"
  let ?xs = "[(0, plain_response NoError []), (1000000, plain_response NoError [])] :: (u64 \<times> DnsResponse) list"
  have "sim_interval_ns ?cfg = Some 1000000" by code_simp
  moreover have "sc_drop_one_in ?cfg = None" by (simp add: SimConfig_default_def)
  moreover have "unat (fst (?xs ! j)) + unat (1000000 :: u64) \<le> unat (fst (?xs ! Suc j))" if "Suc j < length ?xs" for j
    using that by simp
  ultimately show ?thesis using sim_loss_exact [of ?xs 1000000 ?cfg 1 1000000] by auto
qed

text \<open>
  C40. Requests and responses survive the TCP connection. However many requests a client sends in one
  stream, each behind its length, and even if the stream breaks off in the middle of a further one, the
  client reads back exactly one response for each, whole and in order, and each is counted. For a name
  with addresses the response has all the answers of which the truncated one has the first, so asking
  again over TCP recovers what was cut.
\<close>

theorem serve_tcp_roundtrip:
  assumes "\<forall>q \<in> set qs. length (wire q) < 2 ^ 16 \<and> D (wire q) = Some q \<and> E (build_response q False) = Some (reply q) \<and> length (reply q) < 2 ^ 16"
    and "read_frame partial = None" and "length qs \<le> room"
  shows "(case serve_tcp D E room (concat (map (\<lambda>q. framed (wire q)) qs) @ partial) s of (out, s') \<Rightarrow>
      read_frames out = map reply qs \<and> co_tcp_served (si_counters s') = co_tcp_served (si_counters s) + of_nat (length qs))
    \<and> (\<forall>config q. sc_truncate_udp config \<longrightarrow>
      (\<exists>cut. dr_answers (build_response q False) = dr_answers (task_response config (q, False)) @ cut)
      \<and> dr_truncated (task_response config (q, False)) \<and> \<not> dr_truncated (build_response q False))"
proof (intro conjI allI impI)
  have "read_frames (concat (map (\<lambda>q. framed (reply q)) qs)) = map reply qs"
    using read_frames_framed [of "map reply qs"] assms(1) by (simp add: o_def)
  then show "case serve_tcp D E room (concat (map (\<lambda>q. framed (wire q)) qs) @ partial) s of (out, s') \<Rightarrow>
      read_frames out = map reply qs \<and> co_tcp_served (si_counters s') = co_tcp_served (si_counters s) + of_nat (length qs)"
    using serve_tcp_frames [of qs wire D E reply partial room s] assms by (auto split: prod.split)
  fix config :: SimConfig and q
  assume "sc_truncate_udp config"
  then show "\<exists>cut. dr_answers (build_response q False) = dr_answers (task_response config (q, False)) @ cut"
    "dr_truncated (task_response config (q, False))" "\<not> dr_truncated (build_response q False)"
    using sim_answers_more [of TRUNCATED_ANSWER_COUNT FULL_ANSWER_COUNT "dr_queries q"]
    by (simp_all add: task_response_def build_response_def build_response_sized_def Let_def
        TRUNCATED_ANSWER_COUNT_def FULL_ANSWER_COUNT_def)
qed

definition sample_request :: DnsResponse where
  "sample_request = (plain_response NoError [])\<lparr>dr_queries := [(''a.'', RT_A)]\<rparr>"

theorem serve_tcp_roundtrip_witness:
  "read_frames (fst (serve_tcp (\<lambda>b. if b = [7] then Some sample_request else None) (\<lambda>_. Some [1, 2, 3]) 5
      (framed [7] @ framed [7] @ [0, 9, 1]) sim_start)) = [[1, 2, 3], [1, 2, 3]]"
proof -
  let ?D = "\<lambda>b. if b = [7] then Some sample_request else None" and ?E = "\<lambda>_ :: DnsResponse. Some [1, 2, 3 :: u8]"
  have "read_frame [0, 9, 1] = None" by code_simp
  from serve_tcp_roundtrip [of "[sample_request, sample_request]" "\<lambda>_. [7]" ?D ?E "\<lambda>_. [1, 2, 3]" "[0, 9, 1]" 5 sim_start, OF _ this]
  show ?thesis by (auto split: prod.splits)
qed

end
