(* ===== verification/Spec2Isabelle.thy ===== *)
theory Spec2Isabelle
  imports Batches Shutdown Handles Mock Python Sim
begin

text \<open>
  A verification library for BlastDNS, a bulk DNS resolver client (the Rust crate under
  \<open>src/src\<close>). A client owns a pool of resolvers and a fixed number of workers. A lookup goes through
  the cache, then onto a bounded queue; a worker takes it, waits for a slot of the global rate limiter,
  reserves a permit of some eligible resolver, waits for that resolver's own pacing and for a token of
  the attempt pacer, sends the query, records its outcome and answers. A control loop watches the
  outcome counters and moves the three rates. On top of this stand the trait with its batch methods, a
  mock of the client, a zone transfer, a command line tool and Python bindings.

  \<^bold>\<open>Conventions.\<close> Machine integers are words of their width; a plain \<open>+\<close> wraps as in the release profile
  and in \<open>fetch_add\<close>. Durations and instants are numbers of nanoseconds. Floating point is binary64 on
  rationals, with the rounding of every operation written out; the values that occur are finite. A
  \<open>Result\<close> is a sum with the error on the left, a panic is \<^term>\<open>None\<close> of an option, a struct is a record, an
  enum a datatype. Suspension points of asynchronous code are the states of a step relation, and
  whatever the scheduler, the clock, the network or the operating system decides is an argument of a
  step. Third-party code (the DNS library, the semaphore, the LRU map, regular expressions, system
  calls, JSON text, Python objects) is a parameter; what is relied on of it is a locale, interpreted on
  an executable instance, so that the hypotheses can be met.

  \<^bold>\<open>Theories and sources.\<close>
  \<^item> \<open>Prelude\<close>: word types, saturating arithmetic, loops that may panic, collecting results.
  \<^item> \<open>F64\<close>: binary64 arithmetic with its rounding and error bounds.
  \<^item> \<open>Semaphore\<close>: the contract of the counting semaphore (locale \<open>semaphore\<close>).
  \<^item> \<open>Limiter\<close> (\<open>limiter.rs\<close>): \<open>RateLimiter\<close>, sequentially (\<open>acquire\<close>) and as racing tasks on its
    compare-and-swap loop (\<open>acq_step\<close>); \<open>AttemptPacer\<close> with its refill and its ticker.
  \<^item> \<open>Net\<close>, \<open>Net_Roundtrip\<close>, \<open>Ptr\<close>: the parser and printer of \<open>std::net\<close> addresses, that each undoes the
    other, and reverse names.
  \<^item> \<open>Errors\<close> (\<open>error.rs\<close>), \<open>Config\<close> (\<open>config.rs\<close>), \<open>Utils\<close> (\<open>utils.rs\<close>), \<open>Dns\<close>: the data of the DNS library.
  \<^item> \<open>Health\<close>, \<open>Pool\<close> (\<open>health.rs\<close>): one resolver's counters, purgatory, round-trip times and
    connections; the rotating selection with its three ways to wait.
  \<^item> \<open>Judge\<close>, \<open>Brake\<close>, \<open>Controller\<close> (\<open>controller.rs\<close>): the loss judge, the attempt brake, and a tick of the
    control loop over all resolvers (\<open>controller_tick\<close>).
  \<^item> \<open>Cache\<close> (\<open>cache.rs\<close>), \<open>Worker\<close> (\<open>worker.rs\<close>): the cache over an LRU map; one query, and the worker's
    loop as \<open>worker_step\<close> on its phases.
  \<^item> \<open>System\<close>: all of them together. Its state \<open>sys\<close> has what tasks share (pool, limiter, pacer, outcome
    counters), the queue, the phase of every worker and the replies given; \<open>sys_step\<close> is one move of a
    caller, a worker, the pacer's ticker or the control loop, in any order. \<open>Drain\<close> shows that the workers
    can always finish what was accepted.
  \<^item> \<open>Client\<close> (\<open>client.rs\<close>): \<open>with_config\<close>, \<open>ensure_workers\<close>, \<open>resolve_full\<close> with its retries and its use of
    the cache. How one attempt ends is an argument of \<open>resolve_full\<close>.
  \<^item> \<open>Callers\<close> (\<open>client.rs\<close>): the same lookup as \<open>caller_step\<close>, cut at its suspension points, and any number
    of them side by side on one client (\<open>session_step\<close>), some dropped half way. Here the replies are the
    ones the workers of \<open>System\<close> give.
  \<^item> \<open>Resolver\<close> (\<open>resolver.rs\<close>): the default methods of the trait over any implementation, the iterator
    stream, and the batch as the step relation \<open>resolve_batch_full\<close>.
  \<^item> \<open>Batches\<close> (\<open>resolver.rs\<close> over \<open>client.rs\<close>): a batch whose lookups are calls of the running client
    (\<open>run_step\<close>), beside other callers.
  \<^item> \<open>Shutdown\<close> (\<open>worker.rs\<close>, \<open>controller.rs\<close>, \<open>limiter.rs\<close>): the tasks of a client whose last handle has been
    dropped, until each has ended (\<open>close_step\<close>).
  \<^item> \<open>Handles\<close> (\<open>client.rs\<close>): clones of a client, and the workers each starts.
  \<^item> \<open>Mock\<close> (\<open>mock.rs\<close>), \<open>Zone\<close> (\<open>zone_transfer.rs\<close>), \<open>Cli\<close> (\<open>main.rs\<close>), \<open>Python\<close> (\<open>python.rs\<close>), \<open>Sim\<close> (\<open>sim.rs\<close>,
    the deterministic server the crate's tests run against).

  \<^bold>\<open>Interfaces.\<close> \<open>semaphore\<close> (permits are counted; interpreted on a counter), \<open>lru\<close> and \<open>cache\<close> (lookup
  after insertion; on a bounded list), \<open>nofile\<close> (a limit that was set is read back), \<open>hash_set\<close>
  (collecting into a set), \<open>rounding\<close> laws of \<open>F64\<close>, \<open>dns_resolver\<close> and \<open>batch_resolver\<close> (an implementation
  of the trait formats reverse queries itself, and its lookups return), interpreted on the client and on
  the mock.

  \<^bold>\<open>What is shown.\<close>
  \<^item> The system: permits free and held add up at every resolver, so the in-flight limits hold; every
    accepted lookup is answered once; counters add up; whatever has happened, the workers can still
    answer everything; ticks of the controller never panic and keep the configured rate. The theorem
    below carries this to a client as it is built.
  \<^item> Lookups side by side: each returns what the retry loop makes of its own replies, waits for its own
    question only, can always be brought to its end, and is counted once; which errors it can return.
  \<^item> Batches on the running client: each is a run of the abstract batch over the lookups of the client, and can
    always be carried on to the end of its stream.
  \<^item> The end of a client: its tasks end in an order that leaves nobody waiting, everything accepted is
    answered, and no task is left behind. Its clones: those made before the first use start workers of their own.
  \<^item> The client: retries, the counting of outcomes, cached answers, construction within the process's
    limits, several record types, batches that deliver every host once and come to an end.
  \<^item> Rates: slots never overlap and no window gets more than its share under any interleaving; the rate in
    force is the one asked for up to rounding; refills are bounded.
  \<^item> Resolvers: purgatory, selection of eligible resolvers and the right way to wait, queries that end by
    their deadline.
  \<^item> Control: episodes of retreats end, loss that does not answer to retreating becomes the baseline, the
    brake cuts only on evidence, clean resolvers are not slowed, the global limit is lifted again.
  \<^item> Text and data: addresses and lists survive printing, reverse names are unambiguous, the mock answers
    what its configuration means, zone transfers are all or nothing, Python batches lose nothing, the
    command line tool prints one line per result, frames survive the TCP connection of the simulator.

  \<^bold>\<open>Bounds.\<close> No definition uses fuel: the loops of the code are recursions with termination proofs
  (attempts of a lookup, digits, lines). Where a theorem has a number, it is the code's: an episode of
  the judge ends within 900 windows because at most every other window may fail to lower the loss by
  one per cent, which leaves fewer than 450 improvements between a loss of one and the threshold of two
  per cent; the global limit is gone after 100 clean windows because growth multiplies it by 1.25 from
  the floor of one query per second up to a ceiling of at most a thousand million.

  \<^bold>\<open>Not modelled.\<close> Sockets and the wire format of messages (the DNS library's), the adapter that lets a
  persistent socket pass for one of that library's streams, argument parsing and log output (input and
  output), the module table of the bindings and the \<open>Debug\<close> form of a client (glue), \<open>lib.rs\<close>
  (re-exports), tests. That a lookup can be brought to its end is shown as the existence of a way on from
  every state, not as a bound on time, which depends on the network and the scheduler. Infinite
  iterators are outside the model of the batch, whose iterator is the list of what it gives. NaN and
  infinite rates are outside the floating-point model. Starting the workers is one step, so a lookup that is
  dropped in the middle of the startup probe is not followed; nor are the pacers and control loops of
  several starts through clones, only their workers. That the receivers of a closed queue still get what
  is on it is what the channel library documents.
\<close>

section \<open>A client keeps its limits\<close>

lemma sys_reachable_workers:
  assumes "sys_reachable e y0 y"
  shows "length (sy_workers y) = length (sy_workers y0)"
  using assms
proof induction
  case (sys_run y y')
  then show ?case using sys_step_frame(1) [OF sys_run.hyps(2)] by simp
qed simp

lemma sys_reachable_interval:
  assumes "sys_reachable e y0 y" and "semaphore (ev_sem e)" and "shared_fresh (ev_sem e) cap (sy_shared y0)" and "is_f64 cap"
    and "sy_controller y0 = None \<or> sy_controller y0 = Some (AdaptiveController_new (length (resolvers_of y0)) cap)"
  shows "rl_interval_ns (sh_limiter (sy_shared y0)) \<le> rl_interval_ns (sh_limiter (sy_shared y))"
proof (cases "sy_controller y0")
  case (Some c0)
  with assms(5) have c0: "sy_controller y0 = Some (AdaptiveController_new (length (resolvers_of y0)) cap)" by simp
  then have "sys_ctl_ok y0" using ctl_ok_new [OF assms(3,4)] by (simp add: sys_ctl_ok_def)
  from sys_reachable_ctl [OF assms(1,2) this c0] show ?thesis using ctl_reachable_capped [OF assms(3,4)] by blast
next
  case None
  have "pacer_ok (sh_pacer (sy_shared y0))"
    using ctl_ok_new [OF assms(3,4)] sys_ctl_ok_pacer [of "y0\<lparr>sy_controller := Some (AdaptiveController_new (length (resolvers_of y0)) cap)\<rparr>"]
    by (simp add: sys_ctl_ok_def)
  then have ok: "sys_ctl_ok y0" using None by (simp add: sys_ctl_ok_def)
  from assms(1) have "sy_controller y = None \<and> rl_interval_ns (sh_limiter (sy_shared y)) = rl_interval_ns (sh_limiter (sy_shared y0))"
  proof induction
    case (sys_run y y')
    have "pacer_ok (sh_pacer (sy_shared y))"
      by (rule sys_ctl_ok_pacer [OF sys_reachable_ctl_ok [OF sys_run.hyps(1) assms(2) ok]])
    from sys_step_env [OF assms(2) sys_run.hyps(2) this] sys_run.IH show ?case by (auto simp: env_ok_def)
  qed (simp add: None)
  then show ?thesis by simp
qed



end
